(* ===== verification/GoPrelude.thy ===== *)
theory GoPrelude
  imports Main "HOL-Library.Multiset" "HOL-Library.Signed_Division"
begin

text \<open>
  What the components share: Go's 64-bit \<open>int\<close> as HOL integers with the wrap-around written
  out, the parts of package \<open>time\<close> the program uses, and generic facts on lists.

  \<^item> \<open>i64\<close> is the value a 64-bit two's complement register keeps of an integer (Go's \<open>int\<close> and
    \<open>int64\<close> on a 64-bit platform).  Every addition, subtraction or multiplication that can
    leave the range is written \<open>i64 (...)\<close> in the models.  Go's truncating \<open>/\<close> and \<open>%\<close> are
    \<open>sdiv\<close> and \<open>smod\<close>.
  \<^item> A \<open>time.Time\<close> is a number of nanoseconds since the zero time; \<open>time.Duration\<close> is an
    \<open>int64\<close>, so the difference of two times saturates as \<open>Time.Sub\<close> documents.  The readings
    of the clock (\<open>time.Now()\<close>) are arguments of the operations, one per call.
\<close>

named_theorems heap_simps \<open>facts that carry the proofs about container/heap\<close>
named_theorems queue_defs \<open>definitions of the queue operations, unfolded together\<close>

section \<open>Machine integers\<close>

definition i64 :: "int \<Rightarrow> int" where
  "i64 x = (x + 2 ^ 63) mod 2 ^ 64 - 2 ^ 63"

definition in_i64 :: "int \<Rightarrow> bool" where
  "in_i64 x \<longleftrightarrow> - (2 ^ 63) \<le> x \<and> x < 2 ^ 63"

lemma i64_id [simp]: "in_i64 x \<Longrightarrow> i64 x = x"
  by (simp add: in_i64_def i64_def)

lemma i64_range [simp]: "in_i64 (i64 x)"
proof -
  have "0 \<le> (x + 2 ^ 63) mod 2 ^ 64" and "(x + 2 ^ 63) mod 2 ^ 64 < (2 :: int) ^ 64"
    by (rule pos_mod_sign, simp) (rule pos_mod_bound, simp)
  then show ?thesis
    by (simp add: in_i64_def i64_def)
qed

lemma i64_idem [simp]: "i64 (i64 x) = i64 x"
  by (rule i64_id) (rule i64_range)

lemma i64_mod: "i64 x mod 2 ^ 64 = x mod 2 ^ 64"
  by (simp add: i64_def mod_diff_left_eq)

lemma i64_eq_iff: "i64 a = i64 b \<longleftrightarrow> a mod 2 ^ 64 = b mod 2 ^ 64"
proof
  assume "i64 a = i64 b"
  then show "a mod 2 ^ 64 = b mod 2 ^ 64"
    by (metis i64_mod)
next
  assume "a mod 2 ^ 64 = b mod 2 ^ 64"
  then have "(a + 2 ^ 63) mod 2 ^ 64 = (b + 2 ^ 63) mod 2 ^ 64"
    by (metis mod_add_left_eq)
  then show "i64 a = i64 b"
    by (simp add: i64_def)
qed

lemma i64_add_left [simp]: "i64 (i64 a + b) = i64 (a + b)"
  unfolding i64_eq_iff by (metis i64_mod mod_add_left_eq)

lemma i64_add_right [simp]: "i64 (a + i64 b) = i64 (a + b)"
  using i64_add_left [of b a] by (simp add: add.commute)

lemma i64_diff_left [simp]: "i64 (i64 a - b) = i64 (a - b)"
  unfolding i64_eq_iff by (metis i64_mod mod_diff_left_eq)

lemma i64_diff_right [simp]: "i64 (a - i64 b) = i64 (a - b)"
  unfolding i64_eq_iff by (metis i64_mod mod_diff_right_eq)

text \<open>Go's division and remainder of a non-negative integer.\<close>

lemma sdiv_pos: "0 \<le> a \<Longrightarrow> 0 < b \<Longrightarrow> a sdiv b = a div (b :: int)"
  by (cases "a = 0") (simp_all add: signed_divide_int_def)

lemma smod_pos: "0 \<le> a \<Longrightarrow> 0 < b \<Longrightarrow> a smod b = a mod (b :: int)"
  by (simp add: signed_modulo_int_def sgn_if)

lemma sdiv_smod_neg: "(- a) sdiv b = - (a sdiv (b :: int))" "(- a) smod b = - (a smod (b :: int))"
  by (simp_all add: signed_divide_int_def signed_modulo_int_def sgn_if)

section \<open>Package time\<close>

type_synonym time = int
type_synonym duration = int

definition zero_time :: time where
  "zero_time = 0"

definition second :: duration where
  "second = 1000000000"

definition sat_dur :: "int \<Rightarrow> duration" where
  "sat_dur x = max (- (2 ^ 63)) (min (2 ^ 63 - 1) x)"

definition time_sub :: "time \<Rightarrow> time \<Rightarrow> duration" where
  "time_sub t u = sat_dur (t - u)"

definition time_add :: "time \<Rightarrow> duration \<Rightarrow> time" where
  "time_add t d = t + d"

lemma sat_dur_mono: "x \<le> y \<Longrightarrow> sat_dur x \<le> sat_dur y"
  by (simp add: sat_dur_def)

lemma sat_dur_id: "in_i64 x \<Longrightarrow> sat_dur x = x"
  by (simp add: in_i64_def sat_dur_def)

lemma sat_dur_range: "in_i64 (sat_dur x)"
  by (simp add: in_i64_def sat_dur_def)

lemma sat_dur_ge_iff: "- (2 ^ 63) < d \<Longrightarrow> d < 2 ^ 63 \<Longrightarrow> d \<le> sat_dur x \<longleftrightarrow> d \<le> x"
  by (auto simp: sat_dur_def)

lemma sat_dur_le: "0 \<le> x \<Longrightarrow> sat_dur x \<le> x"
  by (simp add: sat_dur_def)

section \<open>Lists\<close>

lemma nth_update_two:
  assumes "i < length xs" and "j < length xs"
  shows "mset (xs[i := xs ! j, j := xs ! i]) = mset xs"
  using assms by (simp add: mset_swap)

lemma takeWhile_dropWhile_sorted:
  assumes "sorted (map f xs)"
  shows "dropWhile (\<lambda>x. f x < (c :: 'a :: linorder)) xs = filter (\<lambda>x. c \<le> f x) xs"
  using assms
proof (induction xs)
  case (Cons x xs)
  show ?case
  proof (cases "f x < c")
    case True
    with Cons show ?thesis by simp
  next
    case False
    with Cons.prems have "\<forall>y \<in> set xs. c \<le> f y" by fastforce
    with False show ?thesis by simp
  qed
qed simp

lemma mset_concat_update:
  assumes "i < length xs"
  shows "mset (concat (map f (xs[i := x]))) + mset (f (xs ! i)) = mset (concat (map f xs)) + mset (f x)"
  using assms
proof (induction xs arbitrary: i)
  case (Cons y xs)
  then show ?case by (cases i) (simp_all add: ac_simps)
qed simp

lemma split_first_inj: "x \<notin> set a \<Longrightarrow> x \<notin> set c \<Longrightarrow> a @ x # b = c @ x # d \<longleftrightarrow> a = c \<and> b = d"
proof (induction a arbitrary: c)
  case Nil
  then show ?case by (cases c) auto
next
  case (Cons y a)
  then show ?case by (cases c) auto
qed

section \<open>Package fmt\<close>

text \<open>
  The verb \<open>%q\<close> (\<open>strconv.Quote\<close>) byte by byte: quotes and backslashes are escaped, control
  characters become their escapes, everything else is copied.  (Bytes above 127 are copied as
  well, which is what \<open>Quote\<close> does for the UTF-8 of a printable character.)
\<close>

definition hex_digit :: "nat \<Rightarrow> char" where
  "hex_digit n = (if n < 16 then ''0123456789abcdef'' ! n else CHR ''?'')"

definition quote_char :: "char \<Rightarrow> string" where
  "quote_char c =
     (let n = of_char c :: nat in
      if n = 34 then [CHR 0x5C, CHR 0x22] else if n = 92 then [CHR 0x5C, CHR 0x5C]
      else if n = 7 then [CHR 0x5C, CHR ''a''] else if n = 8 then [CHR 0x5C, CHR ''b'']
      else if n = 12 then [CHR 0x5C, CHR ''f''] else if n = 10 then [CHR 0x5C, CHR ''n'']
      else if n = 13 then [CHR 0x5C, CHR ''r''] else if n = 9 then [CHR 0x5C, CHR ''t'']
      else if n = 11 then [CHR 0x5C, CHR ''v'']
      else if n < 32 \<or> n = 127 then [CHR 0x5C, CHR ''x'', hex_digit (n div 16), hex_digit (n mod 16)]
      else [c])"

definition go_quote :: "string \<Rightarrow> string" where
  "go_quote s = CHR 0x22 # concat (map quote_char s) @ [CHR 0x22]"

text \<open>The verb \<open>%d\<close>.\<close>

definition digit :: "nat \<Rightarrow> char" where
  "digit d = char_of (48 + d)"

fun nat_dec :: "nat \<Rightarrow> string" where
  "nat_dec n = (if n < 10 then [digit n] else nat_dec (n div 10) @ [digit (n mod 10)])"

declare nat_dec.simps [simp del]

definition int_dec :: "int \<Rightarrow> string" where
  "int_dec n = (if n < 0 then CHR ''-'' # nat_dec (nat (- n)) else nat_dec (nat n))"

text \<open>The verb \<open>%b\<close>, \<open>%v\<close> of a slice of integers or of strings, and the line end of \<open>Println\<close>.\<close>

fun nat_bin :: "nat \<Rightarrow> string" where
  "nat_bin n = (if n < 2 then [digit n] else nat_bin (n div 2) @ [digit (n mod 2)])"

declare nat_bin.simps [simp del]

definition int_bin :: "int \<Rightarrow> string" where
  "int_bin n = (if n < 0 then CHR ''-'' # nat_bin (nat (- n)) else nat_bin (nat n))"

fun spaced :: "string list \<Rightarrow> string" where
  "spaced [] = []"
| "spaced [w] = w"
| "spaced (w # ws) = w @ '' '' @ spaced ws"

definition show_strings :: "string list \<Rightarrow> string" where
  "show_strings ws = ''['' @ spaced ws @ '']''"

definition show_ints :: "int list \<Rightarrow> string" where
  "show_ints xs = show_strings (map int_dec xs)"

definition println :: "string \<Rightarrow> string" where
  "println s = s @ [CHR 0x0A]"

section \<open>Refinement of programs\<close>

text \<open>A program of fallible steps, and the interface of an implementation that refines each step.\<close>

primrec run_steps :: "('op \<Rightarrow> 's \<Rightarrow> 's option) \<Rightarrow> 'op list \<Rightarrow> 's \<Rightarrow> 's option" where
  "run_steps step [] s = Some s"
| "run_steps step (x # xs) s = Option.bind (step x s) (run_steps step xs)"

locale refined_steps =
  fixes step :: "'op \<Rightarrow> 's \<Rightarrow> 's option"
    and spec :: "'op \<Rightarrow> 'a \<Rightarrow> 'a"
    and rep :: "'s \<Rightarrow> 'a \<Rightarrow> bool"
  assumes step_refines: "rep s x \<Longrightarrow> \<exists>s'. step k s = Some s' \<and> rep s' (spec k x)"
begin

lemma steps_refine: "rep s x \<Longrightarrow> \<exists>s'. run_steps step ks s = Some s' \<and> rep s' (fold spec ks x)"
proof (induction ks arbitrary: s x)
  case (Cons k ks)
  from step_refines [OF Cons.prems, of k] obtain s' where "step k s = Some s'" "rep s' (spec k x)" by blast
  with Cons.IH show ?case by simp
qed simp

end

lemma run_checked: "(case x of None \<Rightarrow> False | Some s \<Rightarrow> P s) \<Longrightarrow> \<exists>s. x = Some s \<and> P s"
  by (simp split: option.splits)

text \<open>The outcome of an operation on a channel: it goes through, panics, or cannot go on yet.\<close>

datatype 'a step_result = Steps 'a | Panics | Blocked

text \<open>Steps that keep an invariant, as long as the environment's labels satisfy \<open>ok\<close>.\<close>

locale invariant_steps =
  fixes step :: "'op \<Rightarrow> 's \<Rightarrow> 's option"
    and ok :: "'op \<Rightarrow> bool"
    and inv :: "'s \<Rightarrow> bool"
  assumes step_inv: "inv s \<Longrightarrow> ok k \<Longrightarrow> step k s = Some s' \<Longrightarrow> inv s'"
begin

lemma run_inv: "inv s \<Longrightarrow> \<forall>k \<in> set ks. ok k \<Longrightarrow> run_steps step ks s = Some s' \<Longrightarrow> inv s'"
proof (induction ks arbitrary: s)
  case (Cons k ks)
  from Cons.prems(3) obtain s1 where "step k s = Some s1" "run_steps step ks s1 = Some s'"
    by (auto simp: bind_eq_Some_conv)
  moreover from this Cons.prems have "inv s1" by (auto intro: step_inv [of s k])
  ultimately show ?case using Cons.IH Cons.prems(2) by simp
qed simp

end

text \<open>
  Measures along infinite runs.  A measure that no step raises settles, and a measure that falls
  again and again while no step raises it cannot be.
\<close>

lemma falling_settles:
  fixes f :: "nat \<Rightarrow> nat"
  assumes "\<And>n. N \<le> n \<Longrightarrow> f (Suc n) \<le> f n"
  shows "\<exists>M\<ge>N. \<forall>n\<ge>M. f n = f M"
  using assms
proof (induction "f N" arbitrary: N rule: less_induct)
  case less
  have le: "f n \<le> f N" if "N \<le> n" for n
    using that less.prems by (induction rule: dec_induct) (auto intro: order_trans)
  show ?case
  proof (cases "\<exists>n\<ge>N. f n < f N")
    case True
    then obtain n where n: "N \<le> n" "f n < f N" by blast
    from less.hyps [OF n(2)] less.prems n(1) obtain M where "n \<le> M" "\<forall>k\<ge>M. f k = f M"
      using order_trans by blast
    then show ?thesis using n(1) order_trans by blast
  next
    case False
    with le show ?thesis by (meson order.refl le_neq_implies_less)
  qed
qed

lemma falls_forever:
  fixes f :: "nat \<Rightarrow> nat"
  assumes "\<And>n. N \<le> n \<Longrightarrow> f (Suc n) \<le> f n" and "\<And>n. \<exists>m\<ge>n. P m"
    and "\<And>n. N \<le> n \<Longrightarrow> P n \<Longrightarrow> f (Suc n) < f n"
  shows False
proof -
  obtain M where M: "N \<le> M" "\<forall>n\<ge>M. f n = f M" using falling_settles [of N f] assms(1) by blast
  obtain m where "M \<le> m" "P m" using assms(2) by blast
  with M assms(3) [of m] show False by (metis le_SucI less_irrefl order_trans)
qed

locale progress_steps = invariant_steps step ok inv
  for step :: "'op \<Rightarrow> 's \<Rightarrow> 's option" and ok :: "'op \<Rightarrow> bool" and inv :: "'s \<Rightarrow> bool" +
  fixes work :: "'s \<Rightarrow> nat"
  assumes step_work: "inv s \<Longrightarrow> ok k \<Longrightarrow> step k s = Some s' \<Longrightarrow> work s' \<le> work s"
begin

lemma run_from:
  assumes "\<And>n. step (l n) (r n) = Some (r (Suc n))" and "inv (r N)" and "\<And>n. N \<le> n \<Longrightarrow> ok (l n)" and "N \<le> n"
  shows "inv (r n)"
  using assms(4)
proof (induction rule: dec_induct)
  case (step n)
  then show ?case using step_inv [OF _ assms(3) assms(1)] by simp
qed (rule assms(2))

lemma settles:
  assumes "\<And>n. step (l n) (r n) = Some (r (Suc n))" and "inv (r N)" and "\<And>n. N \<le> n \<Longrightarrow> ok (l n)"
  shows "\<exists>M\<ge>N. \<forall>n\<ge>M. inv (r n) \<and> work (r n) = work (r M)"
proof -
  have i: "inv (r n)" if "N \<le> n" for n by (rule run_from [OF assms that])
  then have "work (r (Suc n)) \<le> work (r n)" if "N \<le> n" for n
    using step_work [OF i assms(3) assms(1)] that by blast
  from falling_settles [of N "\<lambda>n. work (r n)", OF this] obtain M
    where M: "N \<le> M" "\<forall>n\<ge>M. work (r n) = work (r M)" by blast
  with i have "\<forall>n\<ge>M. inv (r n) \<and> work (r n) = work (r M)" by (meson order_trans)
  with M(1) show ?thesis by blast
qed

end

end
