(* ===== verification/JobHeap.thy ===== *)
theory JobHeap
  imports GoPrelude
begin

text \<open>
  Go's \<open>container/heap\<close> on a slice, as \<open>system-design/job-queue/queue.go\<close> uses it: the slice
  is a list, \<open>heap_up\<close> and \<open>heap_down\<close> are the library's two sift loops, \<open>heap_push\<close> and
  \<open>heap_pop\<close> its two entry points (the callbacks \<open>Push\<close>, \<open>Pop\<close>, \<open>Swap\<close> and \<open>Len\<close> of
  \<open>jobHeap\<close> are the list operations \<open>hpush\<close>, \<open>hpop\<close>, \<open>hswap\<close> and \<open>length\<close>).  The only thing
  the library asks of its client is the order \<open>Less\<close>: the locale \<open>heap_interface\<close> states what
  \<open>heap.Interface\<close> documents for it (a strict weak order) and proves, once, that pushing and
  popping keep the heap order, lose no element and deliver a minimal one.
\<close>

section \<open>The callbacks of heap.Interface\<close>

definition hswap :: "'a list \<Rightarrow> nat \<Rightarrow> nat \<Rightarrow> 'a list" where
  "hswap xs i j = xs[i := xs ! j, j := xs ! i]"

definition hpush :: "'a list \<Rightarrow> 'a \<Rightarrow> 'a list" where
  "hpush xs x = xs @ [x]"

text \<open>\<open>Pop\<close> reads slot \<open>n - 1\<close>; on an empty slice the index panics, the value \<open>None\<close> here.\<close>

definition hpop :: "'a list \<Rightarrow> ('a \<times> 'a list) option" where
  "hpop xs = (if xs = [] then None else Some (xs ! (length xs - 1), take (length xs - 1) xs))"

section \<open>The loops of container/heap\<close>

definition parent :: "nat \<Rightarrow> nat" where
  "parent j = (j - 1) div 2"

function heap_up :: "('a \<Rightarrow> 'a \<Rightarrow> bool) \<Rightarrow> 'a list \<Rightarrow> nat \<Rightarrow> 'a list" where
  "heap_up lt xs j =
     (let i = parent j in
      if i = j \<or> \<not> lt (xs ! j) (xs ! i) then xs
      else heap_up lt (hswap xs i j) i)"
  by pat_completeness auto
termination
  by (relation "measure (\<lambda>(lt, xs, j). j)") (auto simp: parent_def Let_def)

definition down_child :: "('a \<Rightarrow> 'a \<Rightarrow> bool) \<Rightarrow> 'a list \<Rightarrow> nat \<Rightarrow> nat \<Rightarrow> nat" where
  "down_child lt xs i n =
     (let j1 = 2 * i + 1; j2 = j1 + 1 in
      if j2 < n \<and> lt (xs ! j2) (xs ! j1) then j2 else j1)"

function heap_down :: "('a \<Rightarrow> 'a \<Rightarrow> bool) \<Rightarrow> 'a list \<Rightarrow> nat \<Rightarrow> nat \<Rightarrow> 'a list" where
  "heap_down lt xs i n =
     (if 2 * i + 1 \<ge> n then xs
      else let j = down_child lt xs i n in
        if \<not> lt (xs ! j) (xs ! i) then xs
        else heap_down lt (hswap xs i j) j n)"
  by pat_completeness auto
termination
  by (relation "measure (\<lambda>(lt, xs, i, n). n - i)") (auto simp: down_child_def Let_def)

declare heap_up.simps [simp del] heap_down.simps [simp del]

definition heap_push :: "('a \<Rightarrow> 'a \<Rightarrow> bool) \<Rightarrow> 'a list \<Rightarrow> 'a \<Rightarrow> 'a list" where
  "heap_push lt xs x = (let ys = hpush xs x in heap_up lt ys (length ys - 1))"

definition heap_pop :: "('a \<Rightarrow> 'a \<Rightarrow> bool) \<Rightarrow> 'a list \<Rightarrow> ('a \<times> 'a list) option" where
  "heap_pop lt xs =
     (if xs = [] then None
      else let n = length xs - 1 in hpop (heap_down lt (hswap xs 0 n) 0 n))"

section \<open>Positions and permutations\<close>

lemma parent_less [heap_simps]: "0 < j \<Longrightarrow> parent j < j"
  by (simp add: parent_def)

lemma parent_le [heap_simps]: "parent j \<le> j"
  by (simp add: parent_def)

lemma parent_fix [heap_simps]: "parent j = j \<longleftrightarrow> j = 0"
  by (auto simp: parent_def)

lemma parent_child [heap_simps]: "0 < k \<Longrightarrow> parent k = i \<longleftrightarrow> k = 2 * i + 1 \<or> k = 2 * i + 2"
  unfolding parent_def by arith

lemma length_hswap [simp]: "length (hswap xs i j) = length xs"
  by (simp add: hswap_def)

lemma nth_hswap:
  "i < length xs \<Longrightarrow> j < length xs \<Longrightarrow>
   hswap xs i j ! k = (if k = j then xs ! i else if k = i then xs ! j else xs ! k)"
  by (cases "k < length xs") (auto simp: hswap_def nth_list_update)

lemma mset_hswap: "i < length xs \<Longrightarrow> j < length xs \<Longrightarrow> mset (hswap xs i j) = mset xs"
  by (simp add: hswap_def mset_swap)

lemma down_child_cases: "down_child lt xs i n = 2 * i + 1 \<or> down_child lt xs i n = 2 * i + 2 \<and> 2 * i + 2 < n"
  by (auto simp: down_child_def Let_def)

lemma down_child_bounds:
  "2 * i + 1 < n \<Longrightarrow> i < down_child lt xs i n \<and> down_child lt xs i n < n"
  using down_child_cases [of lt xs i n] by auto

lemma length_heap_up [simp]: "length (heap_up lt xs j) = length xs"
proof (induction lt xs j rule: heap_up.induct)
  case (1 lt xs j)
  then show ?case
    by (subst heap_up.simps) (auto simp: Let_def)
qed

lemma mset_heap_up: "j < length xs \<Longrightarrow> mset (heap_up lt xs j) = mset xs"
proof (induction lt xs j rule: heap_up.induct)
  case (1 lt xs j)
  have "parent j < length xs"
    using 1(2) parent_le [of j] by simp
  with 1 show ?case
    by (subst heap_up.simps) (auto simp: Let_def mset_hswap)
qed

lemma length_heap_down [simp]: "length (heap_down lt xs i n) = length xs"
proof (induction lt xs i n rule: heap_down.induct)
  case (1 lt xs i n)
  then show ?case
    by (subst heap_down.simps) (auto simp: Let_def)
qed

lemma mset_heap_down: "n \<le> length xs \<Longrightarrow> mset (heap_down lt xs i n) = mset xs"
proof (induction lt xs i n rule: heap_down.induct)
  case (1 lt xs i n)
  show ?case
  proof (cases "2 * i + 1 \<ge> n \<or> \<not> lt (xs ! down_child lt xs i n) (xs ! i)")
    case True
    then show ?thesis by (subst heap_down.simps) (auto simp: Let_def)
  next
    case False
    then have "down_child lt xs i n < n" and "i < n"
      using down_child_bounds [of i n lt xs] by auto
    with 1 False show ?thesis
      by (subst heap_down.simps) (auto simp: Let_def mset_hswap)
  qed
qed

lemma heap_down_beyond:
  "n \<le> k \<Longrightarrow> n \<le> length xs \<Longrightarrow> k < length xs \<Longrightarrow> heap_down lt xs i n ! k = xs ! k"
proof (induction lt xs i n rule: heap_down.induct)
  case (1 lt xs i n)
  show ?case
  proof (cases "2 * i + 1 \<ge> n \<or> \<not> lt (xs ! down_child lt xs i n) (xs ! i)")
    case True
    then show ?thesis by (subst heap_down.simps) (auto simp: Let_def)
  next
    case False
    then have "down_child lt xs i n < n" and "i < n"
      using down_child_bounds [of i n lt xs] by auto
    with 1 False show ?thesis
      by (subst heap_down.simps) (auto simp: Let_def nth_hswap)
  qed
qed

lemma heap_pop_None: "heap_pop lt xs = None \<longleftrightarrow> xs = []"
proof (cases "xs = []")
  case False
  then have "heap_down lt (hswap xs 0 (length xs - 1)) 0 (length xs - 1) \<noteq> []"
    by (metis length_0_conv length_heap_down length_hswap)
  with False show ?thesis by (simp add: heap_pop_def hpop_def Let_def)
qed (simp add: heap_pop_def)

lemma mset_heap_push: "mset (heap_push lt xs x) = add_mset x (mset xs)"
  by (simp add: heap_push_def hpush_def Let_def mset_heap_up)

text \<open>The popped element is the old root, and the rest of the slice is what was left.\<close>

lemma heap_pop_Some:
  assumes "heap_pop lt xs = Some (x, ys)"
  shows "x = xs ! 0" and "mset xs = add_mset x (mset ys)" and "length ys = length xs - 1"
proof -
  let ?n = "length xs - 1"
  let ?zs = "heap_down lt (hswap xs 0 ?n) 0 ?n"
  from assms have ne: "xs \<noteq> []" by (auto simp: heap_pop_def)
  then have n: "?n < length xs" by simp
  have zs_ne: "?zs \<noteq> []"
    using ne by (metis length_0_conv length_heap_down length_hswap)
  from assms ne zs_ne have x: "x = ?zs ! ?n" and ys: "ys = take ?n ?zs"
    by (auto simp: heap_pop_def hpop_def Let_def)
  have "?zs ! ?n = xs ! 0"
    using n ne by (subst heap_down_beyond) (auto simp: nth_hswap)
  with x show x0: "x = xs ! 0" by simp
  have "?zs = ys @ [x]"
    using n ys x take_Suc_conv_app_nth [of ?n ?zs] by simp
  then have "mset ?zs = add_mset x (mset ys)" by simp
  moreover have "mset ?zs = mset xs"
    using n ne by (subst mset_heap_down) (auto simp: mset_hswap)
  ultimately show "mset xs = add_mset x (mset ys)" by simp
  show "length ys = length xs - 1" using ys by simp
qed

lemma heap_pop_set: "heap_pop lt xs = Some (x, ys) \<Longrightarrow> set xs = insert x (set ys)"
  using heap_pop_Some(2) [of lt xs x ys] by (metis set_mset_add_mset_insert set_mset_mset)

section \<open>The heap order\<close>

text \<open>
  \<open>heap_upto lt xs n\<close>: no element of the prefix of length \<open>n\<close> comes before its parent.  During
  a sift one position is exempt, but its children (\<open>heap_but_up\<close>, \<open>heap_but_down\<close>) already
  agree with its parent.
\<close>

definition heap_upto :: "('a \<Rightarrow> 'a \<Rightarrow> bool) \<Rightarrow> 'a list \<Rightarrow> nat \<Rightarrow> bool" where
  "heap_upto lt xs n \<longleftrightarrow> (\<forall>k<n. 0 < k \<longrightarrow> \<not> lt (xs ! k) (xs ! parent k))"

definition heap_ordered :: "('a \<Rightarrow> 'a \<Rightarrow> bool) \<Rightarrow> 'a list \<Rightarrow> bool" where
  "heap_ordered lt xs \<longleftrightarrow> heap_upto lt xs (length xs)"

definition heap_but_up :: "('a \<Rightarrow> 'a \<Rightarrow> bool) \<Rightarrow> 'a list \<Rightarrow> nat \<Rightarrow> bool" where
  "heap_but_up lt xs j \<longleftrightarrow>
     (\<forall>k<length xs. 0 < k \<longrightarrow> k \<noteq> j \<longrightarrow> \<not> lt (xs ! k) (xs ! parent k)) \<and>
     (\<forall>k<length xs. 0 < k \<longrightarrow> parent k = j \<longrightarrow> 0 < j \<longrightarrow> \<not> lt (xs ! k) (xs ! parent j))"

definition heap_but_down :: "('a \<Rightarrow> 'a \<Rightarrow> bool) \<Rightarrow> 'a list \<Rightarrow> nat \<Rightarrow> nat \<Rightarrow> bool" where
  "heap_but_down lt xs i n \<longleftrightarrow>
     (\<forall>k<n. 0 < k \<longrightarrow> parent k \<noteq> i \<longrightarrow> \<not> lt (xs ! k) (xs ! parent k)) \<and>
     (\<forall>k<n. 0 < k \<longrightarrow> parent k = i \<longrightarrow> 0 < i \<longrightarrow> \<not> lt (xs ! k) (xs ! parent i))"

lemma heap_ordered_Nil [simp]: "heap_ordered lt []"
  by (simp add: heap_ordered_def heap_upto_def)

text \<open>A heap order only looks at the order between the elements it holds.\<close>

lemma heap_ordered_cong:
  assumes "\<And>a b. a \<in> set xs \<Longrightarrow> b \<in> set xs \<Longrightarrow> lt' a b = lt a b"
  shows "heap_ordered lt' xs = heap_ordered lt xs"
proof -
  have "lt' (xs ! k) (xs ! parent k) = lt (xs ! k) (xs ! parent k)" if "k < length xs" for k
    using that parent_le [of k] by (intro assms) auto
  then show ?thesis by (simp add: heap_ordered_def heap_upto_def)
qed

text \<open>
  The contract of \<open>heap.Interface\<close>: \<open>Less\<close> is a strict weak order.  (Transitivity of
  \<open>Less\<close> itself follows; what the sift loops need is transitivity of its negation.)
\<close>

locale heap_interface =
  fixes lt :: "'a \<Rightarrow> 'a \<Rightarrow> bool"
  assumes asym: "lt a b \<Longrightarrow> \<not> lt b a"
    and ntrans: "\<not> lt a b \<Longrightarrow> \<not> lt b c \<Longrightarrow> \<not> lt a c"
begin

lemma irrefl: "\<not> lt a a"
  using asym by blast

lemma up_step:
  assumes but: "heap_but_up lt xs j" and j: "j < length xs" "0 < j"
    and less: "lt (xs ! j) (xs ! parent j)"
  shows "heap_but_up lt (hswap xs (parent j) j) (parent j)"
proof -
  let ?p = "parent j" and ?ys = "hswap xs (parent j) j"
  have p: "?p < j" "?p < length xs" using j parent_less [of j] by auto
  have ys: "?ys ! k = (if k = j then xs ! ?p else if k = ?p then xs ! j else xs ! k)" for k
    using p j by (simp add: nth_hswap)
  have ok: "\<not> lt (xs ! k) (xs ! parent k)" if "k < length xs" "0 < k" "k \<noteq> j" for k
    using but that by (simp add: heap_but_up_def)
  have ch: "\<not> lt (xs ! k) (xs ! ?p)" if "k < length xs" "0 < k" "parent k = j" for k
    using but that j by (simp add: heap_but_up_def)
  have pj: "\<not> lt (xs ! ?p) (xs ! j)" using less by (rule asym)
  have 1: "\<not> lt (?ys ! k) (?ys ! parent k)" if k: "k < length xs" "0 < k" "k \<noteq> ?p" for k
  proof (cases "k = j")
    case True
    with p pj show ?thesis by (simp add: ys)
  next
    case kj: False
    consider "parent k = j" | "parent k = ?p" | "parent k \<noteq> j" "parent k \<noteq> ?p" by blast
    then show ?thesis
      using ok [OF k(1,2) kj] ch [OF k(1,2)] ntrans [OF _ pj] k kj
      by cases (auto simp: ys)
  qed
  have 2: "\<not> lt (?ys ! k) (?ys ! parent ?p)"
    if k: "k < length xs" "0 < k" "parent k = ?p" "0 < ?p" for k
  proof -
    have pp: "parent ?p < ?p" using k parent_less [of ?p] by simp
    have "\<not> lt (xs ! ?p) (xs ! parent ?p)" using ok [of ?p] p k by simp
    moreover have "k \<noteq> j \<Longrightarrow> \<not> lt (xs ! k) (xs ! ?p)" using ok [of k] k by simp
    moreover have "k \<noteq> ?p" using k parent_less [of k] by auto
    ultimately show ?thesis using ntrans pp p by (auto simp: ys)
  qed
  from 1 2 show ?thesis by (simp add: heap_but_up_def)
qed

lemma heap_up_ordered: "heap_but_up lt xs j \<Longrightarrow> j < length xs \<Longrightarrow> heap_ordered lt (heap_up lt xs j)"
proof (induction j arbitrary: xs rule: less_induct)
  case (less j)
  show ?case
  proof (cases "parent j = j \<or> \<not> lt (xs ! j) (xs ! parent j)")
    case True
    then have "heap_ordered lt xs"
      using less.prems by (auto simp: heap_ordered_def heap_upto_def heap_but_up_def parent_fix)
    with True show ?thesis by (subst heap_up.simps) (simp add: Let_def)
  next
    case False
    then have j: "0 < j" by (auto simp: parent_fix)
    then have "parent j < j" by (rule parent_less)
    with less.IH [OF this up_step [OF less.prems j]] False less.prems(2)
    show ?thesis by (subst heap_up.simps) (simp add: Let_def)
  qed
qed

lemma heap_push_ordered: "heap_ordered lt xs \<Longrightarrow> heap_ordered lt (heap_push lt xs x)"
proof -
  assume h: "heap_ordered lt xs"
  have 1: "\<not> lt ((xs @ [x]) ! k) ((xs @ [x]) ! parent k)" if "k < length xs" "0 < k" for k
    using h that parent_less [of k] by (auto simp: heap_ordered_def heap_upto_def nth_append)
  have 2: "parent k \<noteq> length xs" if "k < Suc (length xs)" "0 < k" for k
    using that parent_less [of k] by simp
  have "heap_but_up lt (xs @ [x]) (length xs)"
    using 1 2 by (auto simp: heap_but_up_def less_Suc_eq)
  then show ?thesis
    by (simp add: heap_push_def hpush_def Let_def heap_up_ordered)
qed

lemma down_step:
  assumes but: "heap_but_down lt xs i n" and n: "n \<le> length xs" and i: "2 * i + 1 < n"
    and j: "j = down_child lt xs i n" and less: "lt (xs ! j) (xs ! i)"
  shows "heap_but_down lt (hswap xs i j) j n"
proof -
  let ?ys = "hswap xs i j"
  have ij: "i < j" "j < n" using down_child_bounds [OF i, of lt xs] j by auto
  have pj: "parent j = i" using down_child_cases [of lt xs i n] j ij by (auto simp: parent_def)
  have ys: "?ys ! k = (if k = j then xs ! i else if k = i then xs ! j else xs ! k)" for k
    using ij n by (simp add: nth_hswap)
  have sib: "\<not> lt (xs ! k) (xs ! j)" if "k < n" "0 < k" "parent k = i" for k
  proof -
    from that have "k = 2 * i + 1 \<or> k = 2 * i + 2" by (simp add: parent_child)
    with \<open>k < n\<close> j show ?thesis
      using asym irrefl by (auto simp: down_child_def Let_def split: if_splits)
  qed
  have ok: "\<not> lt (xs ! k) (xs ! parent k)" if "k < n" "0 < k" "parent k \<noteq> i" for k
    using but that by (simp add: heap_but_down_def)
  have up: "\<not> lt (xs ! j) (xs ! parent i)" if "0 < i"
    using but that ij pj by (simp add: heap_but_down_def)
  have 1: "\<not> lt (?ys ! k) (?ys ! parent k)" if k: "k < n" "0 < k" "parent k \<noteq> j" for k
  proof -
    have "parent k \<noteq> k" using k by (simp add: parent_fix)
    then consider "k = j" | "k \<noteq> j" "parent k = i" "k \<noteq> i" | "k = i" "parent k \<noteq> i" "k \<noteq> j"
      | "k \<noteq> i" "k \<noteq> j" "parent k \<noteq> i" by blast
    then show ?thesis
      using asym [OF less] pj sib [OF k(1,2)] up ok [OF k(1,2)] k ij
      by cases (auto simp: ys)
  qed
  have 2: "\<not> lt (?ys ! k) (?ys ! parent j)" if k: "k < n" "0 < k" "parent k = j" for k
    using ok [OF k(1,2)] k ij pj parent_less [of k] by (auto simp: ys)
  from 1 2 show ?thesis by (simp add: heap_but_down_def)
qed

lemma heap_down_ordered:
  "heap_but_down lt xs i n \<Longrightarrow> n \<le> length xs \<Longrightarrow> heap_upto lt (heap_down lt xs i n) n"
proof (induction "n - i" arbitrary: xs i rule: less_induct)
  case less
  let ?j = "down_child lt xs i n"
  show ?case
  proof (cases "2 * i + 1 \<ge> n")
    case True
    then have "parent k \<noteq> i" if "k < n" "0 < k" for k
      using that by (auto simp: parent_child)
    with less.prems have "heap_upto lt xs n" by (simp add: heap_upto_def heap_but_down_def)
    with True show ?thesis by (subst heap_down.simps) simp
  next
    case i: False
    then have ij: "i < ?j" "?j < n" using down_child_bounds [of i n lt xs] by auto
    show ?thesis
    proof (cases "lt (xs ! ?j) (xs ! i)")
      case True
      have "n - ?j < n - i" using ij by simp
      then have "heap_upto lt (heap_down lt (hswap xs i ?j) ?j n) n"
        using down_step [OF less.prems _ refl True] i less.prems(2) by (intro less.hyps) auto
      with True i show ?thesis by (subst heap_down.simps) (simp add: Let_def)
    next
      case False
      have "\<not> lt (xs ! k) (xs ! parent k)" if k: "k < n" "0 < k" for k
      proof (cases "parent k = i")
        case True
        with k have "k = 2 * i + 1 \<or> k = 2 * i + 2" by (simp add: parent_child)
        then have "\<not> lt (xs ! k) (xs ! ?j)"
          using k irrefl asym by (auto simp: down_child_def Let_def)
        from ntrans [OF this False] True show ?thesis by simp
      qed (use less.prems k in \<open>simp add: heap_but_down_def\<close>)
      then have "heap_upto lt xs n" by (simp add: heap_upto_def)
      with False i show ?thesis by (subst heap_down.simps) (simp add: Let_def)
    qed
  qed
qed

lemma heap_pop_ordered:
  assumes h: "heap_ordered lt xs" and pop: "heap_pop lt xs = Some (x, ys)"
  shows "heap_ordered lt ys"
proof -
  let ?n = "length xs - 1"
  let ?zs = "heap_down lt (hswap xs 0 ?n) 0 ?n"
  have ne: "xs \<noteq> []" using pop by (auto simp: heap_pop_def)
  have k: "\<not> lt (hswap xs 0 ?n ! k) (hswap xs 0 ?n ! parent k)"
    if "k < ?n" "0 < k" "parent k \<noteq> 0" for k
    using h that ne parent_less [of k] by (auto simp: nth_hswap heap_ordered_def heap_upto_def)
  have "heap_upto lt ?zs ?n"
    by (rule heap_down_ordered) (use k in \<open>auto simp: heap_but_down_def\<close>)
  moreover have "?zs \<noteq> []" using ne by (metis length_0_conv length_heap_down length_hswap)
  then have "ys = take ?n ?zs" using pop ne by (auto simp: heap_pop_def hpop_def Let_def)
  moreover have "parent k < ?n" if "k < ?n" for k using that parent_le [of k] by simp
  ultimately show ?thesis by (auto simp: heap_ordered_def heap_upto_def)
qed

lemma root_minimal: "heap_ordered lt xs \<Longrightarrow> k < length xs \<Longrightarrow> \<not> lt (xs ! k) (xs ! 0)"
proof (induction k rule: less_induct)
  case (less k)
  show ?case
  proof (cases "k = 0")
    case False
    then have p: "parent k < k" by (simp add: parent_less)
    have "\<not> lt (xs ! k) (xs ! parent k)"
      using less.prems False by (simp add: heap_ordered_def heap_upto_def)
    moreover have "\<not> lt (xs ! parent k) (xs ! 0)"
      using less.IH [OF p less.prems(1)] less.prems(2) p by simp
    ultimately show ?thesis by (rule ntrans)
  qed (simp add: irrefl)
qed

lemma heap_pop_minimal:
  assumes "heap_ordered lt xs" and "heap_pop lt xs = Some (x, ys)" and "y \<in> set xs"
  shows "\<not> lt y x"
  using assms root_minimal heap_pop_Some(1) [OF assms(2)] by (metis in_set_conv_nth)

end

end
