(* ===== verification/GoSearch.thy ===== *)
theory GoSearch
  imports GoPrelude
begin

text \<open>
  \<open>sort.Search\<close>, the binary search of Go's standard library that
  \<open>Queue.insertScheduled\<close> (\<open>system-design/job-queue/queue.go\<close>) calls, and ordered insertion
  at the index it returns.  For a predicate that is monotone on the range the loop returns the
  least index where it holds; the last lemmas say that inserting there keeps a list sorted.
\<close>

function search_loop :: "(nat \<Rightarrow> bool) \<Rightarrow> nat \<Rightarrow> nat \<Rightarrow> nat" where
  "search_loop f i j =
     (if i < j then
        let h = (i + j) div 2 in
        if \<not> f h then search_loop f (h + 1) j else search_loop f i h
      else i)"
  by pat_completeness auto
termination
  by (relation "measure (\<lambda>(f, i, j). j - i)") (auto simp: Let_def)

declare search_loop.simps [simp del]

definition sort_Search :: "nat \<Rightarrow> (nat \<Rightarrow> bool) \<Rightarrow> nat" where
  "sort_Search n f = search_loop f 0 n"

text \<open>\<open>upward f n\<close>: once the predicate holds it holds up to \<open>n\<close>.\<close>

definition upward :: "(nat \<Rightarrow> bool) \<Rightarrow> nat \<Rightarrow> bool" where
  "upward f n \<longleftrightarrow> (\<forall>a b. a \<le> b \<and> b < n \<and> f a \<longrightarrow> f b)"

lemma upwardD: "upward f n \<Longrightarrow> a \<le> b \<Longrightarrow> b < n \<Longrightarrow> f a \<Longrightarrow> f b"
  unfolding upward_def by blast

definition is_boundary :: "(nat \<Rightarrow> bool) \<Rightarrow> nat \<Rightarrow> nat \<Rightarrow> bool" where
  "is_boundary f n r \<longleftrightarrow> r \<le> n \<and> (\<forall>k<r. \<not> f k) \<and> (\<forall>k. r \<le> k \<and> k < n \<longrightarrow> f k)"

lemma search_loop_spec:
  assumes "upward f n" and "i \<le> j" and "j \<le> n" and "\<forall>k<i. \<not> f k"
    and "\<forall>k. j \<le> k \<and> k < n \<longrightarrow> f k"
  shows "is_boundary f n (search_loop f i j)"
  using assms
proof (induction f i j rule: search_loop.induct)
  case (1 f i j)
  show ?case
  proof (cases "i < j")
    case True
    let ?h = "(i + j) div 2"
    have h: "i \<le> ?h" "?h < j" using True by auto
    show ?thesis
    proof (cases "f ?h")
      case fh: True
      have "\<forall>k. ?h \<le> k \<and> k < n \<longrightarrow> f k"
        using "1.prems"(1) fh upwardD by blast
      with "1.IH"(2) [OF True refl] fh "1.prems" h
      have "is_boundary f n (search_loop f i ?h)" by simp
      then show ?thesis
        using True fh by (subst search_loop.simps) (simp add: Let_def)
    next
      case fh: False
      have "\<forall>k<?h + 1. \<not> f k"
      proof (intro allI impI notI)
        fix k assume "k < ?h + 1" and "f k"
        then have "f ?h" using upwardD [OF "1.prems"(1), of k ?h] h "1.prems"(3) by simp
        with fh show False ..
      qed
      with "1.IH"(1) [OF True refl fh] "1.prems" h
      have "is_boundary f n (search_loop f (?h + 1) j)" by simp
      then show ?thesis
        using True fh by (subst search_loop.simps) (simp add: Let_def)
    qed
  next
    case False
    then have "search_loop f i j = i" by (subst search_loop.simps) simp
    moreover have "i = j" using False "1.prems"(2) by simp
    ultimately show ?thesis using "1.prems" by (simp add: is_boundary_def)
  qed
qed

lemma sort_Search_spec: "upward f n \<Longrightarrow> is_boundary f n (sort_Search n f)"
  unfolding sort_Search_def by (rule search_loop_spec) auto

definition insert_at :: "nat \<Rightarrow> 'a \<Rightarrow> 'a list \<Rightarrow> 'a list" where
  "insert_at i x xs = take i xs @ x # drop i xs"

lemma set_insert_at [simp]: "set (insert_at i x xs) = insert x (set xs)"
  by (metis append_take_drop_id insert_at_def list.simps(15) set_append Un_insert_right)

lemma mset_insert_at [simp]: "mset (insert_at i x xs) = add_mset x (mset xs)"
  by (metis append_take_drop_id insert_at_def mset.simps(2) mset_append union_mset_add_mset_right)

text \<open>Searching the first key not below the new one: the insertion keeps the list sorted.\<close>

lemma insert_at_search_sorted:
  fixes key :: "'a \<Rightarrow> 'k :: linorder" and x :: 'a
  assumes s: "sorted (map key xs)"
  defines "i \<equiv> sort_Search (length xs) (\<lambda>k. \<not> key (xs ! k) < key x)"
  shows "sorted (map key (insert_at i x xs))"
    and "\<forall>y \<in> set (take i xs). key y < key x" and "\<forall>y \<in> set (drop i xs). key x \<le> key y"
proof -
  have "upward (\<lambda>k. \<not> key (xs ! k) < key x) (length xs)"
    using sorted_nth_mono [OF s] by (force simp: upward_def)
  then have S: "is_boundary (\<lambda>k. \<not> key (xs ! k) < key x) (length xs) i"
    unfolding i_def by (rule sort_Search_spec)
  show lo: "\<forall>y \<in> set (take i xs). key y < key x"
    using S by (auto simp: in_set_conv_nth is_boundary_def)
  show hi: "\<forall>y \<in> set (drop i xs). key x \<le> key y"
  proof
    fix y assume "y \<in> set (drop i xs)"
    then obtain k where "k < length xs - i" and "y = xs ! (i + k)"
      by (auto simp: in_set_conv_nth)
    then show "key x \<le> key y" using S by (auto simp: is_boundary_def not_less)
  qed
  have "sorted (map key (take i xs @ drop i xs))" using s by simp
  then show "sorted (map key (insert_at i x xs))"
    using lo hi unfolding insert_at_def map_append sorted_append by (fastforce intro: less_imp_le)
qed

end
