(* ===== verification/JobQueue.thy ===== *)
theory JobQueue
  imports JobHeap GoSearch
begin

text \<open>
  The broker of \<open>system-design/job-queue/queue.go\<close> and its thin front end \<open>scheduler.go\<close>.

  Jobs are shared by pointer: the caller, the heap, the scheduled list, the \<open>all\<close> map, the
  dead-letter queue and the workers all hold a \<open>*Job\<close>.  The model keeps that aliasing: \<open>q_jobs\<close>
  is a store from addresses to jobs, and every collection holds addresses.  A method is a
  function from the queue to the queue (the critical section under \<open>q.mu\<close>), with one time
  argument per call of \<open>time.Now()\<close>, in the order of the calls.  The one-slot channels
  \<open>notify\<close> and \<open>reschedule\<close> are booleans (a signal is buffered or not).
\<close>

section \<open>Data\<close>

type_synonym addr = nat

datatype status = StatusPending | StatusProcessing | StatusCompleted | StatusFailed | StatusDead

fun status_code :: "status \<Rightarrow> int" where
  "status_code StatusPending = 0"
| "status_code StatusProcessing = 1"
| "status_code StatusCompleted = 2"
| "status_code StatusFailed = 3"
| "status_code StatusDead = 4"

text \<open>\<open>Status.String\<close> on the underlying \<open>int\<close>, the default branch included.\<close>

definition Status_String :: "int \<Rightarrow> string" where
  "Status_String s =
     (if s = status_code StatusPending then ''pending''
      else if s = status_code StatusProcessing then ''processing''
      else if s = status_code StatusCompleted then ''completed''
      else if s = status_code StatusFailed then ''failed''
      else if s = status_code StatusDead then ''dead''
      else ''unknown'')"

record 'p job =
  j_ID :: string
  j_Type :: string
  j_Payload :: 'p
  j_Priority :: int
  j_Status :: status
  j_Attempt :: int
  j_MaxAttempts :: int
  j_RunAt :: time
  j_EnqueuedAt :: time
  j_LastError :: string

definition job_ready :: "time \<Rightarrow> 'p job \<Rightarrow> bool" where
  "job_ready now j \<longleftrightarrow> \<not> now < j_RunAt j"

text \<open>\<open>jobHeap.Less\<close> on the jobs the two slots point to.\<close>

definition job_less :: "(addr \<Rightarrow> 'p job) \<Rightarrow> addr \<Rightarrow> addr \<Rightarrow> bool" where
  "job_less st a b =
     (if j_Priority (st a) \<noteq> j_Priority (st b) then j_Priority (st a) > j_Priority (st b)
      else j_RunAt (st a) < j_RunAt (st b))"

record 'p queue =
  q_jobs :: "addr \<Rightarrow> 'p job"
  q_pending :: "addr list"
  q_scheduled :: "addr list"
  q_all :: "string \<rightharpoonup> addr"
  q_dlq :: "addr list"
  q_notify :: bool
  q_reschedule :: bool
  q_closeCh :: bool
  q_closed :: bool

datatype queue_error = ErrEmptyID | ErrEmptyType | ErrQueueClosed | ErrDuplicateJob

section \<open>Operations\<close>

definition NewQueue :: "(addr \<Rightarrow> 'p job) \<Rightarrow> 'p queue" where
  "NewQueue st =
     \<lparr>q_jobs = st, q_pending = [], q_scheduled = [], q_all = Map.empty, q_dlq = [],
      q_notify = False, q_reschedule = False, q_closeCh = False, q_closed = False\<rparr>"

text \<open>A write through a \<open>*Job\<close>.\<close>

definition upd_job :: "addr \<Rightarrow> ('p job \<Rightarrow> 'p job) \<Rightarrow> 'p queue \<Rightarrow> 'p queue" where
  "upd_job a f q = q\<lparr>q_jobs := (q_jobs q)(a := f (q_jobs q a))\<rparr>"

text \<open>\<open>ping\<close>: a non-blocking send; a full buffer drops the signal.\<close>

definition ping_notify :: "'p queue \<Rightarrow> 'p queue" where
  "ping_notify q = (if \<not> q_notify q then q\<lparr>q_notify := True\<rparr> else q)"

definition ping_reschedule :: "'p queue \<Rightarrow> 'p queue" where
  "ping_reschedule q = (if \<not> q_reschedule q then q\<lparr>q_reschedule := True\<rparr> else q)"

definition push_pending :: "addr \<Rightarrow> 'p queue \<Rightarrow> 'p queue" where
  "push_pending a q = q\<lparr>q_pending := heap_push (job_less (q_jobs q)) (q_pending q) a\<rparr>"

definition insertScheduled :: "addr \<Rightarrow> 'p queue \<Rightarrow> 'p queue" where
  "insertScheduled a q =
     (let idx = sort_Search (length (q_scheduled q))
          (\<lambda>i. \<not> j_RunAt (q_jobs q (q_scheduled q ! i)) < j_RunAt (q_jobs q a))
      in q\<lparr>q_scheduled := insert_at idx a (q_scheduled q)\<rparr>)"

text \<open>The tail \<open>Enqueue\<close> and \<open>requeue\<close> share: ready jobs to the heap, future ones to the list.\<close>

definition place_job :: "addr \<Rightarrow> time \<Rightarrow> 'p queue \<Rightarrow> 'p queue" where
  "place_job a now q =
     (if job_ready now (q_jobs q a) then ping_notify (push_pending a q)
      else ping_reschedule (insertScheduled a q))"

definition Enqueue :: "addr \<Rightarrow> time \<Rightarrow> time \<Rightarrow> 'p queue \<Rightarrow> queue_error option \<times> 'p queue" where
  "Enqueue a t1 t2 q =
     (if j_ID (q_jobs q a) = '''' then (Some ErrEmptyID, q)
      else if j_Type (q_jobs q a) = '''' then (Some ErrEmptyType, q)
      else let q = (if j_MaxAttempts (q_jobs q a) \<le> 0
                    then upd_job a (\<lambda>j. j\<lparr>j_MaxAttempts := 1\<rparr>) q else q) in
        if q_closed q then (Some ErrQueueClosed, q)
        else if q_all q (j_ID (q_jobs q a)) \<noteq> None then (Some ErrDuplicateJob, q)
        else
          let q = upd_job a (\<lambda>j. j\<lparr>j_EnqueuedAt := t1\<rparr>) q;
              q = (if j_RunAt (q_jobs q a) = zero_time
                   then upd_job a (\<lambda>j. j\<lparr>j_RunAt := j_EnqueuedAt j\<rparr>) q else q);
              q = upd_job a (\<lambda>j. j\<lparr>j_Status := StatusPending\<rparr>) q;
              q = q\<lparr>q_all := (q_all q)(j_ID (q_jobs q a) \<mapsto> a)\<rparr>
          in (None, place_job a t2 q))"

definition popPending :: "'p queue \<Rightarrow> addr option \<times> 'p queue" where
  "popPending q =
     (if length (q_pending q) = 0 then (None, q)
      else case heap_pop (job_less (q_jobs q)) (q_pending q) of
        None \<Rightarrow> (None, q)
      | Some (a, p) \<Rightarrow> (Some a, q\<lparr>q_pending := p\<rparr>))"

text \<open>
  One turn of \<open>dequeue\<close>'s loop up to the \<open>select\<close>: a job, the closed error, or parking.
\<close>

datatype dequeue_result = Got addr | DequeueClosed | Park

definition dequeue_turn :: "'p queue \<Rightarrow> dequeue_result \<times> 'p queue" where
  "dequeue_turn q =
     (case popPending q of
        (Some a, q') \<Rightarrow> (Got a, upd_job a (\<lambda>j. j\<lparr>j_Status := StatusProcessing\<rparr>) q')
      | (None, q') \<Rightarrow> (if q_closed q' then (DequeueClosed, q') else (Park, q')))"

definition requeue :: "addr \<Rightarrow> duration \<Rightarrow> time \<Rightarrow> time \<Rightarrow> 'p queue \<Rightarrow> 'p queue" where
  "requeue a delay t1 t2 q =
     (let q = upd_job a (\<lambda>j. j\<lparr>j_Status := StatusFailed\<rparr>) q;
          q = upd_job a (\<lambda>j. j\<lparr>j_RunAt := time_add t1 delay\<rparr>) q
      in place_job a t2 q)"

definition dead :: "addr \<Rightarrow> 'p queue \<Rightarrow> 'p queue" where
  "dead a q =
     (let q = upd_job a (\<lambda>j. j\<lparr>j_Status := StatusDead\<rparr>) q in q\<lparr>q_dlq := q_dlq q @ [a]\<rparr>)"

definition complete :: "addr \<Rightarrow> 'p queue \<Rightarrow> 'p queue" where
  "complete a q = upd_job a (\<lambda>j. j\<lparr>j_Status := StatusCompleted\<rparr>) q"

definition DLQ :: "'p queue \<Rightarrow> addr list" where
  "DLQ q = q_dlq q"

text \<open>
  \<open>Snapshot\<close> ranges over the map \<open>all\<close> in an unspecified order; \<open>ids\<close> is that order (the
  keys of the map).
\<close>

definition Snapshot :: "string list \<Rightarrow> 'p queue \<Rightarrow> status \<Rightarrow> addr list" where
  "Snapshot ids q s =
     filter (\<lambda>a. j_Status (q_jobs q a) = s) (List.map_filter (q_all q) ids)"

definition Close :: "'p queue \<Rightarrow> 'p queue" where
  "Close q = (if \<not> q_closed q then q\<lparr>q_closed := True, q_closeCh := True\<rparr> else q)"

fun promote_loop :: "time \<Rightarrow> addr list \<Rightarrow> 'p queue \<Rightarrow> nat \<times> 'p queue" where
  "promote_loop now [] q = (0, q)"
| "promote_loop now (a # rest) q =
     (if \<not> j_RunAt (q_jobs q a) > now then
        (let (n, q') = promote_loop now rest (push_pending a (q\<lparr>q_scheduled := rest\<rparr>))
         in (Suc n, q'))
      else (0, q))"

definition promoteReady :: "time \<Rightarrow> 'p queue \<Rightarrow> 'p queue" where
  "promoteReady now q =
     (let (promoted, q') = promote_loop now (q_scheduled q) q
      in if promoted > 0 then ping_notify q' else q')"

text \<open>\<open>runScheduler\<close>: how long the scheduler goroutine parks, from the head of the list.\<close>

definition maxPark :: duration where
  "maxPark = 24 * 3600 * second"

definition scheduler_delay :: "time \<Rightarrow> 'p queue \<Rightarrow> duration" where
  "scheduler_delay now q =
     (if length (q_scheduled q) > 0 then
        (let d = time_sub (j_RunAt (q_jobs q (q_scheduled q ! 0))) now in if d < 0 then 0 else d)
      else maxPark)"

text \<open>\<open>Scheduler.Schedule\<close> and \<open>Scheduler.ScheduleAt\<close> (\<open>scheduler.go\<close>).\<close>

definition Schedule :: "addr \<Rightarrow> duration \<Rightarrow> time \<Rightarrow> time \<Rightarrow> time \<Rightarrow> 'p queue \<Rightarrow> queue_error option \<times> 'p queue" where
  "Schedule a delay t0 t1 t2 q =
     Enqueue a t1 t2 (upd_job a (\<lambda>j. j\<lparr>j_RunAt := time_add t0 delay\<rparr>) q)"

definition ScheduleAt :: "addr \<Rightarrow> time \<Rightarrow> time \<Rightarrow> time \<Rightarrow> 'p queue \<Rightarrow> queue_error option \<times> 'p queue" where
  "ScheduleAt a at t1 t2 q = Enqueue a t1 t2 (upd_job a (\<lambda>j. j\<lparr>j_RunAt := at\<rparr>) q)"

section \<open>Less is a strict weak order\<close>

interpretation job_heap: heap_interface "job_less st" for st
  by unfold_locales (auto simp: job_less_def split: if_splits)

section \<open>The invariant\<close>

text \<open>
  A job the queue knows (its ID maps to its address) is in one place, and its status says which:
  pending or failed in the heap or the scheduled list, processing with a worker (\<open>fl\<close> lists
  the jobs in flight), dead in the dead-letter queue, completed nowhere.  \<open>inv_but X\<close> is the
  invariant while the jobs of \<open>X\<close> are between two places; \<open>queue_inv\<close> is \<open>X = {}\<close>.
\<close>

definition known :: "'p queue \<Rightarrow> addr \<Rightarrow> bool" where
  "known q a \<longleftrightarrow> q_all q (j_ID (q_jobs q a)) = Some a"

definition is_waiting :: "status \<Rightarrow> bool" where
  "is_waiting s \<longleftrightarrow> s = StatusPending \<or> s = StatusFailed"

definition places :: "'p queue \<Rightarrow> addr list \<Rightarrow> addr list" where
  "places q fl = q_pending q @ q_scheduled q @ fl @ q_dlq q"

definition located :: "'p queue \<Rightarrow> addr list \<Rightarrow> addr \<Rightarrow> bool" where
  "located q fl a \<longleftrightarrow>
     (a \<in> set (q_pending q) \<or> a \<in> set (q_scheduled q) \<longleftrightarrow> is_waiting (j_Status (q_jobs q a))) \<and>
     (a \<in> set fl \<longleftrightarrow> j_Status (q_jobs q a) = StatusProcessing) \<and>
     (a \<in> set (q_dlq q) \<longleftrightarrow> j_Status (q_jobs q a) = StatusDead)"

definition ordered :: "'p queue \<Rightarrow> bool" where
  "ordered q \<longleftrightarrow>
     heap_ordered (job_less (q_jobs q)) (q_pending q) \<and>
     sorted (map (\<lambda>a. j_RunAt (q_jobs q a)) (q_scheduled q))"

definition inv_but :: "addr set \<Rightarrow> 'p queue \<Rightarrow> addr list \<Rightarrow> bool" where
  "inv_but X q fl \<longleftrightarrow>
     ordered q \<and>
     (\<forall>i a. q_all q i = Some a \<longrightarrow> j_ID (q_jobs q a) = i) \<and>
     distinct (places q fl) \<and>
     (\<forall>a \<in> set (places q fl). known q a \<and> a \<notin> X) \<and>
     (\<forall>a. known q a \<longrightarrow> 1 \<le> j_MaxAttempts (q_jobs q a) \<and> (a \<notin> X \<longrightarrow> located q fl a)) \<and>
     (\<forall>a \<in> X. known q a) \<and>
     q_closed q = q_closeCh q"

definition queue_inv :: "'p queue \<Rightarrow> addr list \<Rightarrow> bool" where
  "queue_inv q fl \<longleftrightarrow> inv_but {} q fl"

text \<open>No job is in the heap before its time.\<close>

definition pending_due :: "time \<Rightarrow> 'p queue \<Rightarrow> bool" where
  "pending_due now q \<longleftrightarrow> (\<forall>a \<in> set (q_pending q). j_RunAt (q_jobs q a) \<le> now)"

section \<open>Frame lemmas\<close>

lemma upd_job_fields [simp]:
  "q_jobs (upd_job a f q) = (q_jobs q)(a := f (q_jobs q a))"
  "q_pending (upd_job a f q) = q_pending q" "q_scheduled (upd_job a f q) = q_scheduled q"
  "q_all (upd_job a f q) = q_all q" "q_dlq (upd_job a f q) = q_dlq q"
  "q_closed (upd_job a f q) = q_closed q" "q_closeCh (upd_job a f q) = q_closeCh q"
  "q_notify (upd_job a f q) = q_notify q" "q_reschedule (upd_job a f q) = q_reschedule q"
  by (simp_all add: upd_job_def)

lemma ping_fields [simp]:
  "q_jobs (ping_notify q) = q_jobs q" "q_jobs (ping_reschedule q) = q_jobs q"
  "q_pending (ping_notify q) = q_pending q" "q_pending (ping_reschedule q) = q_pending q"
  "q_scheduled (ping_notify q) = q_scheduled q" "q_scheduled (ping_reschedule q) = q_scheduled q"
  "q_all (ping_notify q) = q_all q" "q_all (ping_reschedule q) = q_all q"
  "q_dlq (ping_notify q) = q_dlq q" "q_dlq (ping_reschedule q) = q_dlq q"
  "q_closed (ping_notify q) = q_closed q" "q_closed (ping_reschedule q) = q_closed q"
  "q_closeCh (ping_notify q) = q_closeCh q" "q_closeCh (ping_reschedule q) = q_closeCh q"
  "q_notify (ping_notify q)" "q_reschedule (ping_reschedule q)"
  "q_notify (ping_reschedule q) = q_notify q" "q_reschedule (ping_notify q) = q_reschedule q"
  by (simp_all add: ping_notify_def ping_reschedule_def)

lemma push_fields [simp]:
  "q_jobs (push_pending a q) = q_jobs q" "q_scheduled (push_pending a q) = q_scheduled q"
  "q_all (push_pending a q) = q_all q" "q_dlq (push_pending a q) = q_dlq q"
  "q_closed (push_pending a q) = q_closed q" "q_closeCh (push_pending a q) = q_closeCh q"
  "q_notify (push_pending a q) = q_notify q" "q_reschedule (push_pending a q) = q_reschedule q"
  "mset (q_pending (push_pending a q)) = add_mset a (mset (q_pending q))"
  by (simp_all add: push_pending_def mset_heap_push)

lemma set_push_pending [simp]: "set (q_pending (push_pending a q)) = insert a (set (q_pending q))"
  by (metis push_fields(9) set_mset_add_mset_insert set_mset_mset)

lemma insertScheduled_fields [simp]:
  "q_jobs (insertScheduled a q) = q_jobs q" "q_pending (insertScheduled a q) = q_pending q"
  "q_all (insertScheduled a q) = q_all q" "q_dlq (insertScheduled a q) = q_dlq q"
  "q_closed (insertScheduled a q) = q_closed q" "q_closeCh (insertScheduled a q) = q_closeCh q"
  "q_notify (insertScheduled a q) = q_notify q"
  "q_reschedule (insertScheduled a q) = q_reschedule q"
  "mset (q_scheduled (insertScheduled a q)) = add_mset a (mset (q_scheduled q))"
  "set (q_scheduled (insertScheduled a q)) = insert a (set (q_scheduled q))"
  by (simp_all add: insertScheduled_def Let_def)

lemma ordered_push: "ordered q \<Longrightarrow> ordered (push_pending a q)"
  by (simp add: ordered_def push_pending_def job_heap.heap_push_ordered)

lemma ordered_insertScheduled: "ordered q \<Longrightarrow> ordered (insertScheduled a q)"
  using insert_at_search_sorted(1)
    [of "\<lambda>b. j_RunAt (q_jobs q b)" "q_scheduled q" a]
  by (simp add: ordered_def insertScheduled_def Let_def)

lemma ordered_ping [simp]:
  "ordered (ping_notify q) = ordered q" "ordered (ping_reschedule q) = ordered q"
  by (simp_all add: ordered_def)

lemma ordered_upd_job:
  assumes "a \<notin> set (q_pending q)" and "a \<notin> set (q_scheduled q)"
  shows "ordered (upd_job a f q) = ordered q"
proof -
  have "heap_ordered (job_less ((q_jobs q)(a := f (q_jobs q a)))) (q_pending q) =
        heap_ordered (job_less (q_jobs q)) (q_pending q)"
    using assms(1) by (intro heap_ordered_cong) (auto simp: job_less_def)
  moreover have "map (\<lambda>b. j_RunAt (((q_jobs q)(a := f (q_jobs q a))) b)) (q_scheduled q) =
        map (\<lambda>b. j_RunAt (q_jobs q b)) (q_scheduled q)"
    using assms(2) by (intro map_cong) auto
  ultimately show ?thesis unfolding ordered_def upd_job_fields by (simp only:)
qed

lemma places_simps [simp]:
  "places (upd_job a f q) fl = places q fl" "places (ping_notify q) fl = places q fl"
  "places (ping_reschedule q) fl = places q fl"
  by (simp_all add: places_def)

lemma distinct_cong_mset: "mset xs = mset ys \<Longrightarrow> distinct xs = distinct ys"
  by (metis mset_eq_imp_distinct_iff)

text \<open>The order part and the placement part of the invariant, for the step lemmas below.\<close>

lemma inv_butI:
  assumes "ordered q'" and "\<And>i a. q_all q' i = Some a \<Longrightarrow> j_ID (q_jobs q' a) = i"
    and "distinct (places q' fl')" and "\<And>a. a \<in> set (places q' fl') \<Longrightarrow> known q' a \<and> a \<notin> X"
    and "\<And>a. known q' a \<Longrightarrow> 1 \<le> j_MaxAttempts (q_jobs q' a)"
    and "\<And>a. known q' a \<Longrightarrow> a \<notin> X \<Longrightarrow> located q' fl' a"
    and "\<And>a. a \<in> X \<Longrightarrow> known q' a" and "q_closed q' = q_closeCh q'"
  shows "inv_but X q' fl'"
  using assms by (auto simp: inv_but_def)

lemma inv_butD:
  assumes "inv_but X q fl"
  shows "ordered q" and "q_all q i = Some a \<Longrightarrow> j_ID (q_jobs q a) = i"
    and "distinct (places q fl)" and "b \<in> set (places q fl) \<Longrightarrow> known q b"
    and "b \<in> set (places q fl) \<Longrightarrow> b \<notin> X"
    and "known q b \<Longrightarrow> 1 \<le> j_MaxAttempts (q_jobs q b)"
    and "known q b \<Longrightarrow> b \<notin> X \<Longrightarrow> located q fl b"
    and "b \<in> X \<Longrightarrow> known q b" and "q_closed q = q_closeCh q"
  using assms by (auto simp: inv_but_def)

lemma inv_but_cong:
  assumes "q_jobs q' = q_jobs q" "q_all q' = q_all q" "q_pending q' = q_pending q"
    "q_scheduled q' = q_scheduled q" "q_dlq q' = q_dlq q"
    "(q_closed q' = q_closeCh q') = (q_closed q = q_closeCh q)"
  shows "inv_but X q' fl = inv_but X q fl"
  unfolding inv_but_def ordered_def places_def known_def located_def assms ..

lemma known_cong: "q_all q' = q_all q \<Longrightarrow> j_ID (q_jobs q' a) = j_ID (q_jobs q a) \<Longrightarrow> known q' a = known q a"
  by (simp add: known_def)

lemma known_inj: "inv_but X q fl \<Longrightarrow> q_all q i = Some a \<Longrightarrow> known q a"
  using inv_butD(2) by (fastforce simp: known_def)

section \<open>Each operation keeps the invariant\<close>

lemma NewQueue_inv: "queue_inv (NewQueue st) []"
  by (simp add: queue_inv_def inv_but_def NewQueue_def ordered_def places_def known_def)

text \<open>A write to a job that is between two places.\<close>

lemma upd_job_inv:
  assumes inv: "inv_but X q fl" and a: "a \<in> X" and id: "j_ID (f (q_jobs q a)) = j_ID (q_jobs q a)"
    and m: "1 \<le> j_MaxAttempts (f (q_jobs q a))"
  shows "inv_but X (upd_job a f q) fl"
proof (rule inv_butI)
  have pl: "places (upd_job a f q) fl = places q fl" by (simp add: places_def)
  have kn: "known (upd_job a f q) b = known q b" for b
    using id by (simp add: known_def)
  have na: "a \<notin> set (places q fl)" using inv_butD(5) [OF inv] a by blast
  then show "ordered (upd_job a f q)"
    using inv_butD(1) [OF inv] ordered_upd_job [of a q f] by (simp add: places_def)
  show "j_ID (q_jobs (upd_job a f q) b) = i" if "q_all (upd_job a f q) i = Some b" for i b
    using inv_butD(2) [OF inv, of i b] that id by auto
  show "distinct (places (upd_job a f q) fl)" using inv_butD(3) [OF inv] pl by simp
  show "known (upd_job a f q) b \<and> b \<notin> X" if "b \<in> set (places (upd_job a f q) fl)" for b
    using inv_butD(4,5) [OF inv] that pl kn by simp
  show "1 \<le> j_MaxAttempts (q_jobs (upd_job a f q) b)" if "known (upd_job a f q) b" for b
    using inv_butD(6) [OF inv] that kn m by simp
  show "located (upd_job a f q) fl b" if "known (upd_job a f q) b" "b \<notin> X" for b
    using inv_butD(7) [OF inv] that kn a by (auto simp: located_def)
qed (use inv_butD(8,9) [OF inv] id in \<open>auto simp: known_def\<close>)

text \<open>A job between two places goes to the heap or to the scheduled list.\<close>

lemma put_inv:
  assumes inv: "inv_but (insert a X) q fl" and X: "a \<notin> X"
    and w: "is_waiting (j_Status (q_jobs q a))"
    and same: "q_jobs q' = q_jobs q" "q_all q' = q_all q" "q_dlq q' = q_dlq q"
      "q_closed q' = q_closed q" "q_closeCh q' = q_closeCh q"
    and ord: "ordered q'"
    and ms: "mset (q_pending q') + mset (q_scheduled q') =
             add_mset a (mset (q_pending q) + mset (q_scheduled q))"
  shows "inv_but X q' fl"
proof (rule inv_butI)
  have kn: "known q' b = known q b" for b using same by (simp add: known_def)
  have mp: "mset (places q' fl) = mset (a # places q fl)"
    using ms same(3) by (simp add: places_def flip: add.assoc)
  then have sp: "set (places q' fl) = insert a (set (places q fl))"
    by (metis list.simps(15) set_mset_mset)
  have na: "a \<notin> set (places q fl)" using inv_butD(5) [OF inv] by blast
  have sw: "set (q_pending q') \<union> set (q_scheduled q') = insert a (set (q_pending q) \<union> set (q_scheduled q))"
    by (metis ms set_mset_add_mset_insert set_mset_mset set_mset_union)
  show "ordered q'" by (rule ord)
  show "j_ID (q_jobs q' b) = i" if "q_all q' i = Some b" for i b
    using inv_butD(2) [OF inv] that same by simp
  show "distinct (places q' fl)"
    using distinct_cong_mset [OF mp] na inv_butD(3) [OF inv] by simp
  show "known q' b \<and> b \<notin> X" if "b \<in> set (places q' fl)" for b
    using that sp kn X inv_butD(4,5,8) [OF inv, of b] by auto
  show "1 \<le> j_MaxAttempts (q_jobs q' b)" if "known q' b" for b
    using inv_butD(6) [OF inv] that kn same by simp
  show "located q' fl b" if b: "known q' b" "b \<notin> X" for b
  proof (cases "b = a")
    case True
    then show ?thesis
      using w na sw same(1,3) by (auto simp: located_def places_def is_waiting_def)
  next
    case False
    then have "located q fl b" using inv_butD(7) [OF inv] b kn by simp
    then show ?thesis using False sw same(1,3) by (auto simp: located_def)
  qed
qed (use inv_butD(8,9) [OF inv] same in \<open>auto simp: known_def\<close>)

lemma place_job_inv:
  assumes "inv_but (insert a X) q fl" and "a \<notin> X" and "is_waiting (j_Status (q_jobs q a))"
  shows "inv_but X (place_job a now q) fl"
  using assms inv_butD(1) [OF assms(1)]
  by (intro put_inv [OF assms])
    (auto simp: place_job_def ordered_push ordered_insertScheduled)

text \<open>A job leaves its place: it is in flight between two places.\<close>

lemma take_inv:
  assumes inv: "inv_but X q fl"
    and same: "q_jobs q' = q_jobs q" "q_all q' = q_all q" "q_closed q' = q_closed q"
      "q_closeCh q' = q_closeCh q"
    and ord: "ordered q'"
    and mp: "mset (places q fl) = add_mset a (mset (places q' fl'))"
    and sets: "\<And>b. b \<noteq> a \<Longrightarrow> (b \<in> set (q_pending q') \<or> b \<in> set (q_scheduled q')) =
        (b \<in> set (q_pending q) \<or> b \<in> set (q_scheduled q))"
      "\<And>b. b \<noteq> a \<Longrightarrow> (b \<in> set fl') = (b \<in> set fl)"
      "\<And>b. b \<noteq> a \<Longrightarrow> (b \<in> set (q_dlq q')) = (b \<in> set (q_dlq q))"
  shows "inv_but (insert a X) q' fl'"
proof (rule inv_butI)
  have kn: "known q' b = known q b" for b using same by (simp add: known_def)
  from mp have mp': "mset (places q fl) = mset (a # places q' fl')" by simp
  then have sp: "set (places q fl) = insert a (set (places q' fl'))"
    by (metis list.simps(15) set_mset_mset)
  have d: "distinct (a # places q' fl')"
    using distinct_cong_mset [OF mp'] inv_butD(3) [OF inv] by simp
  show "ordered q'" by (rule ord)
  show "j_ID (q_jobs q' b) = i" if "q_all q' i = Some b" for i b
    using inv_butD(2) [OF inv] that same by simp
  show "distinct (places q' fl')" using d by simp
  show "known q' b \<and> b \<notin> insert a X" if "b \<in> set (places q' fl')" for b
    using that sp d kn inv_butD(4,5) [OF inv, of b] by auto
  show "1 \<le> j_MaxAttempts (q_jobs q' b)" if "known q' b" for b
    using inv_butD(6) [OF inv] that kn same by simp
  show "located q' fl' b" if b: "known q' b" "b \<notin> insert a X" for b
    using inv_butD(7) [OF inv, of b] b kn same sets by (simp add: located_def)
  show "known q' b" if "b \<in> insert a X" for b
    using that inv_butD(4,8) [OF inv] sp kn by auto
qed (use inv_butD(9) [OF inv] same in simp)

text \<open>A write to a job the queue does not know, by its owner.\<close>

lemma upd_unknown_inv:
  assumes inv: "inv_but X q fl" and a: "\<not> known q a"
  shows "inv_but X (upd_job a f q) fl" and "\<not> known (upd_job a f q) a"
proof -
  have na: "q_all q i \<noteq> Some a" for i using a known_inj [OF inv] by blast
  show nk: "\<not> known (upd_job a f q) a" using na by (simp add: known_def)
  have kn: "known (upd_job a f q) b = known q b" for b
    using nk a by (cases "b = a") (auto simp: known_def)
  have pl: "places (upd_job a f q) fl = places q fl" by (simp add: places_def)
  have np: "a \<notin> set (places q fl)" using a inv_butD(4) [OF inv] by blast
  show "inv_but X (upd_job a f q) fl"
  proof (rule inv_butI)
    show "ordered (upd_job a f q)"
      using inv_butD(1) [OF inv] ordered_upd_job [of a q f] np by (simp add: places_def)
    show "j_ID (q_jobs (upd_job a f q) b) = i" if "q_all (upd_job a f q) i = Some b" for i b
      using inv_butD(2) [OF inv, of i b] that na [of i] by auto
    show "1 \<le> j_MaxAttempts (q_jobs (upd_job a f q) b)" if "known (upd_job a f q) b" for b
      using inv_butD(6) [OF inv, of b] that kn nk by (cases "b = a") auto
    show "located (upd_job a f q) fl b" if "known (upd_job a f q) b" "b \<notin> X" for b
      using inv_butD(7) [OF inv, of b] that kn nk by (cases "b = a") (auto simp: located_def)
  qed (use inv_butD [OF inv] kn pl in auto)
qed

text \<open>The job \<open>Enqueue\<close> stores, and the queue that knows it.\<close>

definition accepted_job :: "time \<Rightarrow> 'p job \<Rightarrow> 'p job" where
  "accepted_job t1 j =
     j\<lparr>j_MaxAttempts := (if j_MaxAttempts j \<le> 0 then 1 else j_MaxAttempts j),
       j_EnqueuedAt := t1,
       j_RunAt := (if j_RunAt j = zero_time then t1 else j_RunAt j),
       j_Status := StatusPending\<rparr>"

definition register :: "addr \<Rightarrow> 'p queue \<Rightarrow> 'p queue" where
  "register a q = q\<lparr>q_all := (q_all q)(j_ID (q_jobs q a) \<mapsto> a)\<rparr>"

lemma register_inv:
  assumes inv: "inv_but X q fl" and new: "q_all q (j_ID (q_jobs q a)) = None"
    and m: "1 \<le> j_MaxAttempts (q_jobs q a)"
  shows "inv_but (insert a X) (register a q) fl"
proof -
  let ?i = "j_ID (q_jobs q a)"
  have na: "\<not> known q a" using new by (simp add: known_def)
  have np: "a \<notin> set (places q fl)" using na inv_butD(4) [OF inv] by blast
  have pl: "places (register a q) fl = places q fl" by (simp add: places_def register_def)
  have fields: "q_jobs (register a q) = q_jobs q" "q_all (register a q) = (q_all q)(?i \<mapsto> a)"
    by (simp_all add: register_def)
  have kn: "known (register a q) b \<longleftrightarrow> b = a \<or> known q b" for b
    using new by (auto simp: known_def fields)
  have loc: "located (register a q) fl b = located q fl b" for b
    by (simp add: located_def register_def)
  show ?thesis
  proof (rule inv_butI)
    show "ordered (register a q)"
      using inv_butD(1) [OF inv] by (simp add: ordered_def register_def)
    show "j_ID (q_jobs (register a q) b) = i" if "q_all (register a q) i = Some b" for i b
      using inv_butD(2) [OF inv, of i b] that by (auto simp: fields split: if_splits)
    show "1 \<le> j_MaxAttempts (q_jobs (register a q) b)" if "known (register a q) b" for b
      using inv_butD(6) [OF inv, of b] m kn that by (auto simp: fields)
    show "q_closed (register a q) = q_closeCh (register a q)"
      using inv_butD(9) [OF inv] by (simp add: register_def)
  qed (use inv_butD [OF inv] kn pl np loc in auto)
qed

lemma upd_job_twice: "upd_job a f (upd_job a g q) = upd_job a (f \<circ> g) q"
  by (simp add: upd_job_def)

text \<open>\<open>Enqueue\<close> on every branch.\<close>

lemma Enqueue_accept:
  assumes "j_ID (q_jobs q a) \<noteq> ''''" and "j_Type (q_jobs q a) \<noteq> ''''" and "\<not> q_closed q"
    and "q_all q (j_ID (q_jobs q a)) = None"
  shows "Enqueue a t1 t2 q = (None, place_job a t2 (register a (upd_job a (accepted_job t1) q)))"
proof -
  have "Enqueue a t1 t2 q = (None, place_job a t2
      (let j = q_jobs q a;
           j = (if j_MaxAttempts j \<le> 0 then j\<lparr>j_MaxAttempts := 1\<rparr> else j)\<lparr>j_EnqueuedAt := t1\<rparr>;
           j = (if j_RunAt j = zero_time then j\<lparr>j_RunAt := j_EnqueuedAt j\<rparr> else j)\<lparr>j_Status := StatusPending\<rparr>
       in q\<lparr>q_jobs := (q_jobs q)(a := j), q_all := (q_all q)(j_ID j \<mapsto> a)\<rparr>))"
    using assms by (simp add: Enqueue_def Let_def upd_job_def)
  then show ?thesis
    using assms by (simp add: accepted_job_def register_def upd_job_def Let_def)
qed

lemma Enqueue_cases:
  "fst (Enqueue a t1 t2 q) =
    (if j_ID (q_jobs q a) = '''' then Some ErrEmptyID
     else if j_Type (q_jobs q a) = '''' then Some ErrEmptyType
     else if q_closed q then Some ErrQueueClosed
     else if q_all q (j_ID (q_jobs q a)) \<noteq> None then Some ErrDuplicateJob else None)"
  by (simp add: Enqueue_def Let_def)

lemma Enqueue_reject:
  assumes "fst (Enqueue a t1 t2 q) = Some e"
  shows "snd (Enqueue a t1 t2 q) =
    (if j_ID (q_jobs q a) \<noteq> '''' \<and> j_Type (q_jobs q a) \<noteq> '''' \<and> j_MaxAttempts (q_jobs q a) \<le> 0
     then upd_job a (\<lambda>j. j\<lparr>j_MaxAttempts := 1\<rparr>) q else q)"
  using assms by (auto simp: Enqueue_def Let_def split: if_splits)

lemma accepted_job_simps [simp]:
  "j_ID (accepted_job t j) = j_ID j" "j_Type (accepted_job t j) = j_Type j"
  "j_Status (accepted_job t j) = StatusPending" "j_Attempt (accepted_job t j) = j_Attempt j"
  "j_Priority (accepted_job t j) = j_Priority j" "j_EnqueuedAt (accepted_job t j) = t"
  "1 \<le> j_MaxAttempts (accepted_job t j)"
  by (simp_all add: accepted_job_def)

lemma register_fields [simp]:
  "q_jobs (register a q) = q_jobs q" "q_pending (register a q) = q_pending q"
  "q_scheduled (register a q) = q_scheduled q" "q_dlq (register a q) = q_dlq q"
  "q_closed (register a q) = q_closed q" "q_closeCh (register a q) = q_closeCh q"
  "q_notify (register a q) = q_notify q" "q_reschedule (register a q) = q_reschedule q"
  by (simp_all add: register_def)

lemma Enqueue_inv:
  assumes inv: "queue_inv q fl"
  shows "queue_inv (snd (Enqueue a t1 t2 q)) fl"
proof (cases "fst (Enqueue a t1 t2 q)")
  case None
  then have ok: "j_ID (q_jobs q a) \<noteq> ''''" "j_Type (q_jobs q a) \<noteq> ''''" "\<not> q_closed q"
    and new: "q_all q (j_ID (q_jobs q a)) = None"
    by (auto simp: Enqueue_cases split: if_splits)
  let ?q = "upd_job a (accepted_job t1) q"
  have "\<not> known q a" using new by (simp add: known_def)
  then have "inv_but {} ?q fl"
    using inv upd_unknown_inv(1) by (simp add: queue_inv_def)
  then have "inv_but {a} (register a ?q) fl"
    using new by (intro register_inv) auto
  then have "inv_but {} (place_job a t2 (register a ?q)) fl"
    by (rule place_job_inv) (simp_all add: is_waiting_def)
  then show ?thesis by (simp add: Enqueue_accept ok new queue_inv_def)
next
  case (Some e)
  show ?thesis
  proof (cases "known q a")
    case True
    then have "1 \<le> j_MaxAttempts (q_jobs q a)"
      using inv inv_butD(6) by (auto simp: queue_inv_def)
    then show ?thesis using inv by (simp add: Enqueue_reject [OF Some])
  next
    case False
    then show ?thesis
      using inv upd_unknown_inv(1) [OF _ False]
      by (auto simp: Enqueue_reject [OF Some] queue_inv_def)
  qed
qed

lemma popPending_None: "fst (popPending q) = None \<longleftrightarrow> q_pending q = []"
  by (auto simp: popPending_def heap_pop_None split: option.splits)

lemma popPending_Nil: "q_pending q = [] \<Longrightarrow> popPending q = (None, q)"
  by (simp add: popPending_def)

lemma popPending_Some:
  "popPending q = (Some a, q') \<longleftrightarrow>
     (\<exists>p. heap_pop (job_less (q_jobs q)) (q_pending q) = Some (a, p) \<and> q' = q\<lparr>q_pending := p\<rparr>)"
  by (auto simp: popPending_def heap_pop_def split: option.splits)

lemma dequeue_turn_cases:
  "dequeue_turn q = (Got a, q') \<longleftrightarrow>
     (\<exists>q0. popPending q = (Some a, q0) \<and> q' = upd_job a (\<lambda>j. j\<lparr>j_Status := StatusProcessing\<rparr>) q0)"
  "dequeue_turn q = (DequeueClosed, q') \<longleftrightarrow> q_pending q = [] \<and> q_closed q \<and> q' = q"
  "dequeue_turn q = (Park, q') \<longleftrightarrow> q_pending q = [] \<and> \<not> q_closed q \<and> q' = q"
  using popPending_None [of q] popPending_Nil [of q]
  by (auto simp: dequeue_turn_def split: prod.splits option.splits)

text \<open>A job between two places joins the jobs in flight.\<close>

lemma fly_inv:
  assumes inv: "inv_but (insert a X) q fl" and X: "a \<notin> X"
    and st: "j_Status (q_jobs q a) = StatusProcessing"
  shows "inv_but X q (a # fl)"
proof (rule inv_butI)
  have na: "a \<notin> set (places q fl)" using inv_butD(5) [OF inv] by blast
  have mp: "mset (places q (a # fl)) = mset (a # places q fl)" by (simp add: places_def)
  then have sp: "set (places q (a # fl)) = insert a (set (places q fl))"
    by (metis list.simps(15) set_mset_mset)
  show "distinct (places q (a # fl))"
    using distinct_cong_mset [OF mp] na inv_butD(3) [OF inv] by simp
  show "known q b \<and> b \<notin> X" if "b \<in> set (places q (a # fl))" for b
    using that sp X inv_butD(4,5,8) [OF inv, of b] by auto
  show "located q (a # fl) b" if b: "known q b" "b \<notin> X" for b
    using inv_butD(7) [OF inv, of b] b na st
    by (cases "b = a") (auto simp: located_def places_def is_waiting_def)
qed (use inv_butD [OF inv] in auto)

lemma dequeue_turn_inv:
  assumes inv: "queue_inv q fl" and got: "dequeue_turn q = (Got a, q')"
  shows "queue_inv q' (a # fl)"
proof -
  from got obtain p where pop: "heap_pop (job_less (q_jobs q)) (q_pending q) = Some (a, p)"
    and q': "q' = upd_job a (\<lambda>j. j\<lparr>j_Status := StatusProcessing\<rparr>) (q\<lparr>q_pending := p\<rparr>)"
    by (auto simp: dequeue_turn_cases popPending_Some)
  have inv0: "inv_but {} q fl" using inv by (simp add: queue_inv_def)
  have ms: "mset (q_pending q) = add_mset a (mset p)" by (rule heap_pop_Some(2) [OF pop])
  then have sp: "set (q_pending q) = insert a (set p)"
    by (metis set_mset_add_mset_insert set_mset_mset)
  have "ordered (q\<lparr>q_pending := p\<rparr>)"
    using inv_butD(1) [OF inv0] job_heap.heap_pop_ordered [OF _ pop] by (simp add: ordered_def)
  then have 1: "inv_but {a} (q\<lparr>q_pending := p\<rparr>) fl"
    by (intro take_inv [OF inv0]) (use ms sp in \<open>auto simp: places_def\<close>)
  then have "1 \<le> j_MaxAttempts (q_jobs q a)"
    using inv_butD(6,8) [OF 1, of a] by simp
  then have "inv_but {a} q' fl"
    using 1 unfolding q' by (intro upd_job_inv) auto
  then show ?thesis
    unfolding queue_inv_def by (rule fly_inv) (simp_all add: q')
qed

text \<open>The worker hands a job in flight back to the queue.\<close>

lemma land_inv:
  assumes inv: "queue_inv q fl" and a: "a \<in> set fl"
  shows "inv_but {a} q (remove1 a fl)"
proof -
  have inv0: "inv_but {} q fl" using inv by (simp add: queue_inv_def)
  have "distinct fl" using inv_butD(3) [OF inv0] by (simp add: places_def)
  then show ?thesis
    using a inv_butD(1) [OF inv0]
    by (intro take_inv [OF inv0]) (auto simp: places_def)
qed

lemma land_upd_inv:
  assumes "inv_but {a} q fl"
    and "j_ID (f (q_jobs q a)) = j_ID (q_jobs q a)" "j_MaxAttempts (f (q_jobs q a)) = j_MaxAttempts (q_jobs q a)"
  shows "inv_but {a} (upd_job a f q) fl"
  using assms inv_butD(6,8) [OF assms(1), of a] by (intro upd_job_inv) auto

lemma dead_inv:
  assumes inv: "inv_but {a} q fl"
  shows "queue_inv (dead a q) fl"
proof -
  let ?q = "upd_job a (\<lambda>j. j\<lparr>j_Status := StatusDead\<rparr>) q"
  have 1: "inv_but {a} ?q fl" using inv by (rule land_upd_inv) auto
  have na: "a \<notin> set (places q fl)" using inv_butD(5) [OF inv] by blast
  have pl: "places (dead a q) fl = places q fl @ [a]" by (simp add: dead_def places_def)
  have kn: "known (dead a q) b = known ?q b" for b by (simp add: dead_def known_def)
  have "inv_but {} (dead a q) fl"
  proof (rule inv_butI)
    show "ordered (dead a q)"
      using inv_butD(1) [OF 1] by (simp add: dead_def ordered_def)
    show "j_ID (q_jobs (dead a q) b) = i" if "q_all (dead a q) i = Some b" for i b
      using inv_butD(2) [OF 1, of i b] that by (simp add: dead_def)
    show "distinct (places (dead a q) fl)" using pl na inv_butD(3) [OF inv] by simp
    show "known (dead a q) b \<and> b \<notin> {}" if "b \<in> set (places (dead a q) fl)" for b
      using that pl kn inv_butD(4,8) [OF 1, of b] by auto
    show "1 \<le> j_MaxAttempts (q_jobs (dead a q) b)" if "known (dead a q) b" for b
      using inv_butD(6) [OF 1, of b] that kn by (simp add: dead_def)
    show "located (dead a q) fl b" if "known (dead a q) b" for b
    proof (cases "b = a")
      case True
      then show ?thesis using na by (auto simp: dead_def located_def places_def is_waiting_def)
    next
      case False
      then show ?thesis using inv_butD(7) [OF 1, of b] that kn by (auto simp: dead_def located_def)
    qed
    show "q_closed (dead a q) = q_closeCh (dead a q)"
      using inv_butD(9) [OF inv] by (simp add: dead_def)
  qed simp
  then show ?thesis by (simp add: queue_inv_def)
qed

lemma complete_inv:
  assumes inv: "inv_but {a} q fl"
  shows "queue_inv (complete a q) fl"
proof -
  have 1: "inv_but {a} (complete a q) fl"
    unfolding complete_def using inv by (rule land_upd_inv) auto
  have na: "a \<notin> set (places (complete a q) fl)" using inv_butD(5) [OF 1] by blast
  have "located (complete a q) fl a"
    using na by (auto simp: complete_def located_def places_def is_waiting_def)
  then have "located (complete a q) fl b" if "known (complete a q) b" for b
    using inv_butD(7) [OF 1, of b] that by (cases "b = a") auto
  then have "inv_but {} (complete a q) fl"
    using inv_butD [OF 1] by (intro inv_butI) auto
  then show ?thesis by (simp add: queue_inv_def)
qed

lemma requeue_inv:
  assumes inv: "inv_but {a} q fl"
  shows "queue_inv (requeue a delay t1 t2 q) fl"
proof -
  let ?q = "upd_job a (\<lambda>j. j\<lparr>j_RunAt := time_add t1 delay\<rparr>) (upd_job a (\<lambda>j. j\<lparr>j_Status := StatusFailed\<rparr>) q)"
  have "inv_but {a} ?q fl" using inv by (intro land_upd_inv) auto
  then have "inv_but {} (place_job a t2 ?q) fl"
    by (rule place_job_inv) (simp_all add: is_waiting_def)
  then show ?thesis by (simp add: requeue_def Let_def queue_inv_def)
qed

lemma Close_inv: "queue_inv q fl \<Longrightarrow> queue_inv (Close q) fl"
  unfolding queue_inv_def Close_def using inv_butD(9) [of "{}" q fl]
  by (subst inv_but_cong [where q = q]) auto

text \<open>The promotion loop: the due prefix moves, one heap push per job.\<close>

lemma promote_loop_inv:
  "inv_but X q fl \<Longrightarrow> q_scheduled q = xs \<Longrightarrow> inv_but X (snd (promote_loop now xs q)) fl"
proof (induction xs arbitrary: q)
  case (Cons a rest)
  let ?q = "push_pending a (q\<lparr>q_scheduled := rest\<rparr>)"
  show ?case
  proof (cases "j_RunAt (q_jobs q a) > now")
    case False
    have a: "a \<in> set (places q fl)" using Cons.prems(2) by (simp add: places_def)
    then have X: "a \<notin> X" and kn: "known q a" using inv_butD(4,5) [OF Cons.prems(1)] by auto
    then have w: "is_waiting (j_Status (q_jobs q a))"
      using inv_butD(7) [OF Cons.prems(1)] Cons.prems(2) by (auto simp: located_def)
    have d: "a \<notin> set rest" "a \<notin> set (q_pending q)"
      using inv_butD(3) [OF Cons.prems(1)] Cons.prems(2) by (auto simp: places_def)
    have ord: "ordered (q\<lparr>q_scheduled := rest\<rparr>)"
      using inv_butD(1) [OF Cons.prems(1)] Cons.prems(2) by (simp add: ordered_def)
    have "inv_but (insert a X) (q\<lparr>q_scheduled := rest\<rparr>) fl"
      using ord Cons.prems(2) by (intro take_inv [OF Cons.prems(1)]) (auto simp: places_def)
    from put_inv [OF this X] have "inv_but X ?q fl"
      using w ord by (simp add: ordered_push)
    then have "inv_but X (snd (promote_loop now rest ?q)) fl" by (rule Cons.IH) simp
    with False show ?thesis by (simp add: case_prod_beta)
  qed (simp add: Cons.prems)
qed simp

lemma inv_but_ping: "inv_but X q fl \<Longrightarrow> inv_but X (ping_notify q) fl"
  by (subst inv_but_cong [where q = q]) auto

lemma promoteReady_inv: "queue_inv q fl \<Longrightarrow> queue_inv (promoteReady now q) fl"
  using promote_loop_inv [of "{}" q fl "q_scheduled q" now]
  by (auto simp: promoteReady_def queue_inv_def case_prod_beta intro: inv_but_ping)

section \<open>What the operations compute\<close>

text \<open>The scheduled list is sorted, so the loop moves exactly the due jobs.\<close>

lemma promote_loop_spec:
  assumes "sorted (map (\<lambda>a. j_RunAt (q_jobs q a)) xs)" and "q_scheduled q = xs"
    and "promote_loop now xs q = (n, q')"
  shows "q_scheduled q' = filter (\<lambda>a. now < j_RunAt (q_jobs q a)) xs \<and>
    mset (q_pending q') = mset (q_pending q) + mset (filter (\<lambda>a. j_RunAt (q_jobs q a) \<le> now) xs) \<and>
    n = length (filter (\<lambda>a. j_RunAt (q_jobs q a) \<le> now) xs) \<and>
    q_jobs q' = q_jobs q \<and> q_all q' = q_all q \<and> q_dlq q' = q_dlq q \<and> q_closed q' = q_closed q \<and>
    q_closeCh q' = q_closeCh q \<and> q_notify q' = q_notify q \<and> q_reschedule q' = q_reschedule q"
  using assms
proof (induction xs arbitrary: q n)
  case (Cons a rest)
  let ?q = "push_pending a (q\<lparr>q_scheduled := rest\<rparr>)"
  show ?case
  proof (cases "now < j_RunAt (q_jobs q a)")
    case True
    have "\<forall>b \<in> set rest. now < j_RunAt (q_jobs q b)"
      using Cons.prems(1) True by force
    then have "filter (\<lambda>b. now < j_RunAt (q_jobs q b)) rest = rest"
      and "filter (\<lambda>b. j_RunAt (q_jobs q b) \<le> now) rest = []"
      by (auto simp: filter_empty_conv)
    with True Cons.prems show ?thesis by simp
  next
    case False
    then obtain m where m: "promote_loop now rest ?q = (m, q')" "n = Suc m"
      using Cons.prems(3) by (auto split: prod.splits)
    have "sorted (map (\<lambda>a. j_RunAt (q_jobs ?q a)) rest)" "q_scheduled ?q = rest"
      using Cons.prems(1) by simp_all
    from Cons.IH [OF this m(1)] m(2) False show ?thesis by simp
  qed
qed simp

text \<open>Frames of \<open>promoteReady\<close> and of the job placement.\<close>

lemma promoteReady_spec:
  fixes now :: time
  assumes "sorted (map (\<lambda>a. j_RunAt (q_jobs q a)) (q_scheduled q))"
  defines "due \<equiv> filter (\<lambda>a. j_RunAt (q_jobs q a) \<le> now) (q_scheduled q)"
  shows "q_scheduled (promoteReady now q) = filter (\<lambda>a. now < j_RunAt (q_jobs q a)) (q_scheduled q)"
    and "mset (q_pending (promoteReady now q)) = mset (q_pending q) + mset due"
    and "q_notify (promoteReady now q) = (q_notify q \<or> due \<noteq> [])"
    and "q_jobs (promoteReady now q) = q_jobs q" and "q_all (promoteReady now q) = q_all q"
    and "q_dlq (promoteReady now q) = q_dlq q" and "q_closed (promoteReady now q) = q_closed q"
    and "q_reschedule (promoteReady now q) = q_reschedule q"
    and "q_closeCh (promoteReady now q) = q_closeCh q"
proof -
  obtain n q' where p: "promote_loop now (q_scheduled q) q = (n, q')" by fastforce
  note S = promote_loop_spec [OF assms(1) refl p]
  have eq: "promoteReady now q = (if n > 0 then ping_notify q' else q')"
    by (simp add: promoteReady_def p)
  have n: "n = length due" using S by (simp add: due_def)
  show "mset (q_pending (promoteReady now q)) = mset (q_pending q) + mset due"
    using S by (simp add: eq due_def)
  show "q_notify (promoteReady now q) = (q_notify q \<or> due \<noteq> [])"
  proof -
    have "n > 0 \<longleftrightarrow> due \<noteq> []" using n by auto
    moreover have "q_notify q' = q_notify q" using S by simp
    ultimately show ?thesis by (auto simp: eq)
  qed
qed (use promote_loop_spec [OF assms(1) refl] in \<open>auto simp: promoteReady_def split: prod.splits\<close>)

lemma set_filter_mset: "mset ys = mset xs + mset zs \<Longrightarrow> set ys = set xs \<union> set zs"
  by (metis set_mset_mset set_mset_union)

lemma promoteReady_due:
  assumes "queue_inv q fl" and "pending_due now q"
  shows "pending_due now (promoteReady now q)"
proof -
  have "sorted (map (\<lambda>a. j_RunAt (q_jobs q a)) (q_scheduled q))"
    using assms(1) by (simp add: queue_inv_def inv_but_def ordered_def)
  note S = promoteReady_spec [OF this, of now]
  show ?thesis
    using assms(2) set_filter_mset [OF S(2)] S(4) by (auto simp: pending_due_def)
qed

lemma place_job_due: "pending_due now q \<Longrightarrow> pending_due now (place_job a now q)"
  by (auto simp: pending_due_def place_job_def job_ready_def)

lemma pending_due_mono: "pending_due now q \<Longrightarrow> now \<le> now' \<Longrightarrow> pending_due now' q"
  by (auto simp: pending_due_def)

lemma pending_due_upd: "pending_due now q \<Longrightarrow> a \<notin> set (q_pending q) \<Longrightarrow> pending_due now (upd_job a f q)"
  by (auto simp: pending_due_def)

text \<open>What the operations leave alone.\<close>

lemma place_job_fields [simp]:
  "q_jobs (place_job a now q) = q_jobs q" "q_all (place_job a now q) = q_all q"
  "q_dlq (place_job a now q) = q_dlq q" "q_closed (place_job a now q) = q_closed q"
  "q_closeCh (place_job a now q) = q_closeCh q"
  by (simp_all add: place_job_def)

lemma ping_register_all [simp]: "q_all (register a q) = (q_all q)(j_ID (q_jobs q a) \<mapsto> a)"
  by (simp add: register_def)

lemma dead_fields [simp]:
  "q_jobs (dead a q) = (q_jobs q)(a := (q_jobs q a)\<lparr>j_Status := StatusDead\<rparr>)"
  "q_all (dead a q) = q_all q" "q_pending (dead a q) = q_pending q"
  "q_scheduled (dead a q) = q_scheduled q" "q_closed (dead a q) = q_closed q"
  "q_notify (dead a q) = q_notify q" "q_reschedule (dead a q) = q_reschedule q"
  "q_closeCh (dead a q) = q_closeCh q" "q_dlq (dead a q) = q_dlq q @ [a]"
  by (simp_all add: dead_def)

lemma complete_fields [simp]:
  "q_jobs (complete a q) = (q_jobs q)(a := (q_jobs q a)\<lparr>j_Status := StatusCompleted\<rparr>)"
  "q_all (complete a q) = q_all q" "q_pending (complete a q) = q_pending q"
  "q_scheduled (complete a q) = q_scheduled q" "q_closed (complete a q) = q_closed q"
  "q_notify (complete a q) = q_notify q" "q_reschedule (complete a q) = q_reschedule q"
  "q_closeCh (complete a q) = q_closeCh q" "q_dlq (complete a q) = q_dlq q"
  by (simp_all add: complete_def)

lemma requeue_eq:
  "requeue a delay t1 t2 q =
     place_job a t2 (upd_job a (\<lambda>j. j\<lparr>j_Status := StatusFailed, j_RunAt := time_add t1 delay\<rparr>) q)"
  by (simp add: requeue_def Let_def upd_job_def)

lemma Close_fields [simp]:
  "q_jobs (Close q) = q_jobs q" "q_all (Close q) = q_all q" "q_pending (Close q) = q_pending q"
  "q_scheduled (Close q) = q_scheduled q" "q_dlq (Close q) = q_dlq q" "q_closed (Close q)"
  "q_notify (Close q) = q_notify q" "q_reschedule (Close q) = q_reschedule q"
  by (simp_all add: Close_def)

lemma places_perm: "mset fl = mset fl' \<Longrightarrow> queue_inv q fl \<Longrightarrow> queue_inv q fl'"
proof -
  assume ms: "mset fl = mset fl'" and inv: "queue_inv q fl"
  have sets: "set fl' = set fl" using ms by (metis set_mset_mset)
  then have "located q fl' = located q fl" and "set (places q fl') = set (places q fl)"
    by (simp_all add: fun_eq_iff located_def places_def)
  moreover have "distinct (places q fl') = distinct (places q fl)"
    using ms by (intro distinct_cong_mset) (simp add: places_def)
  ultimately show "queue_inv q fl'"
    using inv unfolding queue_inv_def inv_but_def by simp
qed

end
