(* ===== verification/JobDispatch.thy ===== *)
theory JobDispatch
  imports JobQueue
begin

text \<open>
  The worker pool of \<open>system-design/job-queue/dispatcher.go\<close> and the two goroutine loops: the
  worker's (\<open>runWorker\<close>, with the \<open>select\<close> of \<open>dequeue\<close>) and the scheduler's
  (\<open>runScheduler\<close> of \<open>queue.go\<close>).

  A handler is user code: the model only keeps what it returns (\<open>None\<close> for nil, \<open>Some e\<close> for
  an error with message \<open>e\<close>) and assumes it does not write to the job.  The whole program is the
  state \<open>sys\<close>; \<open>fire\<close> performs one labelled step (one critical section, one channel operation,
  one clock reading), and the reachable states are those of all interleavings of such steps.
\<close>

section \<open>Backoff\<close>

text \<open>
  \<open>time.Duration(math.Pow(2, float64(n)))\<close>: exact for \<open>0 \<le> n < 63\<close>, a fraction truncated to 0
  for negative \<open>n\<close>; from \<open>2^63\<close> on (infinity included) the conversion to \<open>int64\<close> is
  implementation-dependent in Go, the argument \<open>oor\<close>.
\<close>

definition pow2_duration :: "duration \<Rightarrow> int \<Rightarrow> duration" where
  "pow2_duration oor n = (if n < 0 then 0 else if n < 63 then 2 ^ nat n else oor)"

definition backoff_cap :: duration where
  "backoff_cap = 5 * 60 * second"

definition backoff :: "duration \<Rightarrow> int \<Rightarrow> duration" where
  "backoff oor attempt =
     (let d = i64 (second * pow2_duration oor (i64 (attempt - 1)))
      in if d > backoff_cap then backoff_cap else d)"

section \<open>Dispatcher\<close>

record 'h dispatcher =
  d_workerCount :: int
  d_handlers :: "string \<Rightarrow> 'h option"

definition NewDispatcher :: "int \<Rightarrow> 'h dispatcher" where
  "NewDispatcher workerCount =
     (let workerCount = (if workerCount \<le> 0 then 1 else workerCount)
      in \<lparr>d_workerCount = workerCount, d_handlers = (\<lambda>_. None)\<rparr>)"

text \<open>\<open>Register\<close>: \<open>None\<close> is the panic on a second registration.\<close>

definition Register :: "string \<Rightarrow> 'h \<Rightarrow> 'h dispatcher \<Rightarrow> 'h dispatcher option" where
  "Register jobType h d =
     (if d_handlers d jobType \<noteq> None then None
      else Some (d\<lparr>d_handlers := (d_handlers d)(jobType \<mapsto> h)\<rparr>))"

text \<open>
  \<open>process\<close> up to the call of the handler (\<open>process_start\<close>: whether the handler runs) and from
  its return (\<open>process_finish\<close>).
\<close>

definition process_start :: "(string \<Rightarrow> bool) \<Rightarrow> addr \<Rightarrow> 'p queue \<Rightarrow> bool \<times> 'p queue" where
  "process_start registered a q =
     (if \<not> registered (j_Type (q_jobs q a)) then
        (False, dead a (upd_job a (\<lambda>j. j\<lparr>j_LastError :=
           ''no handler registered for type '' @ go_quote (j_Type j)\<rparr>) q))
      else (True, upd_job a (\<lambda>j. j\<lparr>j_Attempt := i64 (j_Attempt j + 1)\<rparr>) q))"

definition process_finish :: "duration \<Rightarrow> addr \<Rightarrow> string option \<Rightarrow> time \<Rightarrow> time \<Rightarrow> 'p queue \<Rightarrow> 'p queue" where
  "process_finish oor a err t1 t2 q =
     (case err of
        Some e \<Rightarrow>
          (let q = upd_job a (\<lambda>j. j\<lparr>j_LastError := e\<rparr>) q;
               j = q_jobs q a
           in if j_Attempt j < j_MaxAttempts j then requeue a (backoff oor (j_Attempt j)) t1 t2 q
              else dead a q)
      | None \<Rightarrow> complete a q)"

definition process ::
  "duration \<Rightarrow> (string \<rightharpoonup> ('p job \<Rightarrow> string option)) \<Rightarrow> addr \<Rightarrow> time \<Rightarrow> time \<Rightarrow> 'p queue \<Rightarrow> 'p queue" where
  "process oor hs a t1 t2 q =
     (let (run, q') = process_start (\<lambda>ty. hs ty \<noteq> None) a q
      in if run then process_finish oor a (the (hs (j_Type (q_jobs q' a))) (q_jobs q' a)) t1 t2 q' else q')"

section \<open>The goroutines\<close>

text \<open>
  A worker is at the top of \<open>dequeue\<close>'s loop, parked in its \<open>select\<close>, holding a job it has
  just dequeued, inside a handler, or gone.
\<close>

datatype worker = WTop | WParked | WHolds addr | WHandler addr | WExit

datatype wakeup = WakeNotify | WakeCtx | WakeClosed

definition worker_top :: "'p queue \<Rightarrow> worker \<times> 'p queue" where
  "worker_top q =
     (case dequeue_turn q of
        (Got a, q') \<Rightarrow> (WHolds a, q')
      | (DequeueClosed, q') \<Rightarrow> (WExit, q')
      | (Park, q') \<Rightarrow> (WParked, q'))"

text \<open>The cases of \<open>dequeue\<close>'s \<open>select\<close>; \<open>None\<close> when the chosen case is not ready.\<close>

fun worker_select :: "wakeup \<Rightarrow> bool \<Rightarrow> 'p queue \<Rightarrow> (worker \<times> 'p queue) option" where
  "worker_select WakeNotify cancelled q =
     (if q_notify q then Some (WTop, q\<lparr>q_notify := False\<rparr>) else None)"
| "worker_select WakeCtx cancelled q = (if cancelled then Some (WExit, q) else None)"
| "worker_select WakeClosed cancelled q = (if q_closeCh q then Some (WExit, q) else None)"

text \<open>
  The scheduler goroutine: at the top of its loop; with the duration it has computed, and the
  clock reading it took for it, about to start the timer; parked until a deadline (and, a ghost,
  how long after that reading the timer was started); inside \<open>promoteReady\<close> (with its clock
  reading, before the lock; or after the lock is given up, about to ping); or gone.
\<close>

datatype sched = STop | SArm duration time | SParked time duration | SPromote time | SPing | SExit

datatype sched_wakeup = SWTimer time | SWReschedule | SWCtx | SWClosed

definition sched_top :: "time \<Rightarrow> 'p queue \<Rightarrow> sched" where
  "sched_top now q = SArm (scheduler_delay now q) now"

text \<open>\<open>stopTimer\<close> and \<open>time.NewTimer\<close>: the channel is a new one, so no earlier tick is left in it.\<close>

definition sched_arm :: "time \<Rightarrow> duration \<Rightarrow> time \<Rightarrow> sched" where
  "sched_arm now d t = SParked (time_add now d) (now - t)"

fun sched_select :: "sched_wakeup \<Rightarrow> bool \<Rightarrow> time \<Rightarrow> 'p queue \<Rightarrow> (sched \<times> 'p queue) option" where
  "sched_select (SWTimer now) cancelled deadline q =
     (if deadline \<le> now then Some (SPromote now, q) else None)"
| "sched_select SWReschedule cancelled deadline q =
     (if q_reschedule q then Some (STop, q\<lparr>q_reschedule := False\<rparr>) else None)"
| "sched_select SWCtx cancelled deadline q = (if cancelled then Some (SExit, q) else None)"
| "sched_select SWClosed cancelled deadline q = (if q_closeCh q then Some (SExit, q) else None)"

section \<open>The whole system\<close>

text \<open>
  \<open>s_calls\<close> is a ghost counter: how often the handler has been called for a job.  \<open>s_types\<close>
  are the job types with a handler (registered before \<open>Start\<close>).
\<close>

record 'p sys =
  s_queue :: "'p queue"
  s_workers :: "worker list"
  s_sched :: sched
  s_types :: "string \<Rightarrow> bool"
  s_cancelled :: bool
  s_now :: time
  s_calls :: "addr \<Rightarrow> nat"

text \<open>
  The labels: what the owner of a job, the producers and the main goroutine do, and which
  goroutine moves.  A producer fills in a job only before it has handed it over, and hands a job
  to \<open>Schedule\<close> or \<open>ScheduleAt\<close> only then.
\<close>

datatype 'p label =
    LWrite addr "'p job"
  | LEnqueue addr time time
  | LSchedule addr duration time time time
  | LScheduleAt addr time time time
  | LClose
  | LCancel
  | LTick time
  | LTop nat
  | LSelect nat wakeup
  | LStart nat
  | LReturn nat "string option" time time
  | LSchedTop time
  | LArm time
  | LSchedSelect sched_wakeup
  | LPromote
  | LPing

text \<open>What the owner writes: no attempt made yet, a maximum that is an \<open>int\<close>.\<close>

definition fresh_job :: "'p job \<Rightarrow> bool" where
  "fresh_job j \<longleftrightarrow> j_Attempt j = 0 \<and> in_i64 (j_MaxAttempts j)"

definition set_worker :: "nat \<Rightarrow> worker \<Rightarrow> 'p queue \<Rightarrow> 'p sys \<Rightarrow> 'p sys" where
  "set_worker i w q s = s\<lparr>s_queue := q, s_workers := (s_workers s)[i := w]\<rparr>"

fun fire :: "duration \<Rightarrow> 'p label \<Rightarrow> 'p sys \<Rightarrow> 'p sys option" where
  "fire oor (LWrite a j) s =
     (if \<not> known (s_queue s) a \<and> fresh_job j
      then Some (s\<lparr>s_queue := upd_job a (\<lambda>_. j) (s_queue s)\<rparr>) else None)"
| "fire oor (LEnqueue a t1 t2) s =
     (if s_now s \<le> t1 \<and> t1 \<le> t2
      then Some (s\<lparr>s_queue := snd (Enqueue a t1 t2 (s_queue s)), s_now := t2\<rparr>) else None)"
| "fire oor (LSchedule a delay t0 t1 t2) s =
     (if \<not> known (s_queue s) a \<and> s_now s \<le> t0 \<and> t0 \<le> t1 \<and> t1 \<le> t2
      then Some (s\<lparr>s_queue := snd (Schedule a delay t0 t1 t2 (s_queue s)), s_now := t2\<rparr>) else None)"
| "fire oor (LScheduleAt a at t1 t2) s =
     (if \<not> known (s_queue s) a \<and> s_now s \<le> t1 \<and> t1 \<le> t2
      then Some (s\<lparr>s_queue := snd (ScheduleAt a at t1 t2 (s_queue s)), s_now := t2\<rparr>) else None)"
| "fire oor LClose s = Some (s\<lparr>s_queue := Close (s_queue s)\<rparr>)"
| "fire oor LCancel s = Some (s\<lparr>s_cancelled := True\<rparr>)"
| "fire oor (LTick t) s = (if s_now s \<le> t then Some (s\<lparr>s_now := t\<rparr>) else None)"
| "fire oor (LTop i) s =
     (if i < length (s_workers s) \<and> s_workers s ! i = WTop
      then (case worker_top (s_queue s) of (w, q) \<Rightarrow> Some (set_worker i w q s)) else None)"
| "fire oor (LSelect i c) s =
     (if i < length (s_workers s) \<and> s_workers s ! i = WParked
      then (case worker_select c (s_cancelled s) (s_queue s) of
              None \<Rightarrow> None | Some (w, q) \<Rightarrow> Some (set_worker i w q s)) else None)"
| "fire oor (LStart i) s =
     (if i < length (s_workers s)
      then (case s_workers s ! i of
              WHolds a \<Rightarrow>
                (case process_start (s_types s) a (s_queue s) of
                   (True, q) \<Rightarrow> Some (set_worker i (WHandler a) q
                      (s\<lparr>s_calls := (s_calls s)(a := Suc (s_calls s a))\<rparr>))
                 | (False, q) \<Rightarrow> Some (set_worker i WTop q s))
            | _ \<Rightarrow> None) else None)"
| "fire oor (LReturn i err t1 t2) s =
     (if i < length (s_workers s) \<and> s_now s \<le> t1 \<and> t1 \<le> t2
      then (case s_workers s ! i of
              WHandler a \<Rightarrow>
                Some (set_worker i WTop (process_finish oor a err t1 t2 (s_queue s)) (s\<lparr>s_now := t2\<rparr>))
            | _ \<Rightarrow> None) else None)"
| "fire oor (LSchedTop t) s =
     (if s_sched s = STop \<and> s_now s \<le> t
      then Some (s\<lparr>s_sched := sched_top t (s_queue s), s_now := t\<rparr>) else None)"
| "fire oor (LArm t) s =
     (case s_sched s of
        SArm d t0 \<Rightarrow> if s_now s \<le> t then Some (s\<lparr>s_sched := sched_arm t d t0, s_now := t\<rparr>) else None
      | _ \<Rightarrow> None)"
| "fire oor (LSchedSelect c) s =
     (case s_sched s of
        SParked d late \<Rightarrow>
          (if (case c of SWTimer t \<Rightarrow> s_now s \<le> t | _ \<Rightarrow> True)
           then (case sched_select c (s_cancelled s) d (s_queue s) of
                   None \<Rightarrow> None
                 | Some (sc, q) \<Rightarrow> Some (s\<lparr>s_queue := q, s_sched := sc,
                      s_now := (case c of SWTimer t \<Rightarrow> t | _ \<Rightarrow> s_now s)\<rparr>))
           else None)
      | _ \<Rightarrow> None)"
| "fire oor LPromote s =
     (case s_sched s of
        SPromote now \<Rightarrow>
          (case promote_loop now (q_scheduled (s_queue s)) (s_queue s) of
             (promoted, q) \<Rightarrow> Some (s\<lparr>s_queue := q, s_sched := (if promoted > 0 then SPing else STop)\<rparr>))
      | _ \<Rightarrow> None)"
| "fire oor LPing s =
     (if s_sched s = SPing then Some (s\<lparr>s_queue := ping_notify (s_queue s), s_sched := STop\<rparr>) else None)"

text \<open>
  The start: \<open>NewQueue\<close>, \<open>Queue.Start\<close> (the scheduler goroutine at the top of its loop) and
  \<open>Dispatcher.Start\<close> with \<open>n\<close> workers; \<open>start_sys\<close> is the start with a dispatcher.
\<close>

definition init_sys :: "(addr \<Rightarrow> 'p job) \<Rightarrow> nat \<Rightarrow> (string \<Rightarrow> bool) \<Rightarrow> time \<Rightarrow> 'p sys" where
  "init_sys st n types t0 =
     \<lparr>s_queue = NewQueue st, s_workers = replicate n WTop, s_sched = STop, s_types = types,
      s_cancelled = False, s_now = t0, s_calls = (\<lambda>_. 0)\<rparr>"

definition Dispatcher_Start :: "'h dispatcher \<Rightarrow> worker list" where
  "Dispatcher_Start d = map (\<lambda>i. WTop) [0..<nat (d_workerCount d)]"

definition start_sys :: "(addr \<Rightarrow> 'p job) \<Rightarrow> 'h dispatcher \<Rightarrow> time \<Rightarrow> 'p sys" where
  "start_sys st d t0 =
     (init_sys st 0 (\<lambda>ty. d_handlers d ty \<noteq> None) t0)\<lparr>s_workers := Dispatcher_Start d\<rparr>"

inductive reachable :: "duration \<Rightarrow> 'p sys \<Rightarrow> bool" for oor where
  start: "\<forall>a. fresh_job (st a) \<Longrightarrow> reachable oor (init_sys st n types t0)"
| step: "reachable oor s \<Longrightarrow> fire oor l s = Some s' \<Longrightarrow> reachable oor s'"

section \<open>Jobs in flight\<close>

fun worker_job :: "worker \<Rightarrow> addr list" where
  "worker_job (WHolds a) = [a]"
| "worker_job (WHandler a) = [a]"
| "worker_job _ = []"

definition inflight :: "worker list \<Rightarrow> addr list" where
  "inflight ws = concat (map worker_job ws)"

lemma inflight_replicate [simp]: "inflight (replicate n WTop) = []"
  by (simp add: inflight_def)

lemma mset_inflight_update:
  assumes "i < length ws"
  shows "mset (inflight (ws[i := w])) + mset (worker_job (ws ! i)) =
         mset (inflight ws) + mset (worker_job w)"
  unfolding inflight_def by (rule mset_concat_update [OF assms])

lemma inflight_mem: "i < length ws \<Longrightarrow> a \<in> set (worker_job (ws ! i)) \<Longrightarrow> a \<in> set (inflight ws)"
  by (auto simp: inflight_def)

text \<open>The three ways a worker changes what it holds.\<close>

lemma inflight_same:
  assumes "i < length ws" and "worker_job w = worker_job (ws ! i)"
    and "queue_inv q (inflight ws)"
  shows "queue_inv q (inflight (ws[i := w]))"
  using mset_inflight_update [OF assms(1), of w] assms(2,3) by (auto intro: places_perm)

lemma inflight_take:
  assumes "i < length ws" and "worker_job (ws ! i) = []" and "worker_job w = [a]"
    and "queue_inv q (a # inflight ws)"
  shows "queue_inv q (inflight (ws[i := w]))"
proof -
  have "mset (a # inflight ws) = mset (inflight (ws[i := w]))"
    using mset_inflight_update [OF assms(1), of w] assms(2,3) by simp
  then show ?thesis using assms(4) by (rule places_perm)
qed

lemma inflight_drop:
  assumes "i < length ws" and "worker_job (ws ! i) = [a]" and "worker_job w = []"
    and "queue_inv q (remove1 a (inflight ws))"
  shows "queue_inv q (inflight (ws[i := w]))"
proof -
  have "mset (inflight (ws[i := w])) + {#a#} = mset (inflight ws)"
    using mset_inflight_update [OF assms(1), of w] assms(2,3) by simp
  then have "mset (remove1 a (inflight ws)) = mset (inflight (ws[i := w]))"
    by (metis add_diff_cancel_right' mset_remove1)
  then show ?thesis using assms(4) by (rule places_perm)
qed

section \<open>The queue invariant on every step\<close>

lemma touch_inflight:
  assumes inv: "queue_inv q fl" and a: "a \<in> set fl"
    and "j_ID (f (q_jobs q a)) = j_ID (q_jobs q a)"
    and "j_MaxAttempts (f (q_jobs q a)) = j_MaxAttempts (q_jobs q a)"
    and "j_Status (f (q_jobs q a)) = j_Status (q_jobs q a)"
  shows "queue_inv (upd_job a f q) fl"
proof -
  have "inv_but {a} (upd_job a f q) (remove1 a fl)"
    by (rule land_upd_inv [OF land_inv [OF inv a]]) (use assms in simp_all)
  moreover have "j_Status (q_jobs q a) = StatusProcessing"
    using inv a inv_butD(4,7) [of "{}" q fl a] by (auto simp: queue_inv_def places_def located_def)
  ultimately have "queue_inv (upd_job a f q) (a # remove1 a fl)"
    using assms(5) unfolding queue_inv_def by (intro fly_inv) auto
  then show ?thesis by (rule places_perm [rotated]) (use a in simp)
qed

lemma process_start_inv:
  assumes inv: "queue_inv q fl" and a: "a \<in> set fl" and st: "process_start types a q = (run, q')"
  shows "queue_inv q' (if run then fl else remove1 a fl)"
proof (cases "types (j_Type (q_jobs q a))")
  case True
  then show ?thesis
    using st touch_inflight [OF inv a] by (auto simp: process_start_def)
next
  case False
  have "queue_inv (dead a (upd_job a (\<lambda>j. j\<lparr>j_LastError :=
      ''no handler registered for type '' @ go_quote (j_Type j)\<rparr>) q)) (remove1 a fl)"
    by (rule dead_inv, rule land_upd_inv [OF land_inv [OF inv a]]) simp_all
  with False st show ?thesis by (auto simp: process_start_def)
qed

lemma process_finish_inv:
  assumes inv: "queue_inv q fl" and a: "a \<in> set fl"
  shows "queue_inv (process_finish oor a err t1 t2 q) (remove1 a fl)"
proof (cases err)
  case None
  then show ?thesis
    using complete_inv [OF land_inv [OF inv a]] by (simp add: process_finish_def)
next
  case (Some e)
  have "inv_but {a} (upd_job a (\<lambda>j. j\<lparr>j_LastError := e\<rparr>) q) (remove1 a fl)"
    by (rule land_upd_inv [OF land_inv [OF inv a]]) simp_all
  then show ?thesis
    using Some by (simp add: process_finish_def Let_def requeue_inv dead_inv)
qed

lemma Schedule_inv:
  assumes "queue_inv q fl" and "\<not> known q a"
  shows "queue_inv (snd (Schedule a delay t0 t1 t2 q)) fl"
    and "queue_inv (snd (ScheduleAt a at t1 t2 q)) fl"
  using assms upd_unknown_inv(1) [OF _ assms(2), of "{}" fl]
  by (auto simp: Schedule_def ScheduleAt_def queue_inv_def intro!: Enqueue_inv [unfolded queue_inv_def])

lemma queue_inv_signals:
  "queue_inv (q\<lparr>q_notify := b\<rparr>) fl = queue_inv q fl" "queue_inv (q\<lparr>q_reschedule := b\<rparr>) fl = queue_inv q fl"
  unfolding queue_inv_def by (rule inv_but_cong; simp)+

lemma worker_top_inv:
  assumes inv: "queue_inv q (inflight ws)" and i: "i < length ws" "ws ! i = WTop"
    and top: "worker_top q = (w, q')"
  shows "queue_inv q' (inflight (ws[i := w]))"
proof (cases "dequeue_turn q")
  case (Pair r q0)
  show ?thesis
  proof (cases r)
    case (Got a)
    then have "w = WHolds a" "q' = q0" using top Pair by (auto simp: worker_top_def)
    then show ?thesis
      using inflight_take [OF i(1), of "WHolds a" a] i(2) dequeue_turn_inv [OF inv] Got Pair by auto
  next
    case DequeueClosed
    then show ?thesis
      using top Pair i inflight_same [OF i(1) _ inv, of WExit]
      by (auto simp: worker_top_def dequeue_turn_cases)
  next
    case Park
    then show ?thesis
      using top Pair i inflight_same [OF i(1) _ inv, of WParked]
      by (auto simp: worker_top_def dequeue_turn_cases)
  qed
qed

lemma worker_select_inv:
  assumes inv: "queue_inv q (inflight ws)" and i: "i < length ws" "ws ! i = WParked"
    and sel: "worker_select c cancelled q = Some (w, q')"
  shows "queue_inv q' (inflight (ws[i := w]))"
  using sel i inflight_same [OF i(1) _ inv, of w]
  by (cases c) (auto simp: queue_inv_signals split: if_splits)

lemma sched_select_inv:
  "queue_inv q fl \<Longrightarrow> sched_select c cancelled d q = Some (sc, q') \<Longrightarrow> queue_inv q' fl"
  by (cases c) (auto simp: queue_inv_signals split: if_splits)

text \<open>The critical section of \<open>promoteReady\<close>.\<close>

lemma LPromote_step:
  assumes "fire oor LPromote s = Some s'"
  obtains now n q where "s_sched s = SPromote now"
    "promote_loop now (q_scheduled (s_queue s)) (s_queue s) = (n, q)"
    "s' = s\<lparr>s_queue := q, s_sched := (if n > 0 then SPing else STop)\<rparr>"
  using assms by (auto split: sched.splits prod.splits)

lemma queue_inv_sorted:
  "queue_inv q fl \<Longrightarrow> sorted (map (\<lambda>a. j_RunAt (q_jobs q a)) (q_scheduled q))"
  by (simp add: queue_inv_def inv_but_def ordered_def)

lemma promote_loop_set:
  assumes "queue_inv q fl" and "promote_loop now (q_scheduled q) q = (n, q')"
  shows "set (q_pending q') = set (q_pending q) \<union> {a \<in> set (q_scheduled q). j_RunAt (q_jobs q a) \<le> now}"
proof -
  have "mset (q_pending q') = mset (q_pending q) + mset (filter (\<lambda>a. j_RunAt (q_jobs q a) \<le> now) (q_scheduled q))"
    using promote_loop_spec [OF queue_inv_sorted [OF assms(1)] refl assms(2)] by blast
  from set_filter_mset [OF this] show ?thesis by auto
qed

lemma fire_queue_inv:
  assumes inv: "queue_inv (s_queue s) (inflight (s_workers s))" and st: "fire oor l s = Some s'"
  shows "queue_inv (s_queue s') (inflight (s_workers s'))"
proof (cases l)
  case (LWrite a j)
  then show ?thesis
    using st inv upd_unknown_inv(1) [of "{}" "s_queue s"] by (auto simp: queue_inv_def split: if_splits)
next
  case (LTop i)
  then show ?thesis
    using st worker_top_inv [OF inv] by (auto simp: set_worker_def split: if_splits prod.splits)
next
  case (LSelect i c)
  then show ?thesis
    using st worker_select_inv [OF inv] by (auto simp: set_worker_def split: if_splits option.splits)
next
  case (LStart i)
  then obtain a run q where i: "i < length (s_workers s)" "s_workers s ! i = WHolds a"
    and p: "process_start (s_types s) a (s_queue s) = (run, q)"
    and s': "s_queue s' = q" "s_workers s' = (s_workers s)[i := if run then WHandler a else WTop]"
    using st by (auto simp: set_worker_def split: if_splits worker.splits prod.splits bool.splits)
  have "a \<in> set (inflight (s_workers s))" using i inflight_mem by fastforce
  from process_start_inv [OF inv this p] show ?thesis
    unfolding s' using i by (cases run) (auto intro: inflight_same inflight_drop)
next
  case (LReturn i err t1 t2)
  then obtain a where i: "i < length (s_workers s)" "s_workers s ! i = WHandler a"
    and s': "s_queue s' = process_finish oor a err t1 t2 (s_queue s)" "s_workers s' = (s_workers s)[i := WTop]"
    using st by (auto simp: set_worker_def split: if_splits worker.splits)
  have "a \<in> set (inflight (s_workers s))" using i inflight_mem by fastforce
  from process_finish_inv [OF inv this] show ?thesis
    unfolding s' using i by (auto intro: inflight_drop)
next
  case LPromote
  from st [unfolded LPromote] obtain now n q where p: "promote_loop now (q_scheduled (s_queue s)) (s_queue s) = (n, q)"
    and s': "s' = s\<lparr>s_queue := q, s_sched := (if n > 0 then SPing else STop)\<rparr>" by (rule LPromote_step)
  show ?thesis
    using promote_loop_inv [of "{}" "s_queue s" "inflight (s_workers s)" "q_scheduled (s_queue s)" now] inv p
    by (simp add: s' queue_inv_def)
next
  case LPing
  then show ?thesis using st inv by (auto simp: queue_inv_def inv_but_ping split: if_splits)
qed (use st inv in \<open>auto simp: Enqueue_inv Schedule_inv Close_inv sched_select_inv
      split: if_splits sched.splits option.splits\<close>)

section \<open>Signals: what a step tells the parked goroutines\<close>

text \<open>
  \<open>pings q q'\<close>: a buffered signal stays buffered; the heap is as before or \<open>notify\<close> is
  buffered; the scheduled list (with its times) is as before or \<open>reschedule\<close> is buffered.
\<close>

definition pings :: "'p queue \<Rightarrow> 'p queue \<Rightarrow> bool" where
  "pings q q' \<longleftrightarrow>
     (q_notify q \<longrightarrow> q_notify q') \<and> (q_pending q' = q_pending q \<or> q_notify q') \<and>
     (q_reschedule q \<longrightarrow> q_reschedule q') \<and>
     (q_scheduled q' = q_scheduled q \<and>
        (\<forall>b \<in> set (q_scheduled q). j_RunAt (q_jobs q' b) = j_RunAt (q_jobs q b)) \<or> q_reschedule q')"

lemma pings_refl [simp]: "pings q q"
  by (simp add: pings_def)

lemma pings_trans: "pings q q' \<Longrightarrow> pings q' q'' \<Longrightarrow> pings q q''"
  by (auto simp: pings_def)

lemma pings_upd [simp]: "a \<notin> set (q_scheduled q) \<Longrightarrow> pings q (upd_job a f q)"
  by (auto simp: pings_def)

lemma pings_place [simp]: "pings q (place_job a now q)"
  by (auto simp: pings_def place_job_def)

lemma pings_register [simp]: "pings q (register a q)"
  by (simp add: pings_def)

lemma pings_status [simp]: "pings q (dead a q)" "pings q (complete a q)"
  by (simp_all add: pings_def)

lemma unknown_unplaced:
  assumes "queue_inv q fl" and "\<not> known q a"
  shows "a \<notin> set (q_pending q)" "a \<notin> set (q_scheduled q)" "a \<notin> set fl" "a \<notin> set (q_dlq q)"
  using assms inv_butD(4) [of "{}" q fl a] by (auto simp: queue_inv_def places_def)

lemma inflight_unplaced:
  assumes "queue_inv q fl" and "a \<in> set fl"
  shows "a \<notin> set (q_pending q)" "a \<notin> set (q_scheduled q)" "a \<notin> set (q_dlq q)" "known q a"
  using assms inv_butD(3,4) [of "{}" q fl] by (auto simp: queue_inv_def places_def)

lemma pings_Enqueue:
  assumes inv: "queue_inv q fl"
  shows "pings q (snd (Enqueue a t1 t2 q))"
proof (cases "fst (Enqueue a t1 t2 q)")
  case None
  then have "j_ID (q_jobs q a) \<noteq> ''''" "j_Type (q_jobs q a) \<noteq> ''''" "\<not> q_closed q"
    "q_all q (j_ID (q_jobs q a)) = None"
    by (auto simp: Enqueue_cases split: if_splits)
  moreover from this have "a \<notin> set (q_scheduled q)"
    using unknown_unplaced(2) [OF inv, of a] by (simp add: known_def)
  ultimately show ?thesis
    using pings_trans [OF pings_upd pings_trans [OF pings_register pings_place]]
    by (simp add: Enqueue_accept)
next
  case (Some e)
  then show ?thesis by (auto simp: Enqueue_reject [OF Some] pings_def)
qed

lemma pings_Schedule:
  assumes "queue_inv q fl" and "\<not> known q a"
  shows "pings q (snd (Schedule a delay t0 t1 t2 q))" "pings q (snd (ScheduleAt a at t1 t2 q))"
  using pings_trans [OF pings_upd pings_Enqueue] unknown_unplaced(2) [OF assms]
    upd_unknown_inv(1) [of "{}" q fl a] assms
  unfolding Schedule_def ScheduleAt_def queue_inv_def by blast+

lemma pings_process_start:
  "a \<notin> set (q_scheduled q) \<Longrightarrow> process_start types a q = (run, q') \<Longrightarrow> pings q q'"
  using pings_trans [OF pings_upd pings_status(1)]
  by (auto simp: process_start_def split: if_splits)

lemma pings_process_finish:
  assumes "a \<notin> set (q_scheduled q)"
  shows "pings q (process_finish oor a err t1 t2 q)"
proof (cases err)
  case (Some e)
  let ?q = "upd_job a (\<lambda>j. j\<lparr>j_LastError := e\<rparr>) q"
  have 1: "pings q ?q" using assms by simp
  have "pings ?q (requeue a d t1 t2 ?q)" for d
    unfolding requeue_eq using assms by (intro pings_trans [OF pings_upd pings_place]) simp
  then show ?thesis
    using 1 pings_trans Some by (auto simp: process_finish_def Let_def intro: pings_trans)
qed (simp add: process_finish_def)

section \<open>No lost wake-up, no late promotion\<close>

definition awake :: "worker \<Rightarrow> bool" where
  "awake w \<longleftrightarrow> w \<noteq> WParked \<and> w \<noteq> WExit"

text \<open>
  Unless the pool is shutting down, a job in the heap has a signal buffered for it, a worker
  that will look at the heap again before it parks, or the scheduler about to send the signal.
\<close>

definition no_lost_wakeup :: "'p sys \<Rightarrow> bool" where
  "no_lost_wakeup s \<longleftrightarrow>
     s_cancelled s \<or> q_closed (s_queue s) \<or> q_pending (s_queue s) = [] \<or> q_notify (s_queue s) \<or>
     s_sched s = SPing \<or> (\<exists>w \<in> set (s_workers s). awake w)"

text \<open>
  The scheduler about to start its timer, or parked, has a signal buffered, or its duration is
  over, or it wakes no later than the earliest \<open>RunAt\<close> (plus the time it took to start the timer).
\<close>

definition none_before :: "'p sys \<Rightarrow> time \<Rightarrow> bool" where
  "none_before s t \<longleftrightarrow>
     q_reschedule (s_queue s) \<or> (\<forall>a \<in> set (q_scheduled (s_queue s)). t \<le> j_RunAt (q_jobs (s_queue s) a))"

definition timer_ok :: "'p sys \<Rightarrow> bool" where
  "timer_ok s \<longleftrightarrow>
     (\<forall>d t. s_sched s = SArm d t \<longrightarrow> d \<le> 0 \<or> none_before s (t + d)) \<and>
     (\<forall>d late. s_sched s = SParked d late \<longrightarrow> d \<le> s_now s \<or> none_before s (d - late))"

lemma no_lost_wakeup_pings:
  assumes "no_lost_wakeup s" and "pings (s_queue s) (s_queue s')" and "s_sched s' = s_sched s"
    and "s_cancelled s \<longrightarrow> s_cancelled s'" and "q_closed (s_queue s) \<longrightarrow> q_closed (s_queue s')"
    and "\<And>w. w \<in> set (s_workers s) \<Longrightarrow> awake w \<Longrightarrow> \<exists>w' \<in> set (s_workers s'). awake w'"
  shows "no_lost_wakeup s'"
  using assms by (auto simp: no_lost_wakeup_def pings_def)

lemma timer_ok_pings:
  assumes "timer_ok s" and "pings (s_queue s) (s_queue s')" and "s_sched s' = s_sched s"
    and "s_now s \<le> s_now s'"
  shows "timer_ok s'"
proof -
  have "none_before s t \<Longrightarrow> none_before s' t" for t
    using assms(2) by (auto simp: none_before_def pings_def)
  with assms(1,3,4) show ?thesis by (auto simp: timer_ok_def none_before_def dest: order_trans)
qed

lemma scheduler_delay_timer:
  assumes "sorted (map (\<lambda>a. j_RunAt (q_jobs q a)) (q_scheduled q))" and "a \<in> set (q_scheduled q)"
  shows "scheduler_delay now q \<le> 0 \<or> now + scheduler_delay now q \<le> j_RunAt (q_jobs q a)"
proof -
  obtain b rest where q: "q_scheduled q = b # rest" using assms(2) by (cases "q_scheduled q") auto
  have "j_RunAt (q_jobs q b) \<le> j_RunAt (q_jobs q a)" using assms q by auto
  moreover have "scheduler_delay now q = (let x = time_sub (j_RunAt (q_jobs q b)) now in if x < 0 then 0 else x)"
    using q by (simp add: scheduler_delay_def)
  ultimately show ?thesis
    using sat_dur_le [of "j_RunAt (q_jobs q b) - now"]
    by (auto simp: time_sub_def Let_def sat_dur_def split: if_splits)
qed

lemma worker_top_awake:
  "worker_top q = (w, q') \<Longrightarrow> awake w \<or> q_closed q' \<or> q_pending q' = []"
  by (auto simp: worker_top_def dequeue_turn_cases awake_def split: prod.splits dequeue_result.splits)

lemma worker_top_frame:
  assumes "worker_top q = (w, q')"
  shows "q_reschedule q' = q_reschedule q" and "q_scheduled q' = q_scheduled q"
    and "j_RunAt (q_jobs q' b) = j_RunAt (q_jobs q b)"
  using assms
  by (auto simp: worker_top_def dequeue_turn_cases popPending_Some
      split: prod.splits dequeue_result.splits)

lemma awake_update:
  "w' \<in> set ws \<Longrightarrow> awake w' \<Longrightarrow> i < length ws \<Longrightarrow> awake w \<Longrightarrow> \<exists>v \<in> set (ws[i := w]). awake v"
  by (meson set_update_memI)

lemma Enqueue_closed [simp]:
  "q_closed (snd (Enqueue a t1 t2 q)) = q_closed q"
  "q_closed (snd (Schedule a delay t0 t1 t2 q)) = q_closed q"
  "q_closed (snd (ScheduleAt a at t1 t2 q)) = q_closed q"
  by (simp_all add: Enqueue_def Schedule_def ScheduleAt_def Let_def)

lemma fire_no_lost_wakeup:
  assumes inv: "queue_inv (s_queue s) (inflight (s_workers s))" and ok: "no_lost_wakeup s"
    and st: "fire oor l s = Some s'"
  shows "no_lost_wakeup s'"
proof (cases l)
  case (LTop i)
  then show ?thesis
    using st set_update_memI [of i "s_workers s"] worker_top_awake
    by (fastforce simp: no_lost_wakeup_def set_worker_def split: if_splits prod.splits)
next
  case (LSelect i c)
  have "q_closed (s_queue s) = q_closeCh (s_queue s)"
    using inv inv_butD(9) by (simp add: queue_inv_def)
  with LSelect st show ?thesis
    using set_update_memI [of i "s_workers s" WTop]
    by (cases c) (auto simp: no_lost_wakeup_def set_worker_def awake_def split: if_splits)
next
  case (LStart i)
  then obtain w where i: "i < length (s_workers s)" "s_workers s' = (s_workers s)[i := w]" "awake w"
    using st by (auto simp: set_worker_def awake_def split: if_splits worker.splits prod.splits bool.splits)
  then show ?thesis
    using set_update_memI [of i "s_workers s" w] by (auto simp: no_lost_wakeup_def)
next
  case (LReturn i err t1 t2)
  then obtain a where i: "i < length (s_workers s)" "s_workers s' = (s_workers s)[i := WTop]"
    using st by (auto simp: set_worker_def split: if_splits worker.splits)
  then show ?thesis
    using set_update_memI [of i "s_workers s" WTop] by (auto simp: no_lost_wakeup_def awake_def)
next
  case (LSchedSelect c)
  then show ?thesis
    using st ok by (cases c) (auto simp: no_lost_wakeup_def split: if_splits sched.splits)
next
  case LPromote
  from st [unfolded LPromote] obtain now n q where sc: "s_sched s = SPromote now"
    and p: "promote_loop now (q_scheduled (s_queue s)) (s_queue s) = (n, q)"
    and s': "s' = s\<lparr>s_queue := q, s_sched := (if n > 0 then SPing else STop)\<rparr>" by (rule LPromote_step)
  show ?thesis
    using ok sc promote_loop_spec [OF queue_inv_sorted [OF inv] refl p]
    by (auto simp: no_lost_wakeup_def s' simp del: mset_filter)
next
  case (LWrite a j)
  then show ?thesis
    using st unknown_unplaced(2) [OF inv, of a]
    by (intro no_lost_wakeup_pings [OF ok]) (auto split: if_splits)
next
  case (LEnqueue a t1 t2)
  then show ?thesis
    using st pings_Enqueue [OF inv]
    by (intro no_lost_wakeup_pings [OF ok]) (auto split: if_splits)
next
  case (LSchedule a delay t0 t1 t2)
  then show ?thesis
    using st pings_Schedule [OF inv]
    by (intro no_lost_wakeup_pings [OF ok]) (auto split: if_splits)
next
  case (LScheduleAt a at t1 t2)
  then show ?thesis
    using st pings_Schedule [OF inv]
    by (intro no_lost_wakeup_pings [OF ok]) (auto split: if_splits)
next
  case (LArm t)
  then show ?thesis
    using st ok by (auto simp: no_lost_wakeup_def sched_arm_def split: if_splits sched.splits)
qed (use st ok in \<open>auto simp: no_lost_wakeup_def split: if_splits\<close>)

lemma fire_timer_ok:
  assumes inv: "queue_inv (s_queue s) (inflight (s_workers s))" and ok: "timer_ok s"
    and st: "fire oor l s = Some s'"
  shows "timer_ok s'"
proof -
  have s: "sorted (map (\<lambda>a. j_RunAt (q_jobs (s_queue s) a)) (q_scheduled (s_queue s)))"
    using inv by (simp add: queue_inv_def inv_but_def ordered_def)
  show ?thesis
  proof (cases l)
    case (LTop i)
    then obtain w where top: "worker_top (s_queue s) = (w, s_queue s')"
      and s': "s_sched s' = s_sched s" "s_now s' = s_now s"
      using st by (auto simp: set_worker_def split: if_splits prod.splits)
    then show ?thesis
      using ok worker_top_frame [OF top] by (simp add: timer_ok_def none_before_def)
  next
    case (LSelect i c)
    then show ?thesis
      using st ok by (cases c) (auto simp: timer_ok_def none_before_def set_worker_def split: if_splits)
  next
    case (LStart i)
    then obtain a run q where i: "i < length (s_workers s)" "s_workers s ! i = WHolds a"
      and p: "process_start (s_types s) a (s_queue s) = (run, q)"
      and s': "s_queue s' = q" "s_sched s' = s_sched s" "s_now s' = s_now s"
      using st by (auto simp: set_worker_def split: if_splits worker.splits prod.splits bool.splits)
    have "a \<in> set (inflight (s_workers s))" using i inflight_mem by fastforce
    then have "pings (s_queue s) (s_queue s')"
      using pings_process_start [OF _ p] inflight_unplaced(2) [OF inv] s' by simp
    then show ?thesis using timer_ok_pings [OF ok] s' by simp
  next
    case (LReturn i err t1 t2)
    then obtain a where i: "i < length (s_workers s)" "s_workers s ! i = WHandler a"
      and s': "s_queue s' = process_finish oor a err t1 t2 (s_queue s)" "s_sched s' = s_sched s"
        "s_now s \<le> s_now s'"
      using st by (auto simp: set_worker_def split: if_splits worker.splits)
    have "a \<in> set (inflight (s_workers s))" using i inflight_mem by fastforce
    then have "pings (s_queue s) (s_queue s')"
      using pings_process_finish [of a "s_queue s"] inflight_unplaced(2) [OF inv] s'(1) by metis
    then show ?thesis using timer_ok_pings [OF ok] s' by simp
  next
    case (LSchedTop t)
    then show ?thesis
      using st scheduler_delay_timer [OF s, of _ t]
      by (fastforce simp: timer_ok_def none_before_def sched_top_def split: if_splits)
  next
    case (LArm t)
    then show ?thesis
      using st ok by (auto simp: timer_ok_def none_before_def sched_arm_def time_add_def add.commute
        split: if_splits sched.splits)
  next
    case (LSchedSelect c)
    then show ?thesis
      using st by (cases c) (auto simp: timer_ok_def none_before_def split: if_splits sched.splits)
  next
    case (LWrite a j)
    then show ?thesis
      using st unknown_unplaced(2) [OF inv, of a]
      by (intro timer_ok_pings [OF ok]) (auto split: if_splits)
  next
    case (LEnqueue a t1 t2)
    then show ?thesis
      using st pings_Enqueue [OF inv] by (intro timer_ok_pings [OF ok]) (auto split: if_splits)
  next
    case (LSchedule a delay t0 t1 t2)
    then show ?thesis
      using st pings_Schedule [OF inv] by (intro timer_ok_pings [OF ok]) (auto split: if_splits)
  next
    case (LScheduleAt a at t1 t2)
    then show ?thesis
      using st pings_Schedule [OF inv] by (intro timer_ok_pings [OF ok]) (auto split: if_splits)
  next
    case LPromote
    from st [unfolded LPromote] show ?thesis by (rule LPromote_step) (simp add: timer_ok_def none_before_def)
  qed (use st ok in \<open>auto simp: timer_ok_def none_before_def split: if_splits\<close>)
qed

section \<open>Jobs run at their time, and at most MaxAttempts times\<close>

lemma Enqueue_due:
  assumes inv: "queue_inv q fl" and due: "pending_due t2 q"
  shows "pending_due t2 (snd (Enqueue a t1 t2 q))"
proof (cases "fst (Enqueue a t1 t2 q)")
  case None
  then have acc: "j_ID (q_jobs q a) \<noteq> ''''" "j_Type (q_jobs q a) \<noteq> ''''" "\<not> q_closed q"
    "q_all q (j_ID (q_jobs q a)) = None"
    by (auto simp: Enqueue_cases split: if_splits)
  then have "a \<notin> set (q_pending q)"
    using unknown_unplaced(1) [OF inv, of a] by (simp add: known_def)
  then have "pending_due t2 (register a (upd_job a (accepted_job t1) q))"
    using due by (auto simp: pending_due_def)
  then show ?thesis using acc by (simp add: Enqueue_accept place_job_due)
next
  case (Some e)
  then show ?thesis using due by (auto simp: Enqueue_reject [OF Some] pending_due_def)
qed

lemma Schedule_due:
  assumes inv: "queue_inv q fl" and due: "pending_due t2 q" and a: "\<not> known q a"
  shows "pending_due t2 (snd (Schedule a delay t0 t1 t2 q))"
    and "pending_due t2 (snd (ScheduleAt a at t1 t2 q))"
proof -
  have "queue_inv (upd_job a f q) fl" "pending_due t2 (upd_job a f q)" for f
    using inv a due unknown_unplaced(1) [OF inv a] upd_unknown_inv(1) [of "{}" q fl a]
    by (auto simp: queue_inv_def pending_due_upd)
  then show "pending_due t2 (snd (Schedule a delay t0 t1 t2 q))"
    and "pending_due t2 (snd (ScheduleAt a at t1 t2 q))"
    unfolding Schedule_def ScheduleAt_def by (blast intro: Enqueue_due)+
qed

lemma worker_top_due:
  assumes "worker_top q = (w, q')" and "pending_due t q"
  shows "pending_due t q'"
proof -
  have "set (q_pending q') \<subseteq> set (q_pending q)"
    using assms(1) heap_pop_set by (fastforce simp: worker_top_def dequeue_turn_cases popPending_Some
      split: prod.splits dequeue_result.splits)
  then show ?thesis
    using assms(2) worker_top_frame(3) [OF assms(1)] by (auto simp: pending_due_def)
qed

lemma process_due:
  assumes "pending_due t q" and "a \<notin> set (q_pending q)"
  shows "process_start types a q = (run, q') \<Longrightarrow> pending_due t q'"
    and "pending_due t (process_finish oor a err t1 t q)"
proof -
  show "process_start types a q = (run, q') \<Longrightarrow> pending_due t q'"
    using assms by (auto simp: process_start_def pending_due_def split: if_splits)
  show "pending_due t (process_finish oor a err t1 t q)"
  proof (cases err)
    case None
    then show ?thesis using assms by (auto simp: process_finish_def pending_due_def)
  next
    case (Some e)
    have upd: "pending_due t (upd_job a f q)" for f using assms by (simp add: pending_due_upd)
    have "pending_due t (requeue a d t1 t (upd_job a (\<lambda>j. j\<lparr>j_LastError := e\<rparr>) q))" for d
      unfolding requeue_eq upd_job_twice by (intro place_job_due upd)
    moreover have "pending_due t (dead a (upd_job a (\<lambda>j. j\<lparr>j_LastError := e\<rparr>) q))"
      using assms by (auto simp: pending_due_def)
    ultimately show ?thesis by (simp add: process_finish_def Some Let_def)
  qed
qed

text \<open>The reading the scheduler promotes with is not ahead of the clock.\<close>

definition promote_time_ok :: "'p sys \<Rightarrow> bool" where
  "promote_time_ok s \<longleftrightarrow> (\<forall>t. s_sched s = SPromote t \<longrightarrow> t \<le> s_now s)"

lemma fire_promote_time:
  assumes ok: "promote_time_ok s" and st: "fire oor l s = Some s'"
  shows "promote_time_ok s'"
proof (cases l)
  case (LTop i)
  then show ?thesis using st ok by (auto simp: promote_time_ok_def set_worker_def split: if_splits prod.splits)
next
  case (LSelect i c)
  then show ?thesis
    using st ok by (auto simp: promote_time_ok_def set_worker_def split: if_splits option.splits)
next
  case (LStart i)
  then show ?thesis
    using st ok by (auto simp: promote_time_ok_def set_worker_def split: if_splits worker.splits prod.splits bool.splits)
next
  case (LReturn i err t1 t2)
  then show ?thesis
    using st ok by (auto simp: promote_time_ok_def set_worker_def split: if_splits worker.splits)
next
  case (LSchedSelect c)
  then show ?thesis
    using st ok by (cases c) (auto simp: promote_time_ok_def split: if_splits sched.splits)
next
  case LPromote
  from st [unfolded LPromote] show ?thesis by (rule LPromote_step) (simp add: promote_time_ok_def)
qed (use st ok in \<open>auto simp: promote_time_ok_def sched_top_def sched_arm_def split: if_splits sched.splits\<close>)

lemma fire_due:
  assumes inv: "queue_inv (s_queue s) (inflight (s_workers s))"
    and due: "pending_due (s_now s) (s_queue s)" and time: "promote_time_ok s" and st: "fire oor l s = Some s'"
  shows "pending_due (s_now s') (s_queue s')"
proof -
  note later = pending_due_mono [OF due]
  show ?thesis
  proof (cases l)
    case (LTop i)
    then show ?thesis
      using st due worker_top_due by (auto simp: set_worker_def split: if_splits prod.splits)
  next
    case (LSelect i c)
    then show ?thesis
      using st due by (cases c) (auto simp: set_worker_def pending_due_def split: if_splits)
  next
    case (LStart i)
    then obtain a run q where i: "i < length (s_workers s)" "s_workers s ! i = WHolds a"
      and p: "process_start (s_types s) a (s_queue s) = (run, q)"
      and s': "s_queue s' = q" "s_now s' = s_now s"
      using st by (auto simp: set_worker_def split: if_splits worker.splits prod.splits bool.splits)
    have "a \<in> set (inflight (s_workers s))" using i inflight_mem by fastforce
    then show ?thesis
      using process_due(1) [OF due _ p] inflight_unplaced(1) [OF inv] s' by simp
  next
    case (LReturn i err t1 t2)
    then obtain a where i: "i < length (s_workers s)" "s_workers s ! i = WHandler a"
      and s': "s_queue s' = process_finish oor a err t1 t2 (s_queue s)" "s_now s' = t2"
        "s_now s \<le> t2"
      using st by (auto simp: set_worker_def split: if_splits worker.splits)
    have "a \<in> set (inflight (s_workers s))" using i inflight_mem by fastforce
    then show ?thesis
      using process_due(2) [OF later] inflight_unplaced(1) [OF inv] s' by simp
  next
    case (LSchedSelect c)
    then show ?thesis
      using st due by (cases c) (fastforce simp: pending_due_def split: if_splits sched.splits)+
  next
    case LPromote
    from st [unfolded LPromote] obtain now n q where sc: "s_sched s = SPromote now"
      and p: "promote_loop now (q_scheduled (s_queue s)) (s_queue s) = (n, q)"
      and s': "s' = s\<lparr>s_queue := q, s_sched := (if n > 0 then SPing else STop)\<rparr>" by (rule LPromote_step)
    note S = promote_loop_spec [OF queue_inv_sorted [OF inv] refl p]
    have "now \<le> s_now s" using time sc by (simp add: promote_time_ok_def)
    with due promote_loop_set [OF inv p] S show ?thesis
      by (fastforce simp: pending_due_def s')
  next
    case (LWrite a j)
    then show ?thesis
      using st due unknown_unplaced(1) [OF inv, of a] by (auto simp: pending_due_upd split: if_splits)
  next
    case (LEnqueue a t1 t2)
    then show ?thesis using st later Enqueue_due [OF inv] by (auto split: if_splits)
  next
    case (LSchedule a delay t0 t1 t2)
    then show ?thesis using st later Schedule_due(1) [OF inv] by (auto split: if_splits)
  next
    case (LScheduleAt a at t1 t2)
    then show ?thesis using st later Schedule_due(2) [OF inv] by (auto split: if_splits)
    next
    case (LArm t)
    then show ?thesis using st later by (auto split: if_splits sched.splits)
  qed (use st later in \<open>auto simp: pending_due_def split: if_splits\<close>)
qed

text \<open>
  What holds of a job with \<open>c\<close> handler calls behind it: \<open>k\<close> says whether the queue knows it,
  \<open>h\<close> and \<open>g\<close> whether a worker holds it before, or inside, its handler.
\<close>

definition job_ok :: "(string \<Rightarrow> bool) \<Rightarrow> nat \<Rightarrow> bool \<Rightarrow> bool \<Rightarrow> bool \<Rightarrow> 'p job \<Rightarrow> bool" where
  "job_ok types c k h g j \<longleftrightarrow>
     int c = j_Attempt j \<and> in_i64 (j_MaxAttempts j) \<and>
     (\<not> k \<longrightarrow> c = 0 \<and> \<not> h \<and> \<not> g) \<and>
     (k \<longrightarrow> j_Attempt j \<le> j_MaxAttempts j) \<and>
     (k \<and> (is_waiting (j_Status j) \<or> h) \<longrightarrow> j_Attempt j < j_MaxAttempts j) \<and>
     (g \<longrightarrow> 1 \<le> j_Attempt j \<and> types (j_Type j)) \<and>
     (k \<and> j_Status j = StatusDead \<longrightarrow> j_Attempt j = j_MaxAttempts j \<or> \<not> types (j_Type j)) \<and>
     (k \<and> j_Status j = StatusCompleted \<longrightarrow> 1 \<le> j_Attempt j \<and> types (j_Type j))"

definition attempts_ok :: "'p sys \<Rightarrow> bool" where
  "attempts_ok s \<longleftrightarrow>
     (\<forall>a. job_ok (s_types s) (s_calls s a) (known (s_queue s) a)
        (WHolds a \<in> set (s_workers s)) (WHandler a \<in> set (s_workers s)) (q_jobs (s_queue s) a))"

lemma attempts_okD:
  "attempts_ok s \<Longrightarrow> job_ok (s_types s) (s_calls s a) (known (s_queue s) a)
     (WHolds a \<in> set (s_workers s)) (WHandler a \<in> set (s_workers s)) (q_jobs (s_queue s) a)"
  by (simp add: attempts_ok_def)

text \<open>A step that changes one job: the others are framed.\<close>

lemma attempts_ok_step:
  assumes ok: "attempts_ok s" and types: "s_types s' = s_types s"
    and all: "\<And>b. b \<noteq> a \<Longrightarrow> known (s_queue s') b = known (s_queue s) b"
    and jobs: "\<And>b. b \<noteq> a \<Longrightarrow> q_jobs (s_queue s') b = q_jobs (s_queue s) b"
    and calls: "\<And>b. b \<noteq> a \<Longrightarrow> s_calls s' b = s_calls s b"
    and held: "\<And>b. b \<noteq> a \<Longrightarrow> WHolds b \<in> set (s_workers s') \<Longrightarrow> WHolds b \<in> set (s_workers s)"
      "\<And>b. b \<noteq> a \<Longrightarrow> WHandler b \<in> set (s_workers s') \<Longrightarrow> WHandler b \<in> set (s_workers s)"
    and a: "job_ok (s_types s) (s_calls s' a) (known (s_queue s') a)
      (WHolds a \<in> set (s_workers s')) (WHandler a \<in> set (s_workers s')) (q_jobs (s_queue s') a)"
  shows "attempts_ok s'"
  unfolding attempts_ok_def
proof
  fix b
  show "job_ok (s_types s') (s_calls s' b) (known (s_queue s') b)
    (WHolds b \<in> set (s_workers s')) (WHandler b \<in> set (s_workers s')) (q_jobs (s_queue s') b)"
  proof (cases "b = a")
    case False
    with attempts_okD [OF ok, of b] held [OF False] show ?thesis
      unfolding types all [OF False] jobs [OF False] calls [OF False] by (auto simp: job_ok_def)
  qed (use a types in simp)
qed

lemma known_same: "q_all q' = q_all q \<Longrightarrow> j_ID (q_jobs q' b) = j_ID (q_jobs q b) \<Longrightarrow> known q' b = known q b"
  by (simp add: known_def)

lemma inflight_once:
  assumes "distinct (inflight (ws[i := w]))" and "i < length ws" and "a \<in> set (worker_job w)"
    and "v \<in> set (ws[i := w])" and "a \<in> set (worker_job v)"
  shows "v = w"
proof -
  have count: "count (mset (inflight (ws[i := w]))) a \<le> 1"
    using assms(1) by (simp add: distinct_count_atmost_1 le_Suc_eq count_eq_zero_iff)
  have split: "ws[i := w] = take i ws @ w # drop (Suc i) ws" by (rule upd_conv_take_nth_drop [OF assms(2)])
  have "v \<notin> set (take i ws)" if "v \<noteq> w"
  proof
    assume "v \<in> set (take i ws)"
    then have "a \<in> set (concat (map worker_job (take i ws)))" using assms(5) by auto
    then show False using assms(1,3) unfolding split inflight_def by auto
  qed
  moreover have "v \<notin> set (drop (Suc i) ws)" if "v \<noteq> w"
  proof
    assume "v \<in> set (drop (Suc i) ws)"
    then have "a \<in> set (concat (map worker_job (drop (Suc i) ws)))" using assms(5) by auto
    then show False using assms(1,3) unfolding split inflight_def by auto
  qed
  ultimately show ?thesis using assms(4) unfolding split by auto
qed

lemma attempts_write:
  assumes ok: "attempts_ok s" and inv: "queue_inv (s_queue s) fl" and a: "\<not> known (s_queue s) a"
    and f: "j_Attempt (f (q_jobs (s_queue s) a)) = 0" "in_i64 (j_MaxAttempts (f (q_jobs (s_queue s) a)))"
  shows "attempts_ok (s\<lparr>s_queue := upd_job a f (s_queue s)\<rparr>)"
proof (rule attempts_ok_step [OF ok, where a = a])
  let ?q = "upd_job a f (s_queue s)"
  have nk: "\<not> known ?q a" using upd_unknown_inv(2) [OF _ a] inv by (auto simp: queue_inv_def)
  show "job_ok (s_types s) (s_calls (s\<lparr>s_queue := ?q\<rparr>) a) (known (s_queue (s\<lparr>s_queue := ?q\<rparr>)) a)
      (WHolds a \<in> set (s_workers (s\<lparr>s_queue := ?q\<rparr>))) (WHandler a \<in> set (s_workers (s\<lparr>s_queue := ?q\<rparr>)))
      (q_jobs (s_queue (s\<lparr>s_queue := ?q\<rparr>)) a)"
    using attempts_okD [OF ok, of a] a nk f by (simp add: job_ok_def)
qed (auto simp: known_def)

lemma attempts_Enqueue:
  assumes ok: "attempts_ok s" and inv: "queue_inv (s_queue s) fl"
  shows "attempts_ok (s\<lparr>s_queue := snd (Enqueue a t1 t2 (s_queue s))\<rparr>)" (is "attempts_ok ?s")
proof (cases "fst (Enqueue a t1 t2 (s_queue s))")
  case None
  let ?q = "s_queue s"
  let ?j = "accepted_job t1 (q_jobs ?q a)"
  from None have acc: "j_ID (q_jobs ?q a) \<noteq> ''''" "j_Type (q_jobs ?q a) \<noteq> ''''" "\<not> q_closed ?q"
    and new: "q_all ?q (j_ID (q_jobs ?q a)) = None"
    by (auto simp: Enqueue_cases split: if_splits)
  have q': "q_jobs (s_queue ?s) = (q_jobs ?q)(a := ?j)"
    "q_all (s_queue ?s) = (q_all ?q)(j_ID (q_jobs ?q a) \<mapsto> a)"
    by (simp_all add: Enqueue_accept acc new)
  show ?thesis
  proof (rule attempts_ok_step [OF ok, where a = a])
    have k: "\<not> known ?q a" using new by (simp add: known_def)
    have k': "known (s_queue ?s) a" using q' by (simp add: known_def)
    have "in_i64 (j_MaxAttempts ?j)" if "in_i64 (j_MaxAttempts (q_jobs ?q a))"
      using that by (simp add: accepted_job_def in_i64_def)
    moreover have "0 < j_MaxAttempts ?j" by (simp add: accepted_job_def)
    ultimately show "job_ok (s_types s) (s_calls ?s a) (known (s_queue ?s) a)
        (WHolds a \<in> set (s_workers ?s)) (WHandler a \<in> set (s_workers ?s)) (q_jobs (s_queue ?s) a)"
      using attempts_okD [OF ok, of a] k k' unfolding q' by (auto simp: job_ok_def is_waiting_def)
    show "known (s_queue ?s) b = known ?q b" if "b \<noteq> a" for b
      using that new unfolding known_def q' by auto
  qed (use q' in auto)
next
  case (Some e)
  show ?thesis
  proof (cases "known (s_queue s) a")
    case True
    then have "1 \<le> j_MaxAttempts (q_jobs (s_queue s) a)"
      using inv inv_butD(6) by (auto simp: queue_inv_def)
    then show ?thesis using ok by (simp add: Enqueue_reject [OF Some])
  next
    case False
    have "attempts_ok (s\<lparr>s_queue := upd_job a (\<lambda>j. j\<lparr>j_MaxAttempts := 1\<rparr>) (s_queue s)\<rparr>)"
      using attempts_okD [OF ok, of a] False
      by (intro attempts_write [OF ok inv]) (auto simp: job_ok_def in_i64_def)
    then show ?thesis using ok by (auto simp: Enqueue_reject [OF Some])
  qed
qed

lemma attempts_Schedule:
  assumes ok: "attempts_ok s" and inv: "queue_inv (s_queue s) fl" and a: "\<not> known (s_queue s) a"
  shows "attempts_ok (s\<lparr>s_queue := snd (Schedule a delay t0 t1 t2 (s_queue s))\<rparr>)"
    and "attempts_ok (s\<lparr>s_queue := snd (ScheduleAt a at t1 t2 (s_queue s))\<rparr>)"
proof -
  have "attempts_ok (s\<lparr>s_queue := snd (Enqueue a t1 t2 (upd_job a (\<lambda>j. j\<lparr>j_RunAt := t\<rparr>) (s_queue s)))\<rparr>)" for t
  proof -
    let ?s = "s\<lparr>s_queue := upd_job a (\<lambda>j. j\<lparr>j_RunAt := t\<rparr>) (s_queue s)\<rparr>"
    have "attempts_ok ?s"
      using attempts_okD [OF ok, of a] a by (intro attempts_write [OF ok inv a]) (auto simp: job_ok_def)
    moreover have "queue_inv (s_queue ?s) fl"
      using inv upd_unknown_inv(1) [OF _ a] by (simp add: queue_inv_def)
    ultimately show ?thesis using attempts_Enqueue [of ?s fl a t1 t2] by simp
  qed
  then show "attempts_ok (s\<lparr>s_queue := snd (Schedule a delay t0 t1 t2 (s_queue s))\<rparr>)"
    and "attempts_ok (s\<lparr>s_queue := snd (ScheduleAt a at t1 t2 (s_queue s))\<rparr>)"
    by (simp_all add: Schedule_def ScheduleAt_def)
qed

lemma attempts_ok_now [simp]: "attempts_ok (s\<lparr>s_now := t\<rparr>) = attempts_ok s"
  by (simp add: attempts_ok_def)

lemma set_update_keep: "v \<in> set (ws[i := w]) \<Longrightarrow> v \<noteq> w \<Longrightarrow> v \<in> set ws"
  using set_update_subset_insert by fastforce

lemma attempts_ok_frame:
  assumes "attempts_ok s" and "s_types s' = s_types s" and "s_calls s' = s_calls s"
    and "q_jobs (s_queue s') = q_jobs (s_queue s)" and "q_all (s_queue s') = q_all (s_queue s)"
    and "\<And>a. WHolds a \<in> set (s_workers s') \<Longrightarrow> WHolds a \<in> set (s_workers s)"
    and "\<And>a. WHandler a \<in> set (s_workers s') \<Longrightarrow> WHandler a \<in> set (s_workers s)"
  shows "attempts_ok s'"
proof -
  have "known (s_queue s') a = known (s_queue s) a" for a using assms(4,5) by (simp add: known_def)
  then show ?thesis
    using assms unfolding attempts_ok_def by (auto simp: job_ok_def)
qed

lemma attempts_top:
  assumes ok: "attempts_ok s" and inv: "queue_inv (s_queue s) fl"
    and top: "worker_top (s_queue s) = (w, q)"
  shows "attempts_ok (set_worker i w q s)"
proof (cases "\<exists>a. w = WHolds a")
  case True
  then obtain a where w: "w = WHolds a" by blast
  from top obtain p where pop: "heap_pop (job_less (q_jobs (s_queue s))) (q_pending (s_queue s)) = Some (a, p)"
    and q: "q_jobs q = (q_jobs (s_queue s))(a := (q_jobs (s_queue s) a)\<lparr>j_Status := StatusProcessing\<rparr>)"
      "q_all q = q_all (s_queue s)"
    by (auto simp: w worker_top_def dequeue_turn_cases popPending_Some split: prod.splits dequeue_result.splits)
  have kn: "known q b = known (s_queue s) b" for b by (rule known_same) (simp_all add: q)
  have a: "a \<in> set (q_pending (s_queue s))" using heap_pop_set [OF pop] by simp
  then have k: "known (s_queue s) a" and wt: "is_waiting (j_Status (q_jobs (s_queue s) a))"
    using inv inv_butD(4,7) [of "{}" "s_queue s" fl a] by (auto simp: queue_inv_def places_def located_def)
  have g: "WHandler a \<in> set ((s_workers s)[i := w]) \<Longrightarrow> WHandler a \<in> set (s_workers s)"
    using set_update_keep [of "WHandler a" "s_workers s" i w] w by auto
  have "job_ok (s_types s) (s_calls s a) (known q a) (WHolds a \<in> set ((s_workers s)[i := w]))
      (WHandler a \<in> set ((s_workers s)[i := w])) (q_jobs q a)"
    using attempts_okD [OF ok, of a] k wt g unfolding kn q(1) by (auto simp: job_ok_def is_waiting_def)
  then show ?thesis
    by (intro attempts_ok_step [OF ok, where a = a])
      (auto simp: set_worker_def kn q w dest: set_update_keep)
next
  case False
  then have "q = s_queue s"
    using top by (auto simp: worker_top_def dequeue_turn_cases split: prod.splits dequeue_result.splits)
  moreover have "\<forall>a. w \<noteq> WHandler a"
    using top by (auto simp: worker_top_def split: prod.splits dequeue_result.splits)
  ultimately show ?thesis
    using False
    by (intro attempts_ok_frame [OF ok]) (auto simp: set_worker_def dest: set_update_keep)
qed

lemma attempts_start:
  assumes ok: "attempts_ok s" and inv: "queue_inv (s_queue s) (inflight (s_workers s))"
    and i: "i < length (s_workers s)" "s_workers s ! i = WHolds a"
    and p: "process_start (s_types s) a (s_queue s) = (run, q)"
  defines "s' \<equiv> set_worker i (if run then WHandler a else WTop) q
      (s\<lparr>s_calls := (if run then (s_calls s)(a := Suc (s_calls s a)) else s_calls s)\<rparr>)"
  shows "attempts_ok s'"
proof -
  have fl: "a \<in> set (inflight (s_workers s))" using i inflight_mem by fastforce
  have h: "WHolds a \<in> set (s_workers s)" using i by (metis nth_mem)
  have k: "known (s_queue s) a" by (rule inflight_unplaced(4) [OF inv fl])
  have proc: "j_Status (q_jobs (s_queue s) a) = StatusProcessing"
    using inv fl k inv_butD(7) [of "{}" "s_queue s"] by (auto simp: queue_inv_def located_def)
  have run: "run = s_types s (j_Type (q_jobs (s_queue s) a))"
    using p by (auto simp: process_start_def split: if_splits)
  have all: "q_all q = q_all (s_queue s)" and others: "\<And>b. b \<noteq> a \<Longrightarrow> q_jobs q b = q_jobs (s_queue s) b"
    and id: "j_ID (q_jobs q a) = j_ID (q_jobs (s_queue s) a)"
    using p by (auto simp: process_start_def split: if_splits)
  have kn: "known q b = known (s_queue s) b" for b
    using all others id by (cases "b = a") (auto simp: known_def)
  have inv': "queue_inv q (inflight ((s_workers s)[i := if run then WHandler a else WTop]))"
    using process_start_inv [OF inv fl p] i by (cases run) (auto intro: inflight_same inflight_drop)
  have once: "run \<Longrightarrow> WHolds a \<notin> set ((s_workers s)[i := WHandler a])"
    using inflight_once [of "s_workers s" i "WHandler a" a "WHolds a"] inv' i
    by (auto simp: queue_inv_def inv_but_def places_def)
  have job: "job_ok (s_types s) (s_calls s a) True True (WHandler a \<in> set (s_workers s)) (q_jobs (s_queue s) a)"
    using attempts_okD [OF ok, of a] h k by simp
  have "i64 (j_Attempt (q_jobs (s_queue s) a) + 1) = j_Attempt (q_jobs (s_queue s) a) + 1"
    using job by (intro i64_id) (auto simp: job_ok_def in_i64_def)
  moreover have "WHandler a \<in> set ((s_workers s)[i := WTop]) \<Longrightarrow> WHandler a \<in> set (s_workers s)"
    by (rule set_update_keep) auto
  ultimately have "job_ok (s_types s) (s_calls s' a) (known q a)
      (WHolds a \<in> set (s_workers s')) (WHandler a \<in> set (s_workers s')) (q_jobs q a)"
    using job once p run k kn proc i set_update_memI [of i "s_workers s" "WHandler a"]
    by (auto simp: s'_def set_worker_def job_ok_def process_start_def is_waiting_def split: if_splits)
  then show ?thesis
    by (intro attempts_ok_step [OF ok, where a = a])
      (auto simp: s'_def set_worker_def kn others dest: set_update_keep split: if_splits)
qed

lemma attempts_finish:
  assumes ok: "attempts_ok s" and inv: "queue_inv (s_queue s) (inflight (s_workers s))"
    and i: "i < length (s_workers s)" "s_workers s ! i = WHandler a"
  shows "attempts_ok (set_worker i WTop (process_finish oor a err t1 t2 (s_queue s)) s)" (is "attempts_ok ?s")
proof -
  let ?q = "process_finish oor a err t1 t2 (s_queue s)"
  have fl: "a \<in> set (inflight (s_workers s))" using i inflight_mem by fastforce
  have g: "WHandler a \<in> set (s_workers s)" using i by (metis nth_mem)
  have k: "known (s_queue s) a" by (rule inflight_unplaced(4) [OF inv fl])
  have all: "q_all ?q = q_all (s_queue s)" and others: "\<And>b. b \<noteq> a \<Longrightarrow> q_jobs ?q b = q_jobs (s_queue s) b"
    and id: "j_ID (q_jobs ?q a) = j_ID (q_jobs (s_queue s) a)"
    by (auto simp: process_finish_def requeue_eq Let_def split: option.splits)
  have kn: "known ?q b = known (s_queue s) b" for b
    using all others id by (cases "b = a") (auto simp: known_def)
  have "job_ok (s_types s) (s_calls s a) True (WHolds a \<in> set (s_workers s)) True (q_jobs (s_queue s) a)"
    using attempts_okD [OF ok, of a] g k by simp
  then have "job_ok (s_types s) (s_calls s a) True (WHolds a \<in> set (s_workers s)) True (q_jobs ?q a)"
    by (auto simp: job_ok_def process_finish_def requeue_eq Let_def is_waiting_def split: option.splits)
  then have "job_ok (s_types s) (s_calls s a) (known ?q a) (WHolds a \<in> set (s_workers ?s))
      (WHandler a \<in> set (s_workers ?s)) (q_jobs ?q a)"
    using k kn set_update_keep [of "WHolds a" "s_workers s" i WTop]
    by (auto simp: job_ok_def set_worker_def)
  then show ?thesis
    by (intro attempts_ok_step [OF ok, where a = a])
      (auto simp: set_worker_def kn others dest: set_update_keep)
qed

lemma fire_attempts:
  assumes inv: "queue_inv (s_queue s) (inflight (s_workers s))" and ok: "attempts_ok s"
    and st: "fire oor l s = Some s'"
  shows "attempts_ok s'"
proof (cases l)
  case (LWrite a j)
  then show ?thesis
    using st attempts_write [OF ok inv, of a "\<lambda>_. j"] by (auto simp: fresh_job_def split: if_splits)
next
  case (LEnqueue a t1 t2)
  then show ?thesis
    using st attempts_Enqueue [OF ok inv, of a t1 t2] attempts_ok_now by (auto split: if_splits)
next
  case (LSchedule a delay t0 t1 t2)
  then show ?thesis
    using st attempts_Schedule(1) [OF ok inv, of a]
      attempts_ok_now [of t2 "s\<lparr>s_queue := snd (Schedule a delay t0 t1 t2 (s_queue s))\<rparr>"] by (auto split: if_splits)
next
  case (LScheduleAt a at t1 t2)
  then show ?thesis
    using st attempts_Schedule(2) [OF ok inv, of a]
      attempts_ok_now [of t2 "s\<lparr>s_queue := snd (ScheduleAt a at t1 t2 (s_queue s))\<rparr>"] by (auto split: if_splits)
next
  case (LTop i)
  then show ?thesis
    using st attempts_top [OF ok inv] by (auto split: if_splits prod.splits)
next
  case (LSelect i c)
  then show ?thesis
    using st by (intro attempts_ok_frame [OF ok]; cases c)
      (auto simp: set_worker_def split: if_splits dest: set_update_keep)
next
  case (LStart i)
  then show ?thesis
    using st attempts_start [OF ok inv, of i]
    by (fastforce split: if_splits worker.splits prod.splits bool.splits)
next
  case (LReturn i err t1 t2)
  then show ?thesis
    using st attempts_finish [of "s\<lparr>s_now := t2\<rparr>" i] ok inv attempts_ok_now
    by (auto split: if_splits worker.splits)
next
  case (LSchedSelect c)
  then show ?thesis
    using st by (intro attempts_ok_frame [OF ok]; cases c) (auto split: if_splits sched.splits)
next
  case LPromote
  from st [unfolded LPromote] obtain now n q
    where p: "promote_loop now (q_scheduled (s_queue s)) (s_queue s) = (n, q)"
      and s': "s' = s\<lparr>s_queue := q, s_sched := (if n > 0 then SPing else STop)\<rparr>" by (rule LPromote_step)
  then show ?thesis
    using promote_loop_spec [OF queue_inv_sorted [OF inv] refl p] by (intro attempts_ok_frame [OF ok]) simp_all
next
  case (LArm t)
  then show ?thesis
    using st by (intro attempts_ok_frame [OF ok]) (auto split: if_splits sched.splits)
qed (use st ok in \<open>auto intro: attempts_ok_frame [OF ok] split: if_splits\<close>)

text \<open>A worker only leaves on shutdown.\<close>

definition no_early_exit :: "'p sys \<Rightarrow> bool" where
  "no_early_exit s \<longleftrightarrow> (WExit \<in> set (s_workers s) \<longrightarrow> s_cancelled s \<or> q_closed (s_queue s))"

lemma worker_top_exit: "worker_top q = (WExit, q') \<Longrightarrow> q_closed q'"
  by (auto simp: worker_top_def dequeue_turn_cases split: prod.splits dequeue_result.splits)

lemma worker_top_closed: "worker_top q = (w, q') \<Longrightarrow> q_closed q' = q_closed q"
  by (auto simp: worker_top_def dequeue_turn_cases popPending_Some split: prod.splits dequeue_result.splits)

lemma process_closed [simp]:
  "process_start types a q = (run, q') \<Longrightarrow> q_closed q' = q_closed q"
  "q_closed (process_finish oor a err t1 t2 q) = q_closed q"
  by (auto simp: process_start_def process_finish_def requeue_eq Let_def split: if_splits option.splits)

lemma fire_no_early_exit:
  assumes inv: "queue_inv (s_queue s) (inflight (s_workers s))" and ok: "no_early_exit s"
    and st: "fire oor l s = Some s'"
  shows "no_early_exit s'"
proof (cases l)
  case (LTop i)
  then show ?thesis
    using st ok worker_top_exit worker_top_closed
    by (fastforce simp: no_early_exit_def set_worker_def split: if_splits prod.splits dest: set_update_keep)
next
  case (LSelect i c)
  have "q_closed (s_queue s) = q_closeCh (s_queue s)"
    using inv inv_butD(9) by (simp add: queue_inv_def)
  with LSelect st ok show ?thesis
    by (cases c) (auto simp: no_early_exit_def set_worker_def split: if_splits dest: set_update_keep)
next
  case (LStart i)
  then show ?thesis
    using st ok by (auto simp: no_early_exit_def set_worker_def
        split: if_splits worker.splits prod.splits bool.splits dest: set_update_keep)
next
  case (LReturn i err t1 t2)
  then show ?thesis
    using st ok by (auto simp: no_early_exit_def set_worker_def
        split: if_splits worker.splits dest: set_update_keep)
next
  case (LSchedSelect c)
  then show ?thesis
    using st ok by (cases c) (auto simp: no_early_exit_def split: if_splits sched.splits)
next
  case LPromote
  from st [unfolded LPromote] obtain now n q
    where p: "promote_loop now (q_scheduled (s_queue s)) (s_queue s) = (n, q)"
      and s': "s' = s\<lparr>s_queue := q, s_sched := (if n > 0 then SPing else STop)\<rparr>" by (rule LPromote_step)
  then show ?thesis
    using ok promote_loop_spec [OF queue_inv_sorted [OF inv] refl p] by (simp add: no_early_exit_def)
next
  case (LArm t)
  then show ?thesis using st ok by (auto simp: no_early_exit_def split: if_splits sched.splits)
qed (use st ok in \<open>auto simp: no_early_exit_def split: if_splits\<close>)

section \<open>The invariant of the reachable states\<close>

definition sys_inv :: "'p sys \<Rightarrow> bool" where
  "sys_inv s \<longleftrightarrow>
     queue_inv (s_queue s) (inflight (s_workers s)) \<and> pending_due (s_now s) (s_queue s) \<and>
     promote_time_ok s \<and> attempts_ok s \<and> no_lost_wakeup s \<and> timer_ok s \<and> no_early_exit s"

lemma init_sys_inv: "\<forall>a. fresh_job (st a) \<Longrightarrow> sys_inv (init_sys st n types t0)"
  by (simp add: sys_inv_def init_sys_def NewQueue_inv)
    (simp add: NewQueue_def pending_due_def attempts_ok_def job_ok_def fresh_job_def known_def
      no_lost_wakeup_def timer_ok_def none_before_def no_early_exit_def promote_time_ok_def)

lemma fire_sys_inv: "sys_inv s \<Longrightarrow> fire oor l s = Some s' \<Longrightarrow> sys_inv s'"
  unfolding sys_inv_def
  by (blast intro: fire_queue_inv fire_due fire_promote_time fire_attempts fire_no_lost_wakeup fire_timer_ok
      fire_no_early_exit)

lemma reachable_sys_inv: "reachable oor s \<Longrightarrow> sys_inv s"
  by (induction rule: reachable.induct) (auto intro: init_sys_inv fire_sys_inv)

text \<open>Runs, for concrete reachable states.\<close>

fun run_labels :: "duration \<Rightarrow> 'p label list \<Rightarrow> 'p sys \<Rightarrow> 'p sys option" where
  "run_labels oor [] s = Some s"
| "run_labels oor (l # ls) s = (case fire oor l s of None \<Rightarrow> None | Some s' \<Rightarrow> run_labels oor ls s')"

definition after :: "duration \<Rightarrow> 'p label list \<Rightarrow> 'p sys \<Rightarrow> 'p sys" where
  "after oor ls s = (case run_labels oor ls s of Some s' \<Rightarrow> s' | None \<Rightarrow> s)"

lemma run_labels_reachable:
  "reachable oor s \<Longrightarrow> run_labels oor ls s = Some s' \<Longrightarrow> reachable oor s'"
  by (induction ls arbitrary: s) (auto split: option.splits intro: reachable.step)

lemma after_reachable: "reachable oor s \<Longrightarrow> reachable oor (after oor ls s)"
  by (auto simp: after_def split: option.split intro: run_labels_reachable)

lemma start_sys_init: "start_sys st d t0 = init_sys st (nat (d_workerCount d)) (\<lambda>ty. d_handlers d ty \<noteq> None) t0"
  by (simp add: start_sys_def init_sys_def Dispatcher_Start_def map_replicate_const)

lemma fire_workers: "fire oor l s = Some s' \<Longrightarrow> length (s_workers s') = length (s_workers s)"
  by (cases l) (auto simp: set_worker_def
      split: if_splits prod.splits option.splits worker.splits bool.splits sched.splits)

lemma run_workers: "run_labels oor ls s = Some s' \<Longrightarrow> length (s_workers s') = length (s_workers s)"
  by (induction ls arbitrary: s) (auto split: option.splits dest: fire_workers)

text \<open>However few workers the caller asks for, the pool has one.\<close>

lemma started_pool_has_worker:
  "run_labels oor ls (start_sys st (NewDispatcher workerCount) t0) = Some s \<Longrightarrow> s_workers s \<noteq> []"
  using run_workers [of oor ls "start_sys st (NewDispatcher workerCount) t0" s]
  by (auto simp: start_sys_init init_sys_def NewDispatcher_def Let_def split: if_splits)

text \<open>\<open>promoteReady\<close> is its steps, one after the other.\<close>

lemma promoteReady_steps:
  assumes "s_sched s = SPromote now"
  shows "\<exists>s'. (run_labels oor [LPromote] s = Some s' \<or> run_labels oor [LPromote, LPing] s = Some s') \<and>
    s_sched s' = STop \<and> s_queue s' = promoteReady now (s_queue s)"
proof -
  obtain n q where p: "promote_loop now (q_scheduled (s_queue s)) (s_queue s) = (n, q)" by fastforce
  show ?thesis using assms p by (cases n) (auto simp: promoteReady_def)
qed

definition sample_job :: "string \<Rightarrow> int \<Rightarrow> int \<Rightarrow> unit job" where
  "sample_job i p m =
     \<lparr>j_ID = i, j_Type = ''mail'', j_Payload = (), j_Priority = p, j_Status = StatusPending,
      j_Attempt = 0, j_MaxAttempts = m, j_RunAt = 0, j_EnqueuedAt = 0, j_LastError = []\<rparr>"

definition sample_init :: "unit sys" where
  "sample_init = init_sys (\<lambda>a. if a = 0 then sample_job ''a'' 1 2 else sample_job ''b'' 3 2) 2
     (\<lambda>ty. ty = ''mail'') 10"

text \<open>Both workers park; two jobs are enqueued; one worker wakes, takes a job and starts it.\<close>

definition sample_labels :: "unit label list" where
  "sample_labels =
     [LTop 0, LTop 1, LEnqueue 0 20 20, LEnqueue 1 21 21, LSelect 0 WakeNotify, LTop 0, LStart 0]"

definition sample_sys :: "unit sys" where
  "sample_sys = after 0 sample_labels sample_init"

end
