(* ===== verification/JobProperties.thy ===== *)
theory JobProperties
  imports JobDispatch
begin

text \<open>
  The properties of the job queue (\<open>system-design/job-queue\<close>): where jobs are in every reachable
  state of the program, in which order and when they run, how often, what the signals guarantee
  and what they do not, and the arithmetic of the retry delay.
\<close>

lemma sample_reachable: "reachable 0 (after 0 ls sample_init)"
  unfolding sample_init_def
  by (rule after_reachable, rule reachable.start) (simp add: fresh_job_def sample_job_def in_i64_def)

section \<open>Placement\<close>

text \<open>
  C1. In every reachable state, under any interleaving of producers, workers and the scheduler,
  a job the queue knows is in exactly one place, and its status names the place: pending or
  failed in the heap or the scheduled list (not both), processing with exactly one worker, dead
  in the dead-letter queue, completed nowhere.  No job is lost and none is duplicated.
\<close>

theorem jobs_in_one_place:
  assumes "reachable oor s"
  shows "distinct (places (s_queue s) (inflight (s_workers s))) \<and>
    (\<forall>a. known (s_queue s) a \<longrightarrow> located (s_queue s) (inflight (s_workers s)) a) \<and>
    (\<forall>a \<in> set (places (s_queue s) (inflight (s_workers s))). known (s_queue s) a)"
proof -
  have "inv_but {} (s_queue s) (inflight (s_workers s))"
    using reachable_sys_inv [OF assms] by (simp add: sys_inv_def queue_inv_def)
  from inv_butD(3) [OF this] inv_butD(4) [OF this] inv_butD(7) [OF this] show ?thesis by auto
qed

theorem jobs_in_one_place_witness:
  "distinct (places (s_queue sample_sys) (inflight (s_workers sample_sys)))
   \<and> located (s_queue sample_sys) (inflight (s_workers sample_sys)) 1
   \<and> known (s_queue sample_sys) 0"
proof -
  have "known (s_queue sample_sys) 1"
    and "0 \<in> set (places (s_queue sample_sys) (inflight (s_workers sample_sys)))"
    by code_simp+
  then show ?thesis using jobs_in_one_place [OF sample_reachable [of sample_labels, folded sample_sys_def]] by blast
qed

section \<open>Order and time\<close>

text \<open>
  C2. A worker that dequeues gets a job of the heap of the highest priority, the earliest RunAt
  among those, never before its RunAt; the rest of the heap stays.
\<close>

theorem dequeue_takes_best:
  assumes r: "reachable oor s" and deq: "dequeue_turn (s_queue s) = (Got a, q')"
  shows "mset (q_pending (s_queue s)) = add_mset a (mset (q_pending q')) \<and>
    (\<forall>b \<in> set (q_pending (s_queue s)).
       j_Priority (q_jobs (s_queue s) b) < j_Priority (q_jobs (s_queue s) a) \<or>
       j_Priority (q_jobs (s_queue s) b) = j_Priority (q_jobs (s_queue s) a) \<and>
       j_RunAt (q_jobs (s_queue s) a) \<le> j_RunAt (q_jobs (s_queue s) b)) \<and>
    j_RunAt (q_jobs (s_queue s) a) \<le> s_now s \<and>
    j_Status (q_jobs q' a) = StatusProcessing"
proof -
  from deq obtain p where pop: "heap_pop (job_less (q_jobs (s_queue s))) (q_pending (s_queue s)) = Some (a, p)"
    and q': "q' = upd_job a (\<lambda>j. j\<lparr>j_Status := StatusProcessing\<rparr>) (s_queue s\<lparr>q_pending := p\<rparr>)"
    by (auto simp: dequeue_turn_cases popPending_Some)
  have inv: "ordered (s_queue s)" "pending_due (s_now s) (s_queue s)"
    using reachable_sys_inv [OF r] inv_butD(1) by (auto simp: sys_inv_def queue_inv_def)
  have "\<not> job_less (q_jobs (s_queue s)) b a" if "b \<in> set (q_pending (s_queue s))" for b
    using job_heap.heap_pop_minimal [OF _ pop that] inv(1) by (simp add: ordered_def)
  then have best: "\<forall>b \<in> set (q_pending (s_queue s)).
      j_Priority (q_jobs (s_queue s) b) < j_Priority (q_jobs (s_queue s) a) \<or>
      j_Priority (q_jobs (s_queue s) b) = j_Priority (q_jobs (s_queue s) a) \<and>
      j_RunAt (q_jobs (s_queue s) a) \<le> j_RunAt (q_jobs (s_queue s) b)"
    by (fastforce simp: job_less_def split: if_splits)
  show ?thesis
    using heap_pop_Some(2) [OF pop] best inv(2) heap_pop_set [OF pop]
    by (simp add: q' pending_due_def)
qed

text \<open>The state in which both sample jobs wait, the one of priority 3 and the one of priority 1.\<close>

definition waiting_sys :: "unit sys" where
  "waiting_sys = after 0 [LEnqueue 0 20 20, LEnqueue 1 21 21] sample_init"

theorem dequeue_takes_best_witness:
  "j_Priority (q_jobs (s_queue waiting_sys) 1) = 3 \<and> 0 \<in> set (q_pending (s_queue waiting_sys)) \<and>
   j_RunAt (q_jobs (s_queue waiting_sys) 1) \<le> s_now waiting_sys"
proof -
  have "fst (dequeue_turn (s_queue waiting_sys)) = Got 1" by code_simp
  then obtain q' where "dequeue_turn (s_queue waiting_sys) = (Got 1, q')" by (metis prod.collapse)
  from dequeue_takes_best [OF sample_reachable [of "[LEnqueue 0 20 20, LEnqueue 1 21 21]", folded waiting_sys_def] this]
  have "j_RunAt (q_jobs (s_queue waiting_sys) 1) \<le> s_now waiting_sys" by simp
  moreover have "j_Priority (q_jobs (s_queue waiting_sys) 1) = 3 \<and> 0 \<in> set (q_pending (s_queue waiting_sys))"
    by code_simp
  ultimately show ?thesis by simp
qed

text \<open>
  C3. The handler of a job is called at most MaxAttempts times, and the field Attempt counts the
  calls.  A job is dead only after all of them or when its type has no handler; a completed job
  has been handled at least once.
\<close>

theorem attempts_bounded:
  assumes "reachable oor s" and "known (s_queue s) a"
  shows "int (s_calls s a) = j_Attempt (q_jobs (s_queue s) a) \<and>
    int (s_calls s a) \<le> j_MaxAttempts (q_jobs (s_queue s) a) \<and>
    (j_Status (q_jobs (s_queue s) a) = StatusDead \<longrightarrow>
       int (s_calls s a) = j_MaxAttempts (q_jobs (s_queue s) a) \<or>
       \<not> s_types s (j_Type (q_jobs (s_queue s) a))) \<and>
    (j_Status (q_jobs (s_queue s) a) = StatusCompleted \<longrightarrow> 1 \<le> s_calls s a)"
proof -
  have "attempts_ok s" using reachable_sys_inv [OF assms(1)] by (simp add: sys_inv_def)
  from attempts_okD [OF this, of a] assms(2) show ?thesis by (auto simp: job_ok_def)
qed

text \<open>A job with two attempts fails twice: the second failure sends it to the dead-letter queue.\<close>

definition dead_labels :: "unit label list" where
  "dead_labels = sample_labels @
     [LReturn 0 (Some ''boom'') 30 30, LSchedTop 31, LArm 31, LSchedSelect (SWTimer (30 + second)), LPromote, LPing,
      LTop 0, LStart 0, LReturn 0 (Some ''boom'') (40 + second) (40 + second)]"

definition dead_sys :: "unit sys" where
  "dead_sys = after 0 dead_labels sample_init"

theorem attempts_bounded_witness:
  "s_calls dead_sys 1 = 2 \<and> j_Status (q_jobs (s_queue dead_sys) 1) = StatusDead"
proof -
  have k: "known (s_queue dead_sys) 1" by code_simp
  have d: "j_Status (q_jobs (s_queue dead_sys) 1) = StatusDead"
    and "j_MaxAttempts (q_jobs (s_queue dead_sys) 1) = 2"
    and "s_types dead_sys (j_Type (q_jobs (s_queue dead_sys) 1))"
    by code_simp+
  with attempts_bounded [OF sample_reachable [of dead_labels, folded dead_sys_def] k] show ?thesis by simp
qed

section \<open>Signals\<close>

text \<open>
  C4. No wake-up is lost: while the pool is not shutting down and the heap holds a job, some
  worker can move (it is about to look at the heap, about to start the job it holds, or parked
  with a signal buffered) or is inside a handler, or the scheduler is about to send the signal for
  the jobs it has just promoted.
\<close>

theorem pending_job_has_worker:
  assumes "reachable oor s" and "s_workers s \<noteq> []" and "\<not> s_cancelled s"
    and "\<not> q_closed (s_queue s)" and "q_pending (s_queue s) \<noteq> []"
  shows "fire oor LPing s \<noteq> None \<or> (\<exists>i < length (s_workers s).
    fire oor (LTop i) s \<noteq> None \<or> fire oor (LStart i) s \<noteq> None \<or>
    fire oor (LSelect i WakeNotify) s \<noteq> None \<or> (\<exists>a. s_workers s ! i = WHandler a))"
proof (cases "s_sched s = SPing")
  case True
  then show ?thesis by simp
next
  case False
  have "no_lost_wakeup s" and "no_early_exit s"
    using reachable_sys_inv [OF assms(1)] by (simp_all add: sys_inv_def)
  then have "q_notify (s_queue s) \<or> (\<exists>w \<in> set (s_workers s). awake w)"
    and ex: "WExit \<notin> set (s_workers s)"
    using assms False by (auto simp: no_lost_wakeup_def no_early_exit_def)
  moreover have "\<exists>w \<in> set (s_workers s). True" using assms(2) by (cases "s_workers s") auto
  ultimately obtain i where i: "i < length (s_workers s)"
    and w: "awake (s_workers s ! i) \<or> q_notify (s_queue s)"
    by (metis in_set_conv_nth)
  have "s_workers s ! i \<noteq> WExit" using ex i by (metis nth_mem)
  then have "fire oor (LTop i) s \<noteq> None \<or> fire oor (LStart i) s \<noteq> None \<or>
      fire oor (LSelect i WakeNotify) s \<noteq> None \<or> (\<exists>a. s_workers s ! i = WHandler a)"
    using i w by (cases "s_workers s ! i") (auto simp: awake_def split: prod.split bool.split)
  with i show ?thesis by blast
qed

theorem pending_job_has_worker_witness:
  "s_sched sample_sys = STop \<and> (\<exists>i < length (s_workers sample_sys).
    fire 0 (LTop i) sample_sys \<noteq> None \<or> fire 0 (LStart i) sample_sys \<noteq> None \<or>
    fire 0 (LSelect i WakeNotify) sample_sys \<noteq> None \<or> (\<exists>a. s_workers sample_sys ! i = WHandler a))"
proof -
  have sc: "s_sched sample_sys = STop" by code_simp
  have "s_workers sample_sys \<noteq> []" "\<not> s_cancelled sample_sys" "\<not> q_closed (s_queue sample_sys)"
    "q_pending (s_queue sample_sys) \<noteq> []"
    by code_simp+
  from pending_job_has_worker [OF sample_reachable [of sample_labels, folded sample_sys_def] this] sc
  show ?thesis by simp
qed

text \<open>
  What the one-slot channel does lose: two jobs enqueued while two workers are parked wake
  one worker only.  There is a reachable state with a ready job in the heap, one worker inside a
  handler and the other parked with no signal that could wake it.
\<close>

theorem idle_worker_beside_ready_job:
  "\<exists>s :: unit sys. reachable 0 s \<and> s_workers s = [WHandler 1, WParked] \<and>
     q_pending (s_queue s) = [0] \<and> job_ready (s_now s) (q_jobs (s_queue s) 0) \<and>
     (\<forall>c. fire 0 (LSelect 1 c) s = None)"
proof -
  have "s_workers sample_sys = [WHandler 1, WParked]" "q_pending (s_queue sample_sys) = [0]"
    "job_ready (s_now sample_sys) (q_jobs (s_queue sample_sys) 0)"
    "\<not> q_notify (s_queue sample_sys)" "\<not> s_cancelled sample_sys" "\<not> q_closeCh (s_queue sample_sys)"
    by code_simp+
  moreover from this have "fire 0 (LSelect 1 c) sample_sys = None" for c
    by (cases c) simp_all
  ultimately show ?thesis
    using sample_reachable [of sample_labels, folded sample_sys_def] by blast
qed

text \<open>
  C6. The scheduler never oversleeps: parked with no reschedule signal buffered and its timer
  still to fire, it wakes no later than the RunAt of every scheduled job, plus the time that passed
  between its look at the list and the start of the timer.  When it promotes, exactly
  the jobs due at its clock reading leave the list for the heap, and it goes on to ping unless
  there were none.
\<close>

theorem scheduler_on_time:
  assumes "reachable oor s"
  shows "(s_sched s = SParked d late \<longrightarrow> q_reschedule (s_queue s) \<or> d \<le> s_now s \<or>
      (\<forall>a \<in> set (q_scheduled (s_queue s)). d \<le> j_RunAt (q_jobs (s_queue s) a) + late)) \<and>
    (s_sched s = SPromote t \<longrightarrow> fire oor LPromote s = Some s' \<longrightarrow> t \<le> s_now s \<and>
      q_scheduled (s_queue s') =
        filter (\<lambda>a. t < j_RunAt (q_jobs (s_queue s) a)) (q_scheduled (s_queue s)) \<and>
      mset (q_pending (s_queue s')) = mset (q_pending (s_queue s)) +
        mset (filter (\<lambda>a. j_RunAt (q_jobs (s_queue s) a) \<le> t) (q_scheduled (s_queue s))) \<and>
      (s_sched s' = SPing \<or> s_sched s' = STop \<and> q_pending (s_queue s') = q_pending (s_queue s)))"
proof -
  have inv: "queue_inv (s_queue s) (inflight (s_workers s))" and t: "timer_ok s" "promote_time_ok s"
    using reachable_sys_inv [OF assms] by (simp_all add: sys_inv_def)
  obtain n q where p: "promote_loop t (q_scheduled (s_queue s)) (s_queue s) = (n, q)" by fastforce
  note S = promote_loop_spec [OF queue_inv_sorted [OF inv] refl p]
  have "n = 0 \<Longrightarrow> q_pending q = q_pending (s_queue s)"
    using p by (cases "q_scheduled (s_queue s)") (auto split: if_splits prod.splits)
  then have q: "s_queue s' = q \<and> (s_sched s' = SPing \<or> s_sched s' = STop \<and> q_pending q = q_pending (s_queue s))"
    if "s_sched s = SPromote t" "fire oor LPromote s = Some s'"
    using p that by (cases n) auto
  show ?thesis
  proof (rule conjI; intro impI)
    assume "s_sched s = SParked d late"
    then have "d \<le> s_now s \<or> none_before s (d - late)" using t(1) unfolding timer_ok_def by blast
    then show "q_reschedule (s_queue s) \<or> d \<le> s_now s \<or>
        (\<forall>a \<in> set (q_scheduled (s_queue s)). d \<le> j_RunAt (q_jobs (s_queue s) a) + late)"
      unfolding none_before_def by (auto simp: algebra_simps)
  next
    assume sc: "s_sched s = SPromote t" and st: "fire oor LPromote s = Some s'"
    have "t \<le> s_now s" using t(2) sc unfolding promote_time_ok_def by blast
    then show "t \<le> s_now s \<and>
        q_scheduled (s_queue s') = filter (\<lambda>a. t < j_RunAt (q_jobs (s_queue s) a)) (q_scheduled (s_queue s)) \<and>
        mset (q_pending (s_queue s')) = mset (q_pending (s_queue s)) +
          mset (filter (\<lambda>a. j_RunAt (q_jobs (s_queue s) a) \<le> t) (q_scheduled (s_queue s))) \<and>
        (s_sched s' = SPing \<or> s_sched s' = STop \<and> q_pending (s_queue s') = q_pending (s_queue s))"
      using S q [OF sc st] by blast
  qed
qed

definition parked_labels :: "unit label list" where
  "parked_labels = [LSchedule 0 100 20 20 20, LSchedTop 21, LArm 21, LSchedSelect SWReschedule, LSchedTop 22, LArm 25]"

definition parked_sys :: "unit sys" where
  "parked_sys = after 0 parked_labels sample_init"

theorem scheduler_on_time_witness:
  "s_sched parked_sys = SParked 123 3 \<and> q_scheduled (s_queue parked_sys) = [0] \<and>
   123 \<le> j_RunAt (q_jobs (s_queue parked_sys) 0) + 3"
proof -
  have s: "s_sched parked_sys = SParked 123 3" "q_scheduled (s_queue parked_sys) = [0]"
    "\<not> q_reschedule (s_queue parked_sys)" "\<not> 123 \<le> s_now parked_sys"
    by code_simp+
  from scheduler_on_time [OF sample_reachable [of parked_labels, folded parked_sys_def], of 123 3] s
  show ?thesis by auto
qed

section \<open>Enqueue and Schedule\<close>

text \<open>
  C8. Enqueue on every branch.  It fails for an empty ID, an empty type, a closed queue and a
  known ID, in this order, and then leaves the heap, the list and the map alone; otherwise the
  job is known, pending, allowed at least one attempt, and waits in exactly one of the heap (if
  its RunAt has come) and the scheduled list, with the matching goroutine signalled.
\<close>

theorem Enqueue_branches:
  assumes inv: "queue_inv q fl" and enq: "Enqueue a t1 t2 q = (r, q')"
  shows "r = (if j_ID (q_jobs q a) = '''' then Some ErrEmptyID
       else if j_Type (q_jobs q a) = '''' then Some ErrEmptyType
       else if q_closed q then Some ErrQueueClosed
       else if q_all q (j_ID (q_jobs q a)) \<noteq> None then Some ErrDuplicateJob else None) \<and>
    (r \<noteq> None \<longrightarrow> q_pending q' = q_pending q \<and> q_scheduled q' = q_scheduled q \<and> q_all q' = q_all q) \<and>
    (r = None \<longrightarrow> known q' a \<and> j_Status (q_jobs q' a) = StatusPending \<and>
       1 \<le> j_MaxAttempts (q_jobs q' a) \<and> j_RunAt (q_jobs q' a) =
         (if j_RunAt (q_jobs q a) = zero_time then t1 else j_RunAt (q_jobs q a)) \<and>
       (if j_RunAt (q_jobs q' a) \<le> t2
        then mset (q_pending q') = add_mset a (mset (q_pending q)) \<and>
             q_scheduled q' = q_scheduled q \<and> q_notify q'
        else mset (q_scheduled q') = add_mset a (mset (q_scheduled q)) \<and>
             q_pending q' = q_pending q \<and> q_reschedule q')) \<and>
    queue_inv q' fl"
proof (cases r)
  case None
  then have acc: "j_ID (q_jobs q a) \<noteq> ''''" "j_Type (q_jobs q a) \<noteq> ''''" "\<not> q_closed q"
    "q_all q (j_ID (q_jobs q a)) = None"
    using Enqueue_cases [of a t1 t2 q] enq by (auto split: if_splits)
  have "q' = place_job a t2 (register a (upd_job a (accepted_job t1) q))"
    using Enqueue_accept [OF acc] enq by simp
  then show ?thesis
    using None acc Enqueue_inv [OF inv, of a t1 t2] enq
    by (auto simp: place_job_def known_def job_ready_def accepted_job_def)
next
  case (Some e)
  then show ?thesis
    using Enqueue_cases [of a t1 t2 q] Enqueue_reject [of a t1 t2 q e] Enqueue_inv [OF inv, of a t1 t2] enq
    by (auto split: if_splits)
qed

definition one_job_queue :: "unit queue" where
  "one_job_queue = NewQueue (\<lambda>a. sample_job (if a = 0 then ''a'' else ''b'') 1 0)"

lemma one_job_queue_inv: "queue_inv one_job_queue []"
  unfolding one_job_queue_def by (rule NewQueue_inv)

theorem Enqueue_branches_witness:
  "known (snd (Enqueue 0 20 21 one_job_queue)) 0 \<and> queue_inv (snd (Enqueue 0 20 21 one_job_queue)) []
   \<and> 1 \<le> j_MaxAttempts (q_jobs (snd (Enqueue 0 20 21 one_job_queue)) 0)"
proof -
  obtain r q' where e: "Enqueue 0 20 21 one_job_queue = (r, q')" by fastforce
  have "fst (Enqueue 0 20 21 one_job_queue) = None" by code_simp
  then have "r = None" using e by simp
  with Enqueue_branches [OF one_job_queue_inv e] e show ?thesis by simp
qed

text \<open>The promotion takes the due jobs off the front of the list and stops at the first that is not due.\<close>

lemma promoteReady_dropWhile:
  "q_scheduled (promoteReady now q) = dropWhile (\<lambda>b. j_RunAt (q_jobs q b) \<le> now) (q_scheduled q)"
proof -
  have "q_scheduled p = xs \<Longrightarrow>
      q_scheduled (snd (promote_loop now xs p)) = dropWhile (\<lambda>b. j_RunAt (q_jobs p b) \<le> now) xs" for p :: "'a queue" and xs
    by (induction xs arbitrary: p) (auto simp: case_prod_beta)
  then show ?thesis by (simp add: promoteReady_def case_prod_beta)
qed

text \<open>A new RunAt of a job that waits in the scheduled list: the heap is not concerned, and the list is
  sorted only if the new moment fits where the job stands.\<close>

lemma rescheduled_ordered:
  assumes inv: "queue_inv q fl" and sp: "q_scheduled q = xs @ a # ys"
  shows "ordered (upd_job a (\<lambda>j. j\<lparr>j_RunAt := m\<rparr>) q) \<longleftrightarrow>
    (\<forall>b \<in> set xs. j_RunAt (q_jobs q b) \<le> m) \<and> (\<forall>b \<in> set ys. m \<le> j_RunAt (q_jobs q b))"
proof -
  let ?q = "upd_job a (\<lambda>j. j\<lparr>j_RunAt := m\<rparr>) q"
  have i: "inv_but {} q fl" using inv by (simp add: queue_inv_def)
  have d: "a \<notin> set (q_pending q)" "a \<notin> set xs" "a \<notin> set ys"
    using inv_butD(3) [OF i] sp by (auto simp: places_def)
  have ord: "heap_ordered (job_less (q_jobs q)) (q_pending q)"
    and srt: "sorted (map (\<lambda>b. j_RunAt (q_jobs q b)) xs @ j_RunAt (q_jobs q a) # map (\<lambda>b. j_RunAt (q_jobs q b)) ys)"
    using inv_butD(1) [OF i] sp by (simp_all add: ordered_def)
  have "heap_ordered (job_less (q_jobs ?q)) (q_pending q)"
    using ord d(1) by (subst heap_ordered_cong [of _ _ "job_less (q_jobs q)"]) (auto simp: job_less_def)
  moreover have "map (\<lambda>b. j_RunAt (q_jobs ?q b)) (q_scheduled ?q) =
      map (\<lambda>b. j_RunAt (q_jobs q b)) xs @ m # map (\<lambda>b. j_RunAt (q_jobs q b)) ys"
    using sp d(2,3) by (auto intro!: map_cong)
  moreover have "q_pending ?q = q_pending q" by simp
  ultimately show ?thesis
    using srt unfolding ordered_def by (simp only:) (auto simp: sorted_append)
qed

text \<open>
  C9. Scheduling a job a second time is not harmless: \<open>Schedule\<close> and \<open>ScheduleAt\<close> write RunAt before
  \<open>Enqueue\<close> reports the duplicate.  In any open queue, called for a job \<open>a\<close> that waits in the scheduled
  list (behind \<open>xs\<close>, before \<open>ys\<close>), both return ErrDuplicateJob and yet move the job to the moment \<open>m\<close>
  without moving it in the list.  The list stays sorted only if \<open>m\<close> lies between its neighbours; and as
  long as \<open>m\<close> is in the future a promotion leaves behind every job of \<open>ys\<close>, those that are due included.
\<close>

theorem reschedule_breaks_order:
  assumes "queue_inv q fl" and "\<not> q_closed q" and "q_scheduled q = xs @ a # ys"
    and "j_ID (q_jobs q a) \<noteq> ''''" and "j_Type (q_jobs q a) \<noteq> ''''"
    and "Schedule a delay t0 t1 t2 q = (r, q') \<and> m = time_add t0 delay \<or> ScheduleAt a m t1 t2 q = (r, q')"
  shows "r = Some ErrDuplicateJob \<and> q' = upd_job a (\<lambda>j. j\<lparr>j_RunAt := m\<rparr>) q \<and>
    (ordered q' \<longleftrightarrow> (\<forall>b \<in> set xs. j_RunAt (q_jobs q b) \<le> m) \<and> (\<forall>b \<in> set ys. m \<le> j_RunAt (q_jobs q b))) \<and>
    (now < m \<longrightarrow> q_scheduled (promoteReady now q') = filter (\<lambda>b. now < j_RunAt (q_jobs q b)) xs @ a # ys)"
proof -
  let ?q = "upd_job a (\<lambda>j. j\<lparr>j_RunAt := m\<rparr>) q"
  have i: "inv_but {} q fl" using assms(1) by (simp add: queue_inv_def)
  have "a \<in> set (places q fl)" using assms(3) by (simp add: places_def)
  then have kn: "known q a" using inv_butD(4) [OF i] by blast
  then have max: "1 \<le> j_MaxAttempts (q_jobs q a)" using inv_butD(6) [OF i] by blast
  have call: "Enqueue a t1 t2 ?q = (r, q')" using assms(6) by (auto simp: Schedule_def ScheduleAt_def)
  have e: "fst (Enqueue a t1 t2 ?q) = Some ErrDuplicateJob"
    using assms(2,4,5) kn by (auto simp: Enqueue_cases known_def)
  have rq: "r = Some ErrDuplicateJob" "q' = ?q"
    using call e Enqueue_reject [OF e] max by (auto split: if_splits)
  have d: "a \<notin> set xs" using inv_butD(3) [OF i] assms(3) by (auto simp: places_def)
  have srt: "sorted (map (\<lambda>b. j_RunAt (q_jobs q b)) xs)"
    using inv_butD(1) [OF i] assms(3) by (simp add: ordered_def sorted_append)
  have "dropWhile (\<lambda>b. j_RunAt (q_jobs ?q b) \<le> now) (xs @ a # ys) = filter (\<lambda>b. now < j_RunAt (q_jobs q b)) xs @ a # ys"
    if "now < m" using srt d
  proof (induction xs)
    case (Cons b xs)
    then show ?case
      by (cases "j_RunAt (q_jobs q b) \<le> now") (auto intro!: filter_True [symmetric])
  qed (use that in simp)
  then show ?thesis
    using rq rescheduled_ordered [OF assms(1,3), of m] assms(3) by (simp add: promoteReady_dropWhile)
qed

text \<open>Jobs 0 and 1 are due at 120 and 220; job 0 is put off to 1050, and at 300 job 1 is left behind.\<close>

theorem reschedule_breaks_order_witness:
  "\<exists>(q :: unit queue) q'. Schedule 0 1000 50 50 50 q = (Some ErrDuplicateJob, q') \<and> \<not> ordered q' \<and>
     q_scheduled (promoteReady 300 q') = [0, 1] \<and> j_RunAt (q_jobs q' 1) = 220"
proof -
  let ?q = "snd (Schedule 1 200 20 20 20 (snd (Schedule 0 100 20 20 20 one_job_queue)))"
  have 1: "queue_inv (snd (Schedule 0 100 20 20 20 one_job_queue)) []"
    by (rule Schedule_inv(1) [OF one_job_queue_inv]) code_simp
  have inv: "queue_inv ?q []"
    by (rule Schedule_inv(1) [OF 1]) code_simp
  have q: "\<not> q_closed ?q" "q_scheduled ?q = [] @ 0 # [1]" "j_ID (q_jobs ?q 0) \<noteq> ''''" "j_Type (q_jobs ?q 0) \<noteq> ''''"
    "j_RunAt (q_jobs ?q 1) = 220" "time_add 50 1000 = 1050"
    by code_simp+
  obtain r q' where c: "Schedule 0 1000 50 50 50 ?q = (r, q')" by fastforce
  from reschedule_breaks_order [OF inv q(1-4), of 1000 50 50 50 r q' 1050 300] c q(5,6)
  show ?thesis by (intro exI [of _ ?q] exI [of _ q']) auto
qed

text \<open>
  A moment in the past stays in the job: \<open>ScheduleAt\<close> puts the job in the heap with the RunAt it was
  given, not the current time, so it goes before jobs of its priority that became due since.
\<close>

theorem ScheduleAt_past:
  assumes "ScheduleAt a at t1 t2 q = (None, q')" and "at \<noteq> zero_time" and "at \<le> t2"
  shows "j_RunAt (q_jobs q' a) = at \<and> a \<in> set (q_pending q')"
proof -
  let ?q = "upd_job a (\<lambda>j. j\<lparr>j_RunAt := at\<rparr>) q"
  have "Enqueue a t1 t2 ?q = (None, q')" using assms(1) by (simp add: ScheduleAt_def)
  moreover from this have acc: "j_ID (q_jobs ?q a) \<noteq> ''''" "j_Type (q_jobs ?q a) \<noteq> ''''" "\<not> q_closed ?q"
    "q_all ?q (j_ID (q_jobs ?q a)) = None"
    using Enqueue_cases [of a t1 t2 ?q] by (auto split: if_splits)
  ultimately have "q' = place_job a t2 (register a (upd_job a (accepted_job t1) ?q))"
    using Enqueue_accept [OF acc] by simp
  then show ?thesis
    using assms(2,3) by (auto simp: place_job_def job_ready_def accepted_job_def)
qed

theorem ScheduleAt_past_witness:
  "j_RunAt (q_jobs (snd (ScheduleAt 0 20 30 30 one_job_queue)) 0) = 20"
proof -
  have "fst (ScheduleAt 0 20 30 30 one_job_queue) = None" by code_simp
  then obtain q' where q: "ScheduleAt 0 20 30 30 one_job_queue = (None, q')" by (metis prod.collapse)
  from ScheduleAt_past [OF this] q show ?thesis by (simp add: zero_time_def)
qed

section \<open>Retry delay\<close>

text \<open>The product as the machine computes it, and the attempts for which it does not overflow.\<close>

lemma backoff_wraps:
  assumes "1 \<le> attempt" and "attempt \<le> 63"
  shows "backoff oor attempt = min (i64 (second * 2 ^ nat (attempt - 1))) backoff_cap"
proof -
  have "in_i64 (attempt - 1)" using assms by (simp add: in_i64_def)
  then have "pow2_duration oor (i64 (attempt - 1)) = 2 ^ nat (attempt - 1)"
    using assms by (simp add: pow2_duration_def)
  then show ?thesis by (simp add: backoff_def Let_def min_def)
qed

lemma backoff_doubles:
  assumes "1 \<le> attempt" and "attempt \<le> 34"
  shows "backoff oor attempt = min (2 ^ nat (attempt - 1) * second) (5 * 60 * second)"
proof -
  have "(2 :: int) ^ nat (attempt - 1) \<le> 2 ^ 33"
    using assms by (intro power_increasing) auto
  moreover have "in_i64 (second * x)" if "0 < x" "x \<le> 2 ^ 33" for x
    using that by (simp add: in_i64_def second_def)
  ultimately have "in_i64 (second * 2 ^ nat (attempt - 1))" by simp
  then show ?thesis using assms by (simp add: backoff_wraps backoff_cap_def mult.commute)
qed

text \<open>The product of the attempts 35 to 55 wraps: for eight of them to something above the cap, for the
  others to something negative.\<close>

definition capped_by_luck :: "int list" where
  "capped_by_luck = [38, 42, 43, 46, 48, 51, 52, 54]"

lemma backoff_overflow_table:
  "list_all (\<lambda>a. if a \<in> set capped_by_luck then backoff_cap < i64 (second * 2 ^ nat (a - 1))
     else i64 (second * 2 ^ nat (a - 1)) < 0) [35..55]"
  by code_simp

lemma backoff_product_zero:
  assumes "56 \<le> attempt"
  shows "i64 (second * 2 ^ nat (attempt - 1)) = 0"
proof -
  have "nat (attempt - 1) = 55 + nat (attempt - 56)" using assms by simp
  then have "second * 2 ^ nat (attempt - 1) = 2 ^ 64 * (1953125 * 2 ^ nat (attempt - 56))"
    by (simp add: second_def power_add)
  then have "(second * 2 ^ nat (attempt - 1)) mod 2 ^ 64 = 0 mod 2 ^ 64" by simp
  then have "i64 (second * 2 ^ nat (attempt - 1)) = i64 0" by (simp only: i64_eq_iff)
  then show ?thesis by (simp add: in_i64_def)
qed

text \<open>
  C10. The retry delay of every attempt.  Up to attempt 34 it is the documented one: it doubles from one
  second and is capped at five minutes.  From attempt 35 on the product overflows the 64-bit Duration
  before the cap is applied: up to 55 the delay is the wrapped product under the cap, which is the cap
  for the eight attempts of \<open>capped_by_luck\<close> and negative for the other thirteen; from 56 to 63 it is
  zero; and from 64 on, where the power of two does not fit in a Duration either, it is what the
  platform's conversion (\<open>oor\<close>) gives, times a second, under the cap.
\<close>

theorem backoff_schedule:
  assumes "1 \<le> attempt" and "attempt < 2 ^ 63"
  shows "backoff oor attempt =
      (if attempt \<le> 34 then min (2 ^ nat (attempt - 1) * second) (5 * 60 * second)
       else if attempt \<le> 55 then min (i64 (second * 2 ^ nat (attempt - 1))) (5 * 60 * second)
       else if attempt \<le> 63 then 0
       else min (i64 (second * oor)) (5 * 60 * second)) \<and>
    (35 \<le> attempt \<longrightarrow> attempt \<le> 55 \<longrightarrow>
       (if attempt \<in> set capped_by_luck then backoff oor attempt = 5 * 60 * second else backoff oor attempt < 0))"
proof -
  have late: "backoff oor attempt = min (i64 (second * oor)) backoff_cap" if "63 < attempt"
  proof -
    have "in_i64 (attempt - 1)" using that assms by (simp add: in_i64_def)
    then show ?thesis using that by (simp add: backoff_def Let_def pow2_duration_def min_def)
  qed
  have table: "if attempt \<in> set capped_by_luck then backoff_cap < i64 (second * 2 ^ nat (attempt - 1))
      else i64 (second * 2 ^ nat (attempt - 1)) < 0" if "35 \<le> attempt" "attempt \<le> 55"
  proof -
    have "attempt \<in> set [35..55]" using that by (simp only: set_upto atLeastAtMost_iff)
    with backoff_overflow_table show ?thesis unfolding list_all_iff by (rule bspec)
  qed
  have cap: "300 * second = backoff_cap" "0 < backoff_cap" by (simp_all add: backoff_cap_def second_def)
  then show ?thesis
    using assms(1) late table backoff_doubles [of attempt oor] backoff_wraps [of attempt oor]
      backoff_product_zero [of attempt]
      cap
    by (auto split: if_splits)
qed

text \<open>With the two usual conversions, to the least or to the greatest Duration, the delay of attempt 64
  is zero or one second in the past.\<close>

theorem backoff_schedule_witness:
  "backoff 0 4 = 8 * second \<and> backoff 0 35 < 0 \<and> backoff 0 38 = 300 * second \<and> backoff 0 60 = 0 \<and>
   backoff (- (2 ^ 63)) 64 = 0 \<and> backoff (2 ^ 63 - 1) 64 = - second"
proof -
  have "35 \<notin> set capped_by_luck" "38 \<in> set capped_by_luck" by (simp_all add: capped_by_luck_def)
  moreover have "i64 (second * (- (2 ^ 63))) = 0" "i64 (second * (2 ^ 63 - 1)) = - second" by code_simp+
  ultimately show ?thesis
    using backoff_schedule [of 4 0] backoff_schedule [of 35 0] backoff_schedule [of 38 0] backoff_schedule [of 60 0]
      backoff_schedule [of 64 "- (2 ^ 63)"] backoff_schedule [of 64 "2 ^ 63 - 1"]
    by (simp add: second_def)
qed

end
