(* ===== verification/JobShutdown.thy ===== *)
theory JobShutdown
  imports JobProperties
begin

text \<open>
  Shutting the pool down: \<open>Dispatcher.Wait\<close> of \<open>system-design/job-queue/dispatcher.go\<close> after
  \<open>Queue.Close\<close>.  The waiting group counts the workers that have not left \<open>runWorker\<close>.  On a
  closed queue every step of a worker uses up something that nobody can refill: a position on the
  way out, or one of the attempts the jobs have left.
\<close>

section \<open>Waiting for the workers\<close>

text \<open>\<open>d.wg\<close>: one for each goroutine \<open>Start\<close> has launched, less one for each that returned.\<close>

definition wg_counter :: "worker list \<Rightarrow> nat" where
  "wg_counter ws = length (filter (\<lambda>w. w \<noteq> WExit) ws)"

definition Wait_returns :: "'p sys \<Rightarrow> bool" where
  "Wait_returns s \<longleftrightarrow> wg_counter (s_workers s) = 0"

lemma Wait_returns_iff: "Wait_returns s \<longleftrightarrow> (\<forall>w \<in> set (s_workers s). w = WExit)"
  by (auto simp: Wait_returns_def wg_counter_def filter_empty_conv)

fun worker_step :: "'p label \<Rightarrow> bool" where
  "worker_step (LTop i) = True"
| "worker_step (LSelect i c) = True"
| "worker_step (LStart i) = True"
| "worker_step (LReturn i err t1 t2) = True"
| "worker_step _ = False"

section \<open>The measure\<close>

definition live :: "'p queue \<Rightarrow> addr list \<Rightarrow> addr list" where
  "live q fl = q_pending q @ q_scheduled q @ fl"

definition attempts_left :: "'p queue \<Rightarrow> addr \<Rightarrow> nat" where
  "attempts_left q a = nat (j_MaxAttempts (q_jobs q a) - j_Attempt (q_jobs q a))"

definition live_attempts :: "'p queue \<Rightarrow> addr list \<Rightarrow> nat" where
  "live_attempts q fl = sum_list (map (attempts_left q) (live q fl))"

fun steps_out :: "worker \<Rightarrow> nat" where
  "steps_out WExit = 0"
| "steps_out (WHolds a) = 2"
| "steps_out WTop = 3"
| "steps_out WParked = 4"
| "steps_out (WHandler a) = 4"

definition shutdown_measure :: "'p sys \<Rightarrow> nat" where
  "shutdown_measure s =
     sum_list (map steps_out (s_workers s)) + 4 * live_attempts (s_queue s) (inflight (s_workers s))"

lemma live_distinct: "queue_inv q fl \<Longrightarrow> distinct (live q fl)"
  using inv_butD(3) [of "{}" q fl] by (auto simp: queue_inv_def places_def live_def)

lemma live_attempts_sum:
  "queue_inv q fl \<Longrightarrow> live_attempts q fl = sum (attempts_left q) (set (live q fl))"
  unfolding live_attempts_def by (rule sum_list_distinct_conv_sum_set [OF live_distinct])

lemma live_attempts_mono:
  assumes "queue_inv q fl" and "queue_inv q' fl'" and "set (live q' fl') \<subseteq> set (live q fl)"
    and "\<And>b. b \<in> set (live q' fl') \<Longrightarrow> attempts_left q' b \<le> attempts_left q b"
  shows "live_attempts q' fl' \<le> live_attempts q fl"
proof -
  have "sum (attempts_left q') (set (live q' fl')) \<le> sum (attempts_left q) (set (live q' fl'))"
    using assms(4) by (rule sum_mono)
  also have "\<dots> \<le> sum (attempts_left q) (set (live q fl))"
    using assms(3) by (intro sum_mono2) auto
  finally show ?thesis by (simp add: live_attempts_sum assms(1,2))
qed

text \<open>A live job of which an attempt is used up, or that leaves.\<close>

lemma live_attempts_drop:
  assumes inv: "queue_inv q fl" "queue_inv q' fl'" and sub: "set (live q' fl') \<subseteq> set (live q fl)"
    and a: "a \<in> set (live q fl)"
      "(if a \<in> set (live q' fl') then attempts_left q' a else 0) < attempts_left q a"
    and others: "\<And>b. b \<noteq> a \<Longrightarrow> attempts_left q' b = attempts_left q b"
  shows "live_attempts q' fl' < live_attempts q fl"
proof -
  let ?f = "\<lambda>b. if b \<in> set (live q' fl') then attempts_left q' b else 0"
  have "sum (attempts_left q') (set (live q' fl')) = sum ?f (set (live q' fl'))"
    by (intro sum.cong) auto
  also have "\<dots> = sum ?f (set (live q fl))"
    using sub by (intro sum.mono_neutral_left) auto
  also have "\<dots> < sum (attempts_left q) (set (live q fl))"
  proof (rule sum_strict_mono_ex1)
    show "\<forall>b \<in> set (live q fl). ?f b \<le> attempts_left q b"
    proof
      fix b show "?f b \<le> attempts_left q b" using a(2) others [of b] by (cases "b = a") (auto split: if_splits)
    qed
    show "\<exists>b \<in> set (live q fl). ?f b < attempts_left q b" using a by blast
  qed simp
  finally show ?thesis by (simp add: live_attempts_sum inv)
qed

lemma steps_out_update:
  "i < length ws \<Longrightarrow>
   sum_list (map steps_out (ws[i := w])) + steps_out (ws ! i) = sum_list (map steps_out ws) + steps_out w"
  using elem_le_sum_list [of i "map steps_out ws"]
  by (simp add: map_update sum_list_update)

section \<open>What a step does to the measure\<close>

lemma inflight_drop_set:
  assumes "distinct (inflight ws)" and "i < length ws" and "worker_job (ws ! i) = [a]" and "worker_job w = []"
  shows "set (inflight (ws[i := w])) = set (inflight ws) - {a}"
proof -
  have m: "mset (inflight ws) = add_mset a (mset (inflight (ws[i := w])))"
    using mset_inflight_update [OF assms(2), of w] assms(3,4) by simp
  then have "set (inflight ws) = insert a (set (inflight (ws[i := w])))"
    by (metis set_mset_add_mset_insert set_mset_mset)
  moreover have "distinct (a # inflight (ws[i := w]))"
    using assms(1) m by (metis mset.simps(2) mset_eq_imp_distinct_iff)
  ultimately show ?thesis by auto
qed

lemma inflight_same_set:
  assumes "i < length ws" and "worker_job w = worker_job (ws ! i)"
  shows "set (inflight (ws[i := w])) = set (inflight ws)"
  using mset_inflight_update [OF assms(1), of w] assms(2) by (metis add_right_cancel set_mset_mset)

lemma inflight_distinct: "queue_inv q fl \<Longrightarrow> distinct fl"
  using live_distinct [of q fl] by (simp add: live_def)

lemma top_measure:
  assumes inv: "queue_inv q (inflight ws)" and inv': "queue_inv q' (inflight (ws[i := w]))"
    and i: "i < length ws" "ws ! i = WTop" and closed: "q_closed q" and top: "worker_top q = (w, q')"
  shows "steps_out w < steps_out (ws ! i)"
    and "live_attempts q' (inflight (ws[i := w])) \<le> live_attempts q (inflight ws)"
proof -
  consider a p where "heap_pop (job_less (q_jobs q)) (q_pending q) = Some (a, p)" "w = WHolds a"
      "q' = upd_job a (\<lambda>j. j\<lparr>j_Status := StatusProcessing\<rparr>) (q\<lparr>q_pending := p\<rparr>)"
    | "w = WExit" "q' = q"
  proof (cases "dequeue_turn q")
    case (Pair r q0)
    with top closed show thesis
      using that by (cases r) (auto simp: worker_top_def dequeue_turn_cases popPending_Some)
  qed
  then have "steps_out w < steps_out (ws ! i) \<and>
    live_attempts q' (inflight (ws[i := w])) \<le> live_attempts q (inflight ws)"
  proof cases
    case 1
    have "mset (inflight (ws[i := w])) = add_mset a (mset (inflight ws))"
      using mset_inflight_update [OF i(1), of w] i(2) 1(2) by simp
    then have "set (inflight (ws[i := w])) = insert a (set (inflight ws))"
      by (metis set_mset_add_mset_insert set_mset_mset)
    then have "set (live q' (inflight (ws[i := w]))) = set (live q (inflight ws))"
      using heap_pop_set [OF 1(1)] 1(3) by (auto simp: live_def)
    then have "live_attempts q' (inflight (ws[i := w])) \<le> live_attempts q (inflight ws)"
      by (intro live_attempts_mono [OF inv inv']) (auto simp: attempts_left_def 1(3))
    then show ?thesis using 1 i by simp
  next
    case 2
    then have "live_attempts q' (inflight (ws[i := w])) \<le> live_attempts q (inflight ws)"
      using inflight_same_set [OF i(1), of w] i
      by (intro live_attempts_mono [OF inv inv']) (auto simp: live_def)
    then show ?thesis using 2 i by simp
  qed
  then show "steps_out w < steps_out (ws ! i)"
    and "live_attempts q' (inflight (ws[i := w])) \<le> live_attempts q (inflight ws)" by simp_all
qed

lemma start_measure:
  assumes inv: "queue_inv q (inflight ws)" and inv': "queue_inv q' (inflight (ws[i := w]))"
    and i: "i < length ws" "ws ! i = WHolds a" and p: "process_start types a q = (run, q')"
    and w: "w = (if run then WHandler a else WTop)" and left: "0 < attempts_left q a"
    and bounds: "0 \<le> j_Attempt (q_jobs q a)" "in_i64 (j_MaxAttempts (q_jobs q a))"
  shows "live_attempts q' (inflight (ws[i := w])) < live_attempts q (inflight ws)"
    and "set (live q' (inflight (ws[i := w]))) \<subseteq> set (live q (inflight ws))"
proof -
  have a: "a \<in> set (inflight ws)" using i inflight_mem by fastforce
  then have al: "a \<in> set (live q (inflight ws))" by (simp add: live_def)
  have fl: "set (inflight (ws[i := w])) = (if run then set (inflight ws) else set (inflight ws) - {a})"
    using inflight_same_set [OF i(1), of w] inflight_drop_set [OF inflight_distinct [OF inv] i(1), of a w]
      i(2) w by (cases run) simp_all
  have q': "q_pending q' = q_pending q" "q_scheduled q' = q_scheduled q"
    using p by (auto simp: process_start_def split: if_splits)
  show sub: "set (live q' (inflight (ws[i := w]))) \<subseteq> set (live q (inflight ws))"
    by (auto simp: live_def fl q')
  have "(if a \<in> set (live q' (inflight (ws[i := w]))) then attempts_left q' a else 0) < attempts_left q a"
  proof (cases run)
    case True
    then have "j_Attempt (q_jobs q' a) = i64 (j_Attempt (q_jobs q a) + 1)"
      "j_MaxAttempts (q_jobs q' a) = j_MaxAttempts (q_jobs q a)"
      using p by (auto simp: process_start_def split: if_splits)
    moreover have "i64 (j_Attempt (q_jobs q a) + 1) = j_Attempt (q_jobs q a) + 1"
      using left bounds by (intro i64_id) (auto simp: attempts_left_def in_i64_def)
    ultimately show ?thesis using left by (auto simp: attempts_left_def)
  next
    case False
    then have "a \<notin> set (live q' (inflight (ws[i := w])))"
      using inflight_unplaced [OF inv a] by (simp add: live_def fl q')
    then show ?thesis using left by simp
  qed
  moreover have "attempts_left q' b = attempts_left q b" if "b \<noteq> a" for b
    using p that by (auto simp: attempts_left_def process_start_def split: if_splits)
  ultimately show "live_attempts q' (inflight (ws[i := w])) < live_attempts q (inflight ws)"
    using al sub by (intro live_attempts_drop [OF inv inv'])
qed

lemma finish_measure:
  assumes inv: "queue_inv q (inflight ws)" and i: "i < length ws" "ws ! i = WHandler a"
    and q': "q' = process_finish oor a err t1 t2 q" and inv': "queue_inv q' (inflight (ws[i := WTop]))"
  shows "live_attempts q' (inflight (ws[i := WTop])) \<le> live_attempts q (inflight ws)"
proof (rule live_attempts_mono [OF inv inv'])
  have "a \<in> set (inflight ws)" using i inflight_mem by fastforce
  moreover have "set (inflight (ws[i := WTop])) = set (inflight ws) - {a}"
    using inflight_drop_set [OF inflight_distinct [OF inv] i(1), of a WTop] i(2) by simp
  moreover have "set (q_pending q') \<subseteq> insert a (set (q_pending q))"
    "set (q_scheduled q') \<subseteq> insert a (set (q_scheduled q))"
    by (auto simp: q' process_finish_def requeue_eq place_job_def Let_def split: option.splits if_splits)
  ultimately show "set (live q' (inflight (ws[i := WTop]))) \<subseteq> set (live q (inflight ws))"
    unfolding live_def by auto
  show "attempts_left q' b \<le> attempts_left q b" for b
    by (auto simp: attempts_left_def q' process_finish_def requeue_eq Let_def split: option.splits)
qed

section \<open>Every step of a worker on a closed queue\<close>

lemma fire_closed:
  assumes inv: "queue_inv (s_queue s) fl" and "q_closed (s_queue s)" and "fire oor l s = Some s'"
  shows "q_closed (s_queue s')"
proof (cases l)
  case (LTop i)
  then show ?thesis
    using assms by (auto simp: set_worker_def split: if_splits prod.splits dest: worker_top_closed)
next
  case (LSelect i c)
  then show ?thesis
    using assms by (cases c) (auto simp: set_worker_def split: if_splits)
next
  case (LStart i)
  then show ?thesis
    using assms by (auto simp: set_worker_def split: if_splits worker.splits prod.splits bool.splits)
next
  case (LReturn i err t1 t2)
  then show ?thesis
    using assms by (auto simp: set_worker_def split: if_splits worker.splits)
next
  case (LSchedSelect c)
  then show ?thesis
    using assms by (cases c) (auto split: if_splits sched.splits)
next
  case LPromote
  from assms(3) [unfolded LPromote] obtain now n q
    where p: "promote_loop now (q_scheduled (s_queue s)) (s_queue s) = (n, q)"
      and s': "s' = s\<lparr>s_queue := q, s_sched := (if n > 0 then SPing else STop)\<rparr>" by (rule LPromote_step)
  then show ?thesis
    using promote_loop_spec [OF queue_inv_sorted [OF inv] refl p] assms(2) by simp
next
  case (LArm t)
  then show ?thesis using assms by (auto split: if_splits sched.splits)
qed (use assms in \<open>auto split: if_splits\<close>)

lemma update_measure:
  assumes "i < length ws" and "steps_out w < steps_out (ws ! i)" and "A' \<le> (A :: nat)"
  shows "sum_list (map steps_out (ws[i := w])) + 4 * A' < sum_list (map steps_out ws) + 4 * A"
  using steps_out_update [OF assms(1), of w] assms(2,3) by linarith

lemma held_attempts:
  assumes inv: "sys_inv s" and i: "i < length (s_workers s)" "s_workers s ! i = WHolds a"
  shows "0 < attempts_left (s_queue s) a" and "0 \<le> j_Attempt (q_jobs (s_queue s) a)"
    and "in_i64 (j_MaxAttempts (q_jobs (s_queue s) a))"
proof -
  have q: "queue_inv (s_queue s) (inflight (s_workers s))" and ok: "attempts_ok s"
    using inv by (simp_all add: sys_inv_def)
  have "WHolds a \<in> set (s_workers s)" using i by (metis nth_mem)
  moreover have "known (s_queue s) a"
    using i inflight_mem [of i "s_workers s" a] inflight_unplaced(4) [OF q] by simp
  ultimately show "0 < attempts_left (s_queue s) a" and "0 \<le> j_Attempt (q_jobs (s_queue s) a)"
    and "in_i64 (j_MaxAttempts (q_jobs (s_queue s) a))"
    using attempts_okD [OF ok, of a] by (auto simp: job_ok_def attempts_left_def)
qed

lemma worker_step_measure:
  assumes inv: "sys_inv s" and closed: "q_closed (s_queue s)" and st: "fire oor l s = Some s'"
    and w: "worker_step l"
  shows "shutdown_measure s' < shutdown_measure s"
proof -
  have q: "queue_inv (s_queue s) (inflight (s_workers s))" using inv by (simp add: sys_inv_def)
  have q': "queue_inv (s_queue s') (inflight (s_workers s'))" by (rule fire_queue_inv [OF q st])
  show ?thesis
  proof (cases l)
    case (LTop i)
    then obtain w where i: "i < length (s_workers s)" "s_workers s ! i = WTop"
      and top: "worker_top (s_queue s) = (w, s_queue s')" and ws: "s_workers s' = (s_workers s)[i := w]"
      using st by (auto simp: set_worker_def split: if_splits prod.splits)
    show ?thesis
      using update_measure [OF i(1) top_measure [OF q q' [unfolded ws] i closed top]]
      by (simp add: shutdown_measure_def ws)
  next
    case (LSelect i c)
    then obtain w where i: "i < length (s_workers s)" "s_workers s ! i = WParked"
      and ws: "s_workers s' = (s_workers s)[i := w]" and w: "w = WTop \<or> w = WExit"
      and fr: "q_pending (s_queue s') = q_pending (s_queue s)"
        "q_scheduled (s_queue s') = q_scheduled (s_queue s)" "q_jobs (s_queue s') = q_jobs (s_queue s)"
      using st by (cases c) (auto simp: set_worker_def split: if_splits)
    have "live_attempts (s_queue s') (inflight ((s_workers s)[i := w])) \<le>
        live_attempts (s_queue s) (inflight (s_workers s))"
      using inflight_same_set [OF i(1), of w] i(2) w
      by (intro live_attempts_mono [OF q q' [unfolded ws]]) (auto simp: live_def attempts_left_def fr)
    then show ?thesis
      using update_measure [OF i(1), of w] i(2) w by (auto simp: shutdown_measure_def ws)
  next
    case (LStart i)
    then obtain a run where i: "i < length (s_workers s)" "s_workers s ! i = WHolds a"
      and p: "process_start (s_types s) a (s_queue s) = (run, s_queue s')"
      and ws: "s_workers s' = (s_workers s)[i := if run then WHandler a else WTop]"
      using st by (auto simp: set_worker_def split: if_splits worker.splits prod.splits bool.splits)
    note left = held_attempts [OF inv i]
    have "live_attempts (s_queue s') (inflight (s_workers s')) < live_attempts (s_queue s) (inflight (s_workers s))"
      unfolding ws by (rule start_measure(1) [OF q q' [unfolded ws] i p refl left])
    then show ?thesis
      using steps_out_update [OF i(1), of "if run then WHandler a else WTop"] i(2)
      by (cases run) (simp_all add: shutdown_measure_def ws)
  next
    case (LReturn i err t1 t2)
    then obtain a where i: "i < length (s_workers s)" "s_workers s ! i = WHandler a"
      and sq: "s_queue s' = process_finish oor a err t1 t2 (s_queue s)"
      and ws: "s_workers s' = (s_workers s)[i := WTop]"
      using st by (auto simp: set_worker_def split: if_splits worker.splits)
    show ?thesis
      using update_measure [OF i(1) _ finish_measure [OF q i sq q' [unfolded ws]]] i(2)
      by (simp add: shutdown_measure_def ws)
  qed (use w in simp_all)
qed

section \<open>The steps of the others\<close>

text \<open>
  A rejected \<open>Enqueue\<close>, \<open>Schedule\<close> or \<open>ScheduleAt\<close> and a write to a job that was not handed
  over touch unknown jobs only; the promotion moves jobs from the list to the heap.
\<close>

lemma Enqueue_when_closed:
  assumes "queue_inv q fl" and "q_closed q"
  shows "\<exists>f. snd (Enqueue a t1 t2 q) = upd_job a f q \<and> (known q a \<longrightarrow> f (q_jobs q a) = q_jobs q a)"
proof -
  have "fst (Enqueue a t1 t2 q) \<noteq> None" using assms(2) by (simp add: Enqueue_cases)
  then obtain e where e: "fst (Enqueue a t1 t2 q) = Some e" by blast
  have id: "upd_job a (\<lambda>j. j) q = q" by (simp add: upd_job_def)
  have "1 \<le> j_MaxAttempts (q_jobs q a)" if "known q a"
    using inv_butD(6) [OF _ that] assms(1) by (auto simp: queue_inv_def)
  then have "known q a \<Longrightarrow> snd (Enqueue a t1 t2 q) = upd_job a (\<lambda>j. j) q"
    by (simp add: Enqueue_reject [OF e] id)
  moreover have "\<exists>f. snd (Enqueue a t1 t2 q) = upd_job a f q"
    using id by (metis Enqueue_reject [OF e])
  ultimately show ?thesis by metis
qed

lemma upd_job_live_attempts:
  assumes "queue_inv q fl" and "known q a \<Longrightarrow> f (q_jobs q a) = q_jobs q a"
  shows "live_attempts (upd_job a f q) fl = live_attempts q fl"
proof -
  have "attempts_left (upd_job a f q) b = attempts_left q b" if "b \<in> set (live q fl)" for b
  proof -
    have "known q b"
      using that inv_butD(4) [of "{}" q fl b] assms(1) by (auto simp: queue_inv_def live_def places_def)
    then show ?thesis using assms(2) by (auto simp: attempts_left_def)
  qed
  moreover have "live (upd_job a f q) fl = live q fl" by (simp add: live_def)
  ultimately show ?thesis
    unfolding live_attempts_def by (metis map_cong)
qed

lemma other_step_measure:
  assumes inv: "queue_inv (s_queue s) (inflight (s_workers s))" and closed: "q_closed (s_queue s)"
    and st: "fire oor l s = Some s'" and w: "\<not> worker_step l"
  shows "shutdown_measure s' \<le> shutdown_measure s"
proof -
  note U = upd_job_live_attempts [OF inv]
  have enq: "live_attempts (snd (Enqueue a t1 t2 (s_queue s))) (inflight (s_workers s)) =
      live_attempts (s_queue s) (inflight (s_workers s))" for a t1 t2
    using Enqueue_when_closed [OF inv closed, of a t1 t2] U by metis
  have sch: "live_attempts (snd (Enqueue a t1 t2 (upd_job a f (s_queue s)))) (inflight (s_workers s)) =
      live_attempts (s_queue s) (inflight (s_workers s))" if n: "\<not> known (s_queue s) a" for a f t1 t2
  proof -
    have i: "queue_inv (upd_job a f (s_queue s)) (inflight (s_workers s))"
      using inv upd_unknown_inv(1) [OF _ n] by (simp add: queue_inv_def)
    moreover have "q_closed (upd_job a f (s_queue s))" using closed by simp
    ultimately show ?thesis
      using Enqueue_when_closed [OF i, of a t1 t2] upd_job_live_attempts [OF i] U [of a f] n by metis
  qed
  have inv': "queue_inv (s_queue s') (inflight (s_workers s'))" by (rule fire_queue_inv [OF inv st])
  show ?thesis
  proof (cases l)
    case (LSchedSelect c)
    then have "s_workers s' = s_workers s" "q_pending (s_queue s') = q_pending (s_queue s)"
      "q_scheduled (s_queue s') = q_scheduled (s_queue s)" "q_jobs (s_queue s') = q_jobs (s_queue s)"
      using st by (cases c; auto split: if_splits sched.splits)+
    then show ?thesis
      by (simp add: shutdown_measure_def live_attempts_def live_def attempts_left_def [abs_def])
  next
    case LPromote
    from st [unfolded LPromote] obtain now n q
      where p: "promote_loop now (q_scheduled (s_queue s)) (s_queue s) = (n, q)"
        and s': "s' = s\<lparr>s_queue := q, s_sched := (if n > 0 then SPing else STop)\<rparr>" by (rule LPromote_step)
    note S = promote_loop_spec [OF queue_inv_sorted [OF inv] refl p]
    have "live_attempts q (inflight (s_workers s)) \<le> live_attempts (s_queue s) (inflight (s_workers s))"
    proof (rule live_attempts_mono [OF inv])
      show "queue_inv q (inflight (s_workers s))" using inv' s' by simp
      show "set (live q (inflight (s_workers s))) \<subseteq> set (live (s_queue s) (inflight (s_workers s)))"
        using S promote_loop_set [OF inv p] by (auto simp: live_def)
      show "attempts_left q b \<le> attempts_left (s_queue s) b" for b using S by (simp add: attempts_left_def)
    qed
    then show ?thesis by (simp add: shutdown_measure_def s')
  next
    case (LArm t)
    then have "s_queue s' = s_queue s" "s_workers s' = s_workers s"
      using st by (auto split: if_splits sched.splits)
    then show ?thesis by (simp add: shutdown_measure_def)
  next
    case LPing
    then show ?thesis
      using st by (auto simp: shutdown_measure_def live_attempts_def live_def attempts_left_def [abs_def] split: if_splits)
  next
    case LClose
    have "attempts_left (Close (s_queue s)) = attempts_left (s_queue s)"
      by (simp add: fun_eq_iff attempts_left_def)
    with LClose st show ?thesis by (auto simp: shutdown_measure_def live_attempts_def live_def)
  next
    case (LWrite a j)
    then show ?thesis
      using st U [of a "\<lambda>_. j"] by (auto simp: shutdown_measure_def split: if_splits)
  qed (use st w U enq sch in \<open>auto simp: shutdown_measure_def Schedule_def ScheduleAt_def split: if_splits\<close>)
qed

section \<open>Runs after Close\<close>

lemma worker_steps_bounded:
  assumes "sys_inv s" and "q_closed (s_queue s)" and "run_labels oor ls s = Some s'"
  shows "length (filter worker_step ls) + shutdown_measure s' \<le> shutdown_measure s"
  using assms
proof (induction ls arbitrary: s)
  case (Cons l ls)
  then obtain s1 where st: "fire oor l s = Some s1" and run: "run_labels oor ls s1 = Some s'"
    by (auto split: option.splits)
  have inv: "queue_inv (s_queue s) (inflight (s_workers s))" using Cons.prems(1) by (simp add: sys_inv_def)
  have "length (filter worker_step ls) + shutdown_measure s' \<le> shutdown_measure s1"
    using Cons.IH [OF fire_sys_inv [OF Cons.prems(1) st] fire_closed [OF inv Cons.prems(2) st] run] .
  moreover have "shutdown_measure s1 + (if worker_step l then 1 else 0) \<le> shutdown_measure s"
    using worker_step_measure [OF Cons.prems(1,2) st] other_step_measure [OF inv Cons.prems(2) st]
    by (cases "worker_step l") auto
  ultimately show ?case by (auto split: if_splits)
qed simp

lemma worker_can_move:
  assumes inv: "sys_inv s" and closed: "q_closed (s_queue s)"
    and i: "i < length (s_workers s)" "s_workers s ! i \<noteq> WExit"
  shows "\<exists>l. worker_step l \<and> fire oor l s \<noteq> None"
proof -
  have ch: "q_closeCh (s_queue s)"
    using inv closed inv_butD(9) by (auto simp: sys_inv_def queue_inv_def)
  show ?thesis
  proof (cases "s_workers s ! i")
    case WTop
    then have "fire oor (LTop i) s \<noteq> None" using i by (auto split: prod.split)
    then show ?thesis using worker_step.simps(1) by blast
  next
    case WParked
    then have "fire oor (LSelect i WakeClosed) s \<noteq> None" using i ch by simp
    then show ?thesis using worker_step.simps(2) by blast
  next
    case (WHolds a)
    then have "fire oor (LStart i) s \<noteq> None" using i by (auto split: prod.split bool.split)
    then show ?thesis using worker_step.simps(3) by blast
  next
    case (WHandler a)
    then have "fire oor (LReturn i None (s_now s) (s_now s)) s \<noteq> None" using i by simp
    then show ?thesis using worker_step.simps(4) by blast
  qed (use i in simp)
qed

lemma nothing_moves_iff:
  assumes inv: "sys_inv s" and closed: "q_closed (s_queue s)"
  shows "(\<forall>l. worker_step l \<longrightarrow> fire oor l s = None) \<longleftrightarrow> Wait_returns s"
proof
  assume "\<forall>l. worker_step l \<longrightarrow> fire oor l s = None"
  with worker_can_move [OF inv closed] show "Wait_returns s"
    unfolding Wait_returns_iff by (metis in_set_conv_nth)
next
  assume w: "Wait_returns s"
  then have "s_workers s ! i = WExit" if "i < length (s_workers s)" for i
    using that by (simp add: Wait_returns_iff)
  then have "fire oor l s = None" if "worker_step l" for l
    using that by (cases l) auto
  then show "\<forall>l. worker_step l \<longrightarrow> fire oor l s = None" by blast
qed

lemma run_closed:
  assumes "sys_inv s" and "q_closed (s_queue s)" and "run_labels oor ls s = Some s'"
  shows "sys_inv s' \<and> q_closed (s_queue s')"
  using assms
proof (induction ls arbitrary: s)
  case (Cons l ls)
  then obtain s1 where st: "fire oor l s = Some s1" and run: "run_labels oor ls s1 = Some s'"
    by (auto split: option.splits)
  have "queue_inv (s_queue s) (inflight (s_workers s))" using Cons.prems(1) by (simp add: sys_inv_def)
  then show ?case
    using Cons.IH [OF fire_sys_inv [OF Cons.prems(1) st] fire_closed [OF _ Cons.prems(2) st] run] by blast
qed simp

lemma run_until_gone:
  assumes "sys_inv s" and "q_closed (s_queue s)"
  shows "\<exists>ls s'. run_labels oor ls s = Some s' \<and> Wait_returns s'"
  using assms
proof (induction "shutdown_measure s" arbitrary: s rule: less_induct)
  case less
  show ?case
  proof (cases "Wait_returns s")
    case True
    then show ?thesis using run_labels.simps(1) by blast
  next
    case False
    with nothing_moves_iff [OF less.prems, of oor] obtain l s1
      where l: "worker_step l" "fire oor l s = Some s1" by auto
    have "queue_inv (s_queue s) (inflight (s_workers s))" using less.prems(1) by (simp add: sys_inv_def)
    from less.hyps [OF worker_step_measure [OF less.prems l(2,1)] fire_sys_inv [OF less.prems(1) l(2)]
        fire_closed [OF this less.prems(2) l(2)]]
    obtain ls s' where "run_labels oor ls s1 = Some s'" "Wait_returns s'" by blast
    with l(2) have "run_labels oor (l # ls) s = Some s'" by simp
    then show ?thesis using \<open>Wait_returns s'\<close> by blast
  qed
qed

lemma gone_nothing_processing:
  assumes inv: "sys_inv s" and w: "Wait_returns s" and k: "known (s_queue s) a"
  shows "j_Status (q_jobs (s_queue s) a) \<noteq> StatusProcessing"
proof -
  have "inflight (s_workers s) = []" using w by (auto simp: inflight_def Wait_returns_iff)
  moreover have "located (s_queue s) (inflight (s_workers s)) a"
    using inv inv_butD(7) [OF _ k] by (auto simp: sys_inv_def queue_inv_def)
  ultimately show ?thesis by (simp add: located_def)
qed

text \<open>
  C7. Close and Wait end.  From any reachable state with a closed queue, whatever producers, the
  scheduler and the handlers do, the workers together make no more steps than the measure (the
  positions of the workers and four for each attempt a live job has left); they can all move until they have
  left, so a run in which no worker can move is one where Wait returns, some run gets there, and
  then no job is processing.
\<close>

theorem shutdown_terminates:
  assumes "reachable oor s" and "q_closed (s_queue s)" and "run_labels oor ls s = Some s'"
  shows "length (filter worker_step ls) \<le> shutdown_measure s \<and>
    ((\<forall>l. worker_step l \<longrightarrow> fire oor l s' = None) \<longleftrightarrow> Wait_returns s') \<and>
    (Wait_returns s' \<longrightarrow> (\<forall>a. known (s_queue s') a \<longrightarrow> j_Status (q_jobs (s_queue s') a) \<noteq> StatusProcessing)) \<and>
    (\<exists>ls' s''. run_labels oor ls' s' = Some s'' \<and> Wait_returns s'')"
proof -
  have inv: "sys_inv s" by (rule reachable_sys_inv [OF assms(1)])
  from run_closed [OF inv assms(2,3)] have s': "sys_inv s'" "q_closed (s_queue s')" by simp_all
  show ?thesis
    using worker_steps_bounded [OF inv assms(2,3)] nothing_moves_iff [OF s'] run_until_gone [OF s']
      gone_nothing_processing [OF s'(1)] by auto
qed

text \<open>
  The second sample job is inside its handler when the queue is closed; the handler fails, its
  worker takes the other job, and both leave.
\<close>

definition closed_sys :: "unit sys" where
  "closed_sys = after 0 (sample_labels @ [LClose]) sample_init"

definition drain_labels :: "unit label list" where
  "drain_labels = [LSelect 1 WakeClosed, LReturn 0 (Some ''boom'') 30 30, LTop 0, LStart 0,
     LReturn 0 None 40 40, LTop 0]"

theorem shutdown_terminates_witness:
  "shutdown_measure closed_sys = 20 \<and> length (filter worker_step drain_labels) \<le> shutdown_measure closed_sys \<and>
   (\<exists>s'. run_labels 0 drain_labels closed_sys = Some s' \<and> Wait_returns s' \<and>
      j_Status (q_jobs (s_queue s') 1) \<noteq> StatusProcessing)"
proof -
  have c: "q_closed (s_queue closed_sys)" by code_simp
  have m: "shutdown_measure closed_sys = 20" by code_simp
  have "(case run_labels 0 drain_labels closed_sys of None \<Rightarrow> False
      | Some s' \<Rightarrow> Wait_returns s' \<and> known (s_queue s') 1)" by code_simp
  then obtain s' where s': "run_labels 0 drain_labels closed_sys = Some s'" "Wait_returns s'"
    "known (s_queue s') 1"
    by (auto split: option.splits)
  show ?thesis
    using shutdown_terminates [OF sample_reachable [of "sample_labels @ [LClose]", folded closed_sys_def] c s'(1)]
      m s' by blast
qed

text \<open>
  What shutdown does not do.  After Close a worker inside a handler goes on to take the jobs of
  the heap, while one that was parked leaves at once; a failed job is put in the scheduled list
  although the scheduler has gone, so it keeps its status failed, with attempts left, after Wait
  has returned.
\<close>

theorem retry_stranded_by_Close:
  "\<exists>s :: unit sys. reachable 0 s \<and> Wait_returns s \<and> s_sched s = SExit \<and> q_scheduled (s_queue s) = [0] \<and>
     j_Status (q_jobs (s_queue s) 0) = StatusFailed \<and>
     j_Attempt (q_jobs (s_queue s) 0) < j_MaxAttempts (q_jobs (s_queue s) 0)"
proof -
  let ?ls = "[LTop 0, LTop 1, LEnqueue 0 20 20, LSelect 0 WakeNotify, LTop 0, LStart 0, LClose,
     LSchedTop 22, LArm 22, LSchedSelect SWClosed, LSelect 1 WakeClosed, LReturn 0 (Some ''boom'') 30 30, LTop 0]"
  let ?s = "after 0 ?ls sample_init"
  have "Wait_returns ?s" "s_sched ?s = SExit" "q_scheduled (s_queue ?s) = [0]"
    "j_Status (q_jobs (s_queue ?s) 0) = StatusFailed"
    "j_Attempt (q_jobs (s_queue ?s) 0) < j_MaxAttempts (q_jobs (s_queue ?s) 0)"
    by code_simp+
  then show ?thesis using sample_reachable [of ?ls] by blast
qed

text \<open>
  Cancelling the context does not stop a busy worker: dequeue looks at the heap before it looks
  at the context, so a worker whose context is cancelled takes and starts another job.
\<close>

theorem cancelled_worker_takes_job:
  "\<exists>(s :: unit sys) s'. reachable 0 s \<and> s_cancelled s \<and> run_labels 0 [LTop 0, LStart 0] s = Some s' \<and>
     s_calls s 0 = 0 \<and> s_calls s' 0 = 1"
proof -
  let ?ls = "sample_labels @ [LCancel, LReturn 0 None 30 30]"
  let ?s = "after 0 ?ls sample_init"
  have "s_cancelled ?s" "s_calls ?s 0 = 0" by code_simp+
  moreover have "(case run_labels 0 [LTop 0, LStart 0] ?s of None \<Rightarrow> False | Some s' \<Rightarrow> s_calls s' 0 = 1)"
    by code_simp
  then obtain s' where "run_labels 0 [LTop 0, LStart 0] ?s = Some s'" "s_calls s' 0 = 1"
    by (auto split: option.splits)
  ultimately show ?thesis using sample_reachable [of ?ls] by blast
qed

end
