(* ===== verification/JobDrain.thy ===== *)
theory JobDrain
  imports JobShutdown
begin

text \<open>
  No reachable state of the job queue is stuck: while the queue is open and its context is not
  cancelled, the workers and the scheduler alone (no further call from outside) can bring every
  known job to its end.  The measure is the number of attempts left plus the number of live jobs.
\<close>

section \<open>The scheduler stays\<close>

definition sched_stays :: "'p sys \<Rightarrow> bool" where
  "sched_stays s \<longleftrightarrow> (s_sched s = SExit \<longrightarrow> s_cancelled s \<or> q_closed (s_queue s))"

text \<open>What only a call from outside changes.\<close>

lemma fire_frame:
  assumes inv: "queue_inv (s_queue s) fl" and st: "fire oor l s = Some s'"
  shows "s_cancelled s' = (s_cancelled s \<or> l = LCancel)"
    and "q_closed (s_queue s') = (q_closed (s_queue s) \<or> l = LClose)"
proof -
  have "s_cancelled s' = (s_cancelled s \<or> l = LCancel) \<and>
    q_closed (s_queue s') = (q_closed (s_queue s) \<or> l = LClose)"
  proof (cases l)
    case (LTop i)
    then show ?thesis
      using st by (auto simp: set_worker_def split: if_splits prod.splits dest: worker_top_closed)
  next
    case (LSelect i c)
    then show ?thesis using st by (cases c) (auto simp: set_worker_def split: if_splits)
  next
    case (LStart i)
    then show ?thesis
      using st by (auto simp: set_worker_def split: if_splits worker.splits prod.splits bool.splits)
  next
    case (LReturn i err t1 t2)
    then show ?thesis using st by (auto simp: set_worker_def split: if_splits worker.splits)
  next
    case (LSchedSelect c)
    then show ?thesis using st by (cases c) (auto split: if_splits sched.splits)
  next
    case LPromote
    from st [unfolded LPromote] obtain now n q
      where p: "promote_loop now (q_scheduled (s_queue s)) (s_queue s) = (n, q)"
        and s': "s' = s\<lparr>s_queue := q, s_sched := (if n > 0 then SPing else STop)\<rparr>" by (rule LPromote_step)
    then show ?thesis
      using promote_loop_spec [OF queue_inv_sorted [OF inv] refl p] LPromote by simp
  next
    case (LArm t)
    then show ?thesis using st by (auto split: if_splits sched.splits)
  qed (use st in \<open>auto split: if_splits\<close>)
  then show "s_cancelled s' = (s_cancelled s \<or> l = LCancel)"
    and "q_closed (s_queue s') = (q_closed (s_queue s) \<or> l = LClose)" by simp_all
qed

lemma fire_sched_stays:
  assumes inv: "queue_inv (s_queue s) (inflight (s_workers s))" and ok: "sched_stays s"
    and st: "fire oor l s = Some s'"
  shows "sched_stays s'"
proof -
  have "q_closed (s_queue s) = q_closeCh (s_queue s)"
    using inv inv_butD(9) by (simp add: queue_inv_def)
  then have "s_sched s' = SExit \<Longrightarrow> s_sched s = SExit \<or> s_cancelled s \<or> q_closed (s_queue s)"
    using st by (cases l) (auto simp: set_worker_def sched_top_def sched_arm_def elim!: sched_select.elims
        split: if_splits prod.splits option.splits worker.splits bool.splits sched.splits)
  then show ?thesis
    using ok fire_frame [OF inv st] by (auto simp: sched_stays_def)
qed

lemma reachable_sched_stays: "reachable oor s \<Longrightarrow> sched_stays s"
proof (induction rule: reachable.induct)
  case (step s l s')
  then show ?case
    using reachable_sys_inv [OF step.hyps(1)] by (auto simp: sys_inv_def intro: fire_sched_stays)
qed (simp add: sched_stays_def init_sys_def)

section \<open>Runs of the goroutines alone\<close>

fun internal :: "'p label \<Rightarrow> bool" where
  "internal (LTop i) = True"
| "internal (LSelect i c) = True"
| "internal (LStart i) = True"
| "internal (LReturn i err t1 t2) = True"
| "internal (LSchedTop t) = True"
| "internal (LArm t) = True"
| "internal (LSchedSelect c) = True"
| "internal LPromote = True"
| "internal LPing = True"
| "internal _ = False"

definition open_sys :: "'p sys \<Rightarrow> bool" where
  "open_sys s \<longleftrightarrow> sys_inv s \<and> sched_stays s \<and> s_workers s \<noteq> [] \<and> \<not> s_cancelled s \<and> \<not> q_closed (s_queue s)"

definition leads_to :: "duration \<Rightarrow> 'p sys \<Rightarrow> 'p sys \<Rightarrow> bool" where
  "leads_to oor s s' \<longleftrightarrow> (\<exists>ls. list_all internal ls \<and> run_labels oor ls s = Some s')"

lemma leads_to_refl: "leads_to oor s s"
  unfolding leads_to_def by (rule exI [of _ "[]"]) simp

lemma leads_to_step:
  assumes "fire oor l s = Some s1" and "internal l" and "leads_to oor s1 s'"
  shows "leads_to oor s s'"
proof -
  from assms(3) obtain ls where "list_all internal ls" "run_labels oor ls s1 = Some s'"
    by (auto simp: leads_to_def)
  with assms(1,2) show ?thesis unfolding leads_to_def by (intro exI [of _ "l # ls"]) simp
qed

lemma leads_to_trans: "leads_to oor s s1 \<Longrightarrow> leads_to oor s1 s2 \<Longrightarrow> leads_to oor s s2"
proof -
  have "run_labels oor ls s = Some s1 \<Longrightarrow> list_all internal ls \<Longrightarrow> leads_to oor s1 s2 \<Longrightarrow> leads_to oor s s2" for ls
    by (induction ls arbitrary: s) (auto split: option.splits intro: leads_to_step)
  then show "leads_to oor s s1 \<Longrightarrow> leads_to oor s1 s2 \<Longrightarrow> leads_to oor s s2"
    by (auto simp: leads_to_def [of oor s s1])
qed

lemma open_step:
  assumes "open_sys s" and "fire oor l s = Some s'" and "internal l"
  shows "open_sys s'"
proof -
  have inv: "queue_inv (s_queue s) (inflight (s_workers s))" using assms(1) by (simp add: open_sys_def sys_inv_def)
  moreover have "l \<noteq> LCancel \<and> l \<noteq> LClose" using assms(3) by auto
  moreover have "s_workers s' \<noteq> []" using fire_workers [OF assms(2)] assms(1) by (auto simp: open_sys_def)
  ultimately show ?thesis
    using assms(1) fire_frame [OF inv assms(2)] fire_sys_inv [OF _ assms(2)] fire_sched_stays [OF inv _ assms(2)]
    by (simp add: open_sys_def)
qed

section \<open>The measure\<close>

definition drain_measure :: "'p sys \<Rightarrow> nat" where
  "drain_measure s =
     live_attempts (s_queue s) (inflight (s_workers s)) + length (live (s_queue s) (inflight (s_workers s)))"

lemma live_length:
  assumes "queue_inv q fl" and "queue_inv q' fl'" and "set (live q' fl') \<subseteq> set (live q fl)"
  shows "length (live q' fl') \<le> length (live q fl)"
  using live_distinct [OF assms(1)] live_distinct [OF assms(2)] assms(3)
  by (metis List.finite_set card_mono distinct_card)

lemma start_drains:
  assumes op: "open_sys s" and i: "i < length (s_workers s)" "s_workers s ! i = WHolds a"
  shows "\<exists>s'. fire oor (LStart i) s = Some s' \<and> drain_measure s' < drain_measure s"
proof -
  have inv: "sys_inv s" using op by (simp add: open_sys_def)
  then have q: "queue_inv (s_queue s) (inflight (s_workers s))" by (simp add: sys_inv_def)
  obtain run q' where p: "process_start (s_types s) a (s_queue s) = (run, q')" by fastforce
  then obtain s' where st: "fire oor (LStart i) s = Some s'" and sq: "s_queue s' = q'"
    and ws: "s_workers s' = (s_workers s)[i := if run then WHandler a else WTop]"
    using i by (cases run) (auto simp: set_worker_def)
  have q': "queue_inv q' (inflight (s_workers s'))" using fire_queue_inv [OF q st] sq by simp
  note M = start_measure [OF q q' [unfolded ws] i p refl held_attempts [OF inv i]]
  have "drain_measure s' < drain_measure s"
    using M(1) live_length [OF q q' [unfolded ws] M(2)] by (simp add: drain_measure_def sq ws)
  with st show ?thesis by blast
qed

lemma return_drains:
  assumes op: "open_sys s" and i: "i < length (s_workers s)" "s_workers s ! i = WHandler a"
  shows "\<exists>s'. fire oor (LReturn i None (s_now s) (s_now s)) s = Some s' \<and> drain_measure s' < drain_measure s"
proof -
  have q: "queue_inv (s_queue s) (inflight (s_workers s))" using op by (simp add: open_sys_def sys_inv_def)
  obtain s' where st: "fire oor (LReturn i None (s_now s) (s_now s)) s = Some s'"
    and sq: "s_queue s' = complete a (s_queue s)" and ws: "s_workers s' = (s_workers s)[i := WTop]"
    using i by (auto simp: set_worker_def process_finish_def)
  have q': "queue_inv (complete a (s_queue s)) (inflight (s_workers s'))" using fire_queue_inv [OF q st] sq by simp
  have a: "a \<in> set (inflight (s_workers s))" using i inflight_mem by fastforce
  have "set (inflight (s_workers s')) = set (inflight (s_workers s)) - {a}"
    using inflight_drop_set [OF inflight_distinct [OF q] i(1), of a WTop] i(2) ws by simp
  then have l: "set (live (complete a (s_queue s)) (inflight (s_workers s'))) =
      set (live (s_queue s) (inflight (s_workers s))) - {a}"
    using inflight_unplaced [OF q a] by (auto simp: live_def)
  have al: "a \<in> set (live (s_queue s) (inflight (s_workers s)))" using a by (simp add: live_def)
  have "live_attempts (complete a (s_queue s)) (inflight (s_workers s')) \<le>
      live_attempts (s_queue s) (inflight (s_workers s))"
    using l by (intro live_attempts_mono [OF q q']) (auto simp: attempts_left_def)
  moreover have "length (live (complete a (s_queue s)) (inflight (s_workers s'))) <
      length (live (s_queue s) (inflight (s_workers s)))"
    using l al live_distinct [OF q] live_distinct [OF q'] by (metis List.finite_set card_Diff1_less distinct_card)
  ultimately show ?thesis using st by (auto simp: drain_measure_def sq)
qed

lemma drain_le:
  assumes "open_sys s" and "open_sys s'"
    and "set (live (s_queue s') (inflight (s_workers s'))) \<subseteq> set (live (s_queue s) (inflight (s_workers s)))"
    and "\<And>b. attempts_left (s_queue s') b \<le> attempts_left (s_queue s) b"
  shows "drain_measure s' \<le> drain_measure s"
proof -
  have q: "queue_inv (s_queue s) (inflight (s_workers s))" "queue_inv (s_queue s') (inflight (s_workers s'))"
    using assms(1,2) by (simp_all add: open_sys_def sys_inv_def)
  show ?thesis
    using live_attempts_mono [OF q assms(3,4)] live_length [OF q assms(3)] by (simp add: drain_measure_def)
qed

text \<open>A run of the goroutines that does not raise the measure.\<close>

definition eases :: "duration \<Rightarrow> 'p sys \<Rightarrow> 'p sys \<Rightarrow> bool" where
  "eases oor s s' \<longleftrightarrow> leads_to oor s s' \<and> open_sys s' \<and> drain_measure s' \<le> drain_measure s"

lemma eases_refl: "open_sys s \<Longrightarrow> eases oor s s"
  by (simp add: eases_def leads_to_refl)

lemma eases_trans: "eases oor s s1 \<Longrightarrow> eases oor s1 s2 \<Longrightarrow> eases oor s s2"
  unfolding eases_def using leads_to_trans by fastforce

lemma eases_step:
  assumes "open_sys s" and "fire oor l s = Some s'" and "internal l"
    and "set (live (s_queue s') (inflight (s_workers s'))) \<subseteq> set (live (s_queue s) (inflight (s_workers s)))"
    and "\<And>b. attempts_left (s_queue s') b \<le> attempts_left (s_queue s) b"
  shows "eases oor s s'"
  using open_step [OF assms(1-3)] drain_le [OF assms(1) _ assms(4,5)]
    leads_to_step [OF assms(2,3) leads_to_refl] by (simp add: eases_def)

section \<open>Every live job can move on\<close>

lemma busy_drains:
  assumes op: "open_sys s" and "inflight (s_workers s) \<noteq> []"
  shows "\<exists>s'. leads_to oor s s' \<and> open_sys s' \<and> drain_measure s' < drain_measure s"
proof -
  obtain w a where "w \<in> set (s_workers s)" "a \<in> set (worker_job w)"
    using assms(2) by (fastforce simp: inflight_def)
  then obtain i where i: "i < length (s_workers s)" "a \<in> set (worker_job (s_workers s ! i))"
    by (metis in_set_conv_nth)
  have "\<exists>l s'. internal l \<and> fire oor l s = Some s' \<and> drain_measure s' < drain_measure s"
  proof (cases "s_workers s ! i")
    case (WHolds b)
    from start_drains [OF op i(1) WHolds, of oor] show ?thesis using internal.simps(3) by blast
  next
    case (WHandler b)
    from return_drains [OF op i(1) WHandler, of oor] show ?thesis using internal.simps(4) by blast
  qed (use i in simp_all)
  then obtain l s' where l: "internal l" "fire oor l s = Some s'" "drain_measure s' < drain_measure s" by blast
  then show ?thesis
    using open_step [OF op l(2,1)] leads_to_step [OF l(2,1) leads_to_refl] by blast
qed

lemma take_eases:
  assumes op: "open_sys s" and i: "i < length (s_workers s)" "s_workers s ! i = WTop"
    and pend: "q_pending (s_queue s) \<noteq> []"
  shows "\<exists>s'. eases oor s s' \<and> inflight (s_workers s') \<noteq> []"
proof -
  obtain a q' where deq: "dequeue_turn (s_queue s) = (Got a, q')"
    using pend dequeue_turn_cases(2,3) by (metis dequeue_result.exhaust prod.collapse)
  then obtain p where pop: "heap_pop (job_less (q_jobs (s_queue s))) (q_pending (s_queue s)) = Some (a, p)"
    and q': "q' = upd_job a (\<lambda>j. j\<lparr>j_Status := StatusProcessing\<rparr>) (s_queue s\<lparr>q_pending := p\<rparr>)"
    by (auto simp: dequeue_turn_cases popPending_Some)
  let ?ws = "(s_workers s)[i := WHolds a]"
  obtain s' where st: "fire oor (LTop i) s = Some s'" and sq: "s_queue s' = q'" and ws: "s_workers s' = ?ws"
    using i deq by (auto simp: worker_top_def set_worker_def)
  have "mset (inflight ?ws) = add_mset a (mset (inflight (s_workers s)))"
    using mset_inflight_update [OF i(1), of "WHolds a"] i(2) by simp
  then have fl: "set (inflight ?ws) = insert a (set (inflight (s_workers s)))"
    by (metis set_mset_add_mset_insert set_mset_mset)
  have "eases oor s s'"
    using heap_pop_set [OF pop] fl
    by (intro eases_step [OF op st]) (auto simp: live_def sq ws q' attempts_left_def)
  moreover have "inflight (s_workers s') \<noteq> []" using fl ws by auto
  ultimately show ?thesis by blast
qed

lemma pending_eases:
  assumes op: "open_sys s" and fl: "inflight (s_workers s) = []" and pend: "q_pending (s_queue s) \<noteq> []"
  shows "\<exists>s'. eases oor s s' \<and> inflight (s_workers s') \<noteq> []"
proof (cases "WTop \<in> set (s_workers s)")
  case True
  then show ?thesis using take_eases [OF op _ _ pend] by (metis in_set_conv_nth)
next
  case False
  have parked: "s_workers s ! i = WParked" if "i < length (s_workers s)" for i
  proof -
    have "s_workers s ! i \<noteq> WExit"
      using op that by (metis no_early_exit_def nth_mem open_sys_def sys_inv_def)
    then show ?thesis
      using False fl inflight_mem [OF that] that by (cases "s_workers s ! i") (auto simp: in_set_conv_nth)
  qed
  have 0: "0 < length (s_workers s)" using op by (simp add: open_sys_def)
  have wake: "\<exists>s'. eases oor s1 s' \<and> inflight (s_workers s') \<noteq> []"
    if s1: "open_sys s1" "s_workers s1 = s_workers s" "q_notify (s_queue s1)" "q_pending (s_queue s1) \<noteq> []" for s1
  proof -
    let ?s2 = "set_worker 0 WTop (s_queue s1\<lparr>q_notify := False\<rparr>) s1"
    have st: "fire oor (LSelect 0 WakeNotify) s1 = Some ?s2" using s1 parked [OF 0] 0 by simp
    have e: "eases oor s1 ?s2"
      using inflight_same_set [OF 0, of WTop] parked [OF 0] s1(2)
      by (intro eases_step [OF s1(1) st]) (auto simp: live_def set_worker_def attempts_left_def)
    then have "open_sys ?s2" by (simp add: eases_def)
    from take_eases [OF this, of 0 oor] e show ?thesis
      using 0 s1 eases_trans by (fastforce simp: set_worker_def)
  qed
  have "q_notify (s_queue s) \<or> s_sched s = SPing"
    using op pend parked by (auto simp: open_sys_def sys_inv_def no_lost_wakeup_def awake_def in_set_conv_nth)
  then show ?thesis
  proof
    assume "q_notify (s_queue s)"
    then show ?thesis using wake [OF op refl _ pend] by blast
  next
    assume sc: "s_sched s = SPing"
    let ?s1 = "s\<lparr>s_queue := ping_notify (s_queue s), s_sched := STop\<rparr>"
    have "fire oor LPing s = Some ?s1" using sc by simp
    then have e: "eases oor s ?s1" by (rule eases_step [OF op]) (auto simp: live_def attempts_left_def)
    then have "open_sys ?s1" by (simp add: eases_def)
    from wake [OF this] e pend show ?thesis using eases_trans by fastforce
  qed
qed

section \<open>Every scheduled job comes up\<close>

lemma promote_eases:
  assumes op: "open_sys s" and sc: "s_sched s = SPromote t"
  shows "\<exists>s'. eases oor s s' \<and> s_workers s' = s_workers s \<and> (s_sched s' = SPing \<or> s_sched s' = STop) \<and>
    set (q_pending (s_queue s')) = set (q_pending (s_queue s)) \<union>
      {a \<in> set (q_scheduled (s_queue s)). j_RunAt (q_jobs (s_queue s) a) \<le> t} \<and>
    (s_sched s' = STop \<longrightarrow> q_scheduled (s_queue s') = q_scheduled (s_queue s)) \<and>
    (s_sched s' = SPing \<longrightarrow> q_pending (s_queue s') \<noteq> [])"
proof -
  have inv: "queue_inv (s_queue s) (inflight (s_workers s))" using op by (simp add: open_sys_def sys_inv_def)
  obtain n q where p: "promote_loop t (q_scheduled (s_queue s)) (s_queue s) = (n, q)" by fastforce
  note S = promote_loop_spec [OF queue_inv_sorted [OF inv] refl p]
  let ?s' = "s\<lparr>s_queue := q, s_sched := (if n > 0 then SPing else STop)\<rparr>"
  have st: "fire oor LPromote s = Some ?s'" using sc p by simp
  have "n = 0 \<Longrightarrow> q_scheduled q = q_scheduled (s_queue s)"
    using p by (cases "q_scheduled (s_queue s)") (auto split: if_splits prod.splits)
  moreover have "n > 0 \<Longrightarrow> q_pending q \<noteq> []" using S by auto
  moreover have "eases oor s ?s'"
    using S promote_loop_set [OF inv p] by (intro eases_step [OF op st]) (auto simp: live_def attempts_left_def)
  ultimately show ?thesis
    using promote_loop_set [OF inv p] by (intro exI [of _ ?s']) auto
qed

lemma timer_eases:
  assumes op: "open_sys s" and sc: "s_sched s = SParked d late" and sched: "q_scheduled (s_queue s) \<noteq> []"
  shows "\<exists>s'. eases oor s s' \<and> s_workers s' = s_workers s \<and> q_pending (s_queue s') \<noteq> []"
proof -
  let ?a = "hd (q_scheduled (s_queue s))"
  let ?t = "max (max d (s_now s)) (j_RunAt (q_jobs (s_queue s) ?a))"
  let ?s1 = "s\<lparr>s_sched := SPromote ?t, s_now := ?t\<rparr>"
  have "d \<le> ?t" "s_now s \<le> ?t" by auto
  then have st: "fire oor (LSchedSelect (SWTimer ?t)) s = Some ?s1" using sc by simp
  have e: "eases oor s ?s1" by (rule eases_step [OF op st]) simp_all
  then have "open_sys ?s1" by (simp add: eases_def)
  from promote_eases [OF this, of ?t oor] obtain s' where s': "eases oor ?s1 s'" "s_workers s' = s_workers s"
    "set (q_pending (s_queue s')) = set (q_pending (s_queue s)) \<union>
      {a \<in> set (q_scheduled (s_queue s)). j_RunAt (q_jobs (s_queue s) a) \<le> ?t}" by auto
  have "?a \<in> {a \<in> set (q_scheduled (s_queue s)). j_RunAt (q_jobs (s_queue s) a) \<le> ?t}" using sched by simp
  then have "q_pending (s_queue s') \<noteq> []" using s'(3) by auto
  with eases_trans [OF e s'(1)] s'(2) show ?thesis by blast
qed

lemma arm_eases:
  assumes op: "open_sys s" and sc: "s_sched s = SArm d t" and sched: "q_scheduled (s_queue s) \<noteq> []"
  shows "\<exists>s'. eases oor s s' \<and> s_workers s' = s_workers s \<and> q_pending (s_queue s') \<noteq> []"
proof -
  let ?s1 = "s\<lparr>s_sched := sched_arm (s_now s) d t, s_now := s_now s\<rparr>"
  have st: "fire oor (LArm (s_now s)) s = Some ?s1" using sc by simp
  have e: "eases oor s ?s1" by (rule eases_step [OF op st]) simp_all
  then have "open_sys ?s1" by (simp add: eases_def)
  from timer_eases [OF this, of _ _ oor] sched obtain s' where
    "eases oor ?s1 s'" "s_workers s' = s_workers s" "q_pending (s_queue s') \<noteq> []"
    by (auto simp: sched_arm_def)
  with eases_trans [OF e this(1)] show ?thesis by blast
qed

lemma top_eases:
  assumes op: "open_sys s" and sc: "s_sched s = STop" and sched: "q_scheduled (s_queue s) \<noteq> []"
  shows "\<exists>s'. eases oor s s' \<and> s_workers s' = s_workers s \<and> q_pending (s_queue s') \<noteq> []"
proof -
  let ?s1 = "s\<lparr>s_sched := sched_top (s_now s) (s_queue s), s_now := s_now s\<rparr>"
  have st: "fire oor (LSchedTop (s_now s)) s = Some ?s1" using sc by simp
  have e: "eases oor s ?s1" by (rule eases_step [OF op st]) simp_all
  then have "open_sys ?s1" by (simp add: eases_def)
  from arm_eases [OF this, of _ _ oor] sched obtain s' where
    "eases oor ?s1 s'" "s_workers s' = s_workers s" "q_pending (s_queue s') \<noteq> []"
    by (auto simp: sched_top_def)
  with eases_trans [OF e this(1)] show ?thesis by blast
qed

lemma scheduled_eases:
  assumes op: "open_sys s" and sched: "q_scheduled (s_queue s) \<noteq> []"
  shows "\<exists>s'. eases oor s s' \<and> s_workers s' = s_workers s \<and> q_pending (s_queue s') \<noteq> []"
proof (cases "s_sched s")
  case STop
  then show ?thesis by (rule top_eases [OF op _ sched])
next
  case (SParked d late)
  then show ?thesis by (rule timer_eases [OF op _ sched])
next
  case (SArm d t)
  then show ?thesis by (rule arm_eases [OF op _ sched])
next
  case (SPromote t)
  from promote_eases [OF op this, of oor] obtain s1 where s1: "eases oor s s1" "s_workers s1 = s_workers s"
    "s_sched s1 = SPing \<or> s_sched s1 = STop"
    "s_sched s1 = STop \<longrightarrow> q_scheduled (s_queue s1) = q_scheduled (s_queue s)"
    "s_sched s1 = SPing \<longrightarrow> q_pending (s_queue s1) \<noteq> []" by blast
  show ?thesis
  proof (cases "q_pending (s_queue s1) = [] \<and> s_sched s1 = STop")
    case True
    have "open_sys s1" using s1(1) by (simp add: eases_def)
    from top_eases [OF this, of oor] True s1 sched show ?thesis using eases_trans by metis
  next
    case False
    then show ?thesis using s1 by blast
  qed
next
  case SPing
  let ?s1 = "s\<lparr>s_queue := ping_notify (s_queue s), s_sched := STop\<rparr>"
  have "fire oor LPing s = Some ?s1" using SPing by simp
  then have e: "eases oor s ?s1" by (rule eases_step [OF op]) (auto simp: live_def attempts_left_def)
  then have "open_sys ?s1" by (simp add: eases_def)
  from top_eases [OF this, of oor] sched e show ?thesis using eases_trans by fastforce
next
  case SExit
  then show ?thesis using op by (auto simp: open_sys_def sched_stays_def)
qed

section \<open>Draining\<close>

lemma live_drains:
  assumes op: "open_sys s" and lv: "live (s_queue s) (inflight (s_workers s)) \<noteq> []"
  shows "\<exists>s'. leads_to oor s s' \<and> open_sys s' \<and> drain_measure s' < drain_measure s"
proof -
  have "\<exists>s1. eases oor s s1 \<and> inflight (s_workers s1) \<noteq> []"
  proof (cases "inflight (s_workers s) = []")
    case fl: True
    have "\<exists>s1. eases oor s s1 \<and> s_workers s1 = s_workers s \<and> q_pending (s_queue s1) \<noteq> []"
    proof (cases "q_pending (s_queue s) = []")
      case True
      then have "q_scheduled (s_queue s) \<noteq> []" using lv fl by (simp add: live_def)
      then show ?thesis by (rule scheduled_eases [OF op])
    next
      case False
      then show ?thesis using eases_refl [OF op] by blast
    qed
    then obtain s1 where s1: "eases oor s s1" "s_workers s1 = s_workers s" "q_pending (s_queue s1) \<noteq> []" by blast
    then have "open_sys s1" by (simp add: eases_def)
    from pending_eases [OF this _ s1(3), of oor] s1 fl show ?thesis using eases_trans by metis
  qed (use eases_refl [OF op] in blast)
  then obtain s1 where s1: "eases oor s s1" "inflight (s_workers s1) \<noteq> []" by blast
  then have "open_sys s1" by (simp add: eases_def)
  from busy_drains [OF this s1(2), of oor] obtain s' where
    "leads_to oor s1 s'" "open_sys s'" "drain_measure s' < drain_measure s1" by blast
  with s1(1) show ?thesis
    unfolding eases_def using leads_to_trans less_le_trans by blast
qed

lemma open_drains:
  assumes "open_sys s"
  shows "\<exists>s'. leads_to oor s s' \<and> open_sys s' \<and> live (s_queue s') (inflight (s_workers s')) = []"
  using assms
proof (induction "drain_measure s" arbitrary: s rule: less_induct)
  case less
  show ?case
  proof (cases "live (s_queue s) (inflight (s_workers s)) = []")
    case True
    then show ?thesis using less.prems leads_to_refl by blast
  next
    case False
    from live_drains [OF less.prems this, of oor] obtain s1 where
      s1: "leads_to oor s s1" "open_sys s1" "drain_measure s1 < drain_measure s" by blast
    from less.hyps [OF s1(3,2)] s1(1) show ?thesis using leads_to_trans by blast
  qed
qed

text \<open>The goroutines forget no job.\<close>

lemma fire_known:
  assumes inv: "queue_inv (s_queue s) fl" and st: "fire oor l s = Some s'" and l: "internal l"
  shows "known (s_queue s') a = known (s_queue s) a"
proof -
  have "q_all (s_queue s') = q_all (s_queue s) \<and> j_ID (q_jobs (s_queue s') a) = j_ID (q_jobs (s_queue s) a)"
  proof (cases l)
    case (LTop i)
    then obtain w q where top: "worker_top (s_queue s) = (w, q)" and s': "s_queue s' = q"
      using st by (auto simp: set_worker_def split: if_splits prod.splits)
    show ?thesis
    proof (cases "dequeue_turn (s_queue s)")
      case (Pair r q0)
      with top s' show ?thesis
        by (cases r) (auto simp: worker_top_def dequeue_turn_cases popPending_Some)
    qed
  next
    case (LSelect i c)
    then show ?thesis using st by (cases c) (auto simp: set_worker_def split: if_splits)
  next
    case (LStart i)
    then show ?thesis
      using st by (auto simp: set_worker_def process_start_def
          split: if_splits worker.splits prod.splits bool.splits)
  next
    case (LReturn i err t1 t2)
    then show ?thesis
      using st by (auto simp: set_worker_def process_finish_def requeue_eq Let_def
          split: if_splits worker.splits option.splits)
  next
    case (LSchedSelect c)
    then show ?thesis using st by (cases c) (auto split: if_splits sched.splits)
  next
    case LPromote
    from st [unfolded LPromote] obtain now n q
      where p: "promote_loop now (q_scheduled (s_queue s)) (s_queue s) = (n, q)"
        and s': "s' = s\<lparr>s_queue := q, s_sched := (if n > 0 then SPing else STop)\<rparr>" by (rule LPromote_step)
    then show ?thesis using promote_loop_spec [OF queue_inv_sorted [OF inv] refl p] by simp
  next
    case (LArm t)
    then show ?thesis using st by (auto split: if_splits sched.splits)
  qed (use st l in \<open>auto split: if_splits\<close>)
  then show ?thesis by (simp add: known_def)
qed

lemma run_known:
  "sys_inv s \<Longrightarrow> list_all internal ls \<Longrightarrow> run_labels oor ls s = Some s' \<Longrightarrow> known (s_queue s') a = known (s_queue s) a"
proof (induction ls arbitrary: s)
  case (Cons l ls)
  then obtain s1 where st: "fire oor l s = Some s1" and run: "run_labels oor ls s1 = Some s'"
    by (auto split: option.splits)
  have "queue_inv (s_queue s) (inflight (s_workers s))" using Cons.prems(1) by (simp add: sys_inv_def)
  from fire_known [OF this st] Cons.IH [OF fire_sys_inv [OF Cons.prems(1) st] _ run] Cons.prems(2)
  show ?case by simp
qed simp

text \<open>
  No reachable state is stuck: as long as the queue is open and the context is not cancelled, a
  pool with a worker can bring every known job to its end, completed or dead, by steps of the
  workers and the scheduler alone, whatever signals have been sent, dropped or consumed before.
\<close>

theorem queue_can_drain:
  assumes "reachable oor s" and "s_workers s \<noteq> []" and "\<not> s_cancelled s" and "\<not> q_closed (s_queue s)"
  shows "\<exists>ls s'. list_all internal ls \<and> run_labels oor ls s = Some s' \<and>
    (\<forall>a. known (s_queue s) a \<longrightarrow>
       known (s_queue s') a \<and> j_Status (q_jobs (s_queue s') a) \<in> {StatusCompleted, StatusDead})"
proof -
  have "open_sys s"
    using assms reachable_sys_inv reachable_sched_stays by (auto simp: open_sys_def)
  from open_drains [OF this, of oor] obtain s' where s': "leads_to oor s s'" "open_sys s'"
    "live (s_queue s') (inflight (s_workers s')) = []" by blast
  have inv: "queue_inv (s_queue s') (inflight (s_workers s'))" using s'(2) by (simp add: open_sys_def sys_inv_def)
  have "j_Status (q_jobs (s_queue s') a) \<in> {StatusCompleted, StatusDead}" if "known (s_queue s') a" for a
  proof -
    have "located (s_queue s') (inflight (s_workers s')) a"
      using inv inv_butD(7) [OF _ that] by (auto simp: queue_inv_def)
    with s'(3) show ?thesis
      by (cases "j_Status (q_jobs (s_queue s') a)") (auto simp: located_def live_def is_waiting_def)
  qed
  moreover obtain ls where ls: "list_all internal ls" "run_labels oor ls s = Some s'"
    using s'(1) by (auto simp: leads_to_def)
  moreover have "known (s_queue s') a = known (s_queue s) a" for a
    by (rule run_known [OF reachable_sys_inv [OF assms(1)] ls])
  ultimately show ?thesis by blast
qed

text \<open>From the state with an idle worker beside a ready job.\<close>

theorem queue_can_drain_witness:
  "\<exists>ls s'. list_all internal ls \<and> run_labels 0 ls sample_sys = Some s' \<and>
    known (s_queue s') 0 \<and> j_Status (q_jobs (s_queue s') 0) \<in> {StatusCompleted, StatusDead}"
proof -
  have k: "known (s_queue sample_sys) 0" by code_simp
  have "s_workers sample_sys \<noteq> []" "\<not> s_cancelled sample_sys" "\<not> q_closed (s_queue sample_sys)"
    by code_simp+
  from queue_can_drain [OF sample_reachable [of sample_labels, folded sample_sys_def] this] k
  show ?thesis by blast
qed

end
