(* ===== verification/JobFair.thy ===== *)
theory JobFair
  imports JobDrain
begin

text \<open>
  Liveness under fairness.  An infinite run of the job queue in which every worker and the
  scheduler are scheduled fairly, and in which from some moment on nobody calls the queue, brings
  every known job to its end for good.  Two measures carry the proof: \<open>work\<close> falls with every
  step that does something, and between those \<open>sched_rank\<close> falls with every turn of the scheduler
  that waits for the earliest scheduled job.
\<close>

section \<open>Fair runs\<close>

definition is_run :: "duration \<Rightarrow> (nat \<Rightarrow> 'p sys) \<Rightarrow> (nat \<Rightarrow> 'p label) \<Rightarrow> bool" where
  "is_run oor r l \<longleftrightarrow> (\<forall>n. fire oor (l n) (r n) = Some (r (Suc n)))"

fun worker_label :: "nat \<Rightarrow> 'p label \<Rightarrow> bool" where
  "worker_label k (LTop i) = (i = k)"
| "worker_label k (LSelect i c) = (i = k)"
| "worker_label k (LStart i) = (i = k)"
| "worker_label k (LReturn i err t1 t2) = (i = k)"
| "worker_label k _ = False"

definition sched_label :: "'p label \<Rightarrow> bool" where
  "sched_label l \<longleftrightarrow> internal l \<and> \<not> worker_step l"

text \<open>Weak fairness: a goroutine moves again and again, unless again and again it cannot.\<close>

definition fair :: "('p label \<Rightarrow> bool) \<Rightarrow> duration \<Rightarrow> (nat \<Rightarrow> 'p sys) \<Rightarrow> (nat \<Rightarrow> 'p label) \<Rightarrow> bool" where
  "fair acts oor r l \<longleftrightarrow> (\<forall>n. \<exists>m\<ge>n. acts (l m) \<or> (\<forall>k. acts k \<longrightarrow> fire oor k (r m) = None))"

definition quiet :: "'p label \<Rightarrow> bool" where
  "quiet l \<longleftrightarrow> internal l \<or> (\<exists>t. l = LTick t)"

section \<open>The work that is left\<close>

fun worker_work :: "worker \<Rightarrow> nat" where
  "worker_work WExit = 0"
| "worker_work WParked = 0"
| "worker_work WTop = 1"
| "worker_work (WHolds a) = 2"
| "worker_work (WHandler a) = 9"

definition queue_work :: "'p queue \<Rightarrow> nat" where
  "queue_work q = 2 * of_bool (q_notify q) + of_bool (q_reschedule q) +
     2 * length (q_pending q) + 6 * length (q_scheduled q)"

definition work :: "'p sys \<Rightarrow> nat" where
  "work s = sum_list (map worker_work (s_workers s)) + queue_work (s_queue s) +
     (if s_sched s = SPing then 3 else 0) + 8 * live_attempts (s_queue s) (inflight (s_workers s))"

lemma work_update:
  "i < length ws \<Longrightarrow>
   sum_list (map worker_work (ws[i := w])) + worker_work (ws ! i) = sum_list (map worker_work ws) + worker_work w"
  using elem_le_sum_list [of i "map worker_work ws"]
  by (simp add: map_update sum_list_update)

lemma length_push [simp]: "length (q_pending (push_pending a q)) = Suc (length (q_pending q))"
  by (simp add: push_pending_def heap_push_def hpush_def Let_def)

lemma queue_work_same [simp]:
  "queue_work (upd_job a f q) = queue_work q" "queue_work (dead a q) = queue_work q"
  "queue_work (complete a q) = queue_work q"
  by (simp_all add: queue_work_def)

lemma place_work: "queue_work (place_job a now q) \<le> queue_work q + 7"
  by (auto simp: queue_work_def place_job_def insertScheduled_def insert_at_def Let_def)

lemma process_work:
  "process_start types a q = (run, q') \<Longrightarrow> queue_work q' = queue_work q"
  "queue_work (process_finish oor a err t1 t2 q) \<le> queue_work q + 7"
proof -
  show "process_start types a q = (run, q') \<Longrightarrow> queue_work q' = queue_work q"
    by (auto simp: process_start_def split: if_splits)
  have "queue_work (place_job a t2 (upd_job a f (upd_job a g q))) \<le> queue_work q + 7" for f g
    using place_work [of a t2 "upd_job a f (upd_job a g q)"] by simp
  then show "queue_work (process_finish oor a err t1 t2 q) \<le> queue_work q + 7"
    by (auto simp: process_finish_def requeue_eq Let_def split: option.splits)
qed

lemma top_work:
  assumes inv: "queue_inv q (inflight ws)" and inv': "queue_inv q' (inflight (ws[i := w]))"
    and i: "i < length ws" "ws ! i = WTop" and top: "worker_top q = (w, q')"
  shows "queue_work q' + worker_work w < queue_work q + 1"
    and "live_attempts q' (inflight (ws[i := w])) \<le> live_attempts q (inflight ws)"
proof -
  consider a p where "heap_pop (job_less (q_jobs q)) (q_pending q) = Some (a, p)" "w = WHolds a"
      "q' = upd_job a (\<lambda>j. j\<lparr>j_Status := StatusProcessing\<rparr>) (q\<lparr>q_pending := p\<rparr>)"
    | "w = WExit \<or> w = WParked" "q' = q"
  proof (cases "dequeue_turn q")
    case (Pair r q0)
    with top show thesis
      using that by (cases r) (auto simp: worker_top_def dequeue_turn_cases popPending_Some)
  qed
  then have "queue_work q' + worker_work w < queue_work q + 1 \<and>
    live_attempts q' (inflight (ws[i := w])) \<le> live_attempts q (inflight ws)"
  proof cases
    case 1
    have "mset (inflight (ws[i := w])) = add_mset a (mset (inflight ws))"
      using mset_inflight_update [OF i(1), of w] i(2) 1(2) by simp
    then have "set (inflight (ws[i := w])) = insert a (set (inflight ws))"
      by (metis set_mset_add_mset_insert set_mset_mset)
    then have "set (live q' (inflight (ws[i := w]))) = set (live q (inflight ws))"
      using heap_pop_set [OF 1(1)] 1(3) by (auto simp: live_def)
    then have "live_attempts q' (inflight (ws[i := w])) \<le> live_attempts q (inflight ws)"
      by (intro live_attempts_mono [OF inv inv']) (auto simp: attempts_left_def 1(3))
    moreover have "length (q_pending q) = Suc (length p)"
      using heap_pop_Some(2) [OF 1(1)] by (metis size_add_mset size_mset)
    ultimately show ?thesis using 1 by (simp add: queue_work_def)
  next
    case 2
    then have "live_attempts q' (inflight (ws[i := w])) \<le> live_attempts q (inflight ws)"
      using inflight_same_set [OF i(1), of w] i
      by (intro live_attempts_mono [OF inv inv']) (auto simp: live_def)
    then show ?thesis using 2 by auto
  qed
  then show "queue_work q' + worker_work w < queue_work q + 1"
    and "live_attempts q' (inflight (ws[i := w])) \<le> live_attempts q (inflight ws)" by simp_all
qed

lemma worker_step_work:
  assumes op: "open_sys s" and st: "fire oor l s = Some s'" and w: "worker_step l"
  shows "work s' < work s"
proof -
  have inv: "sys_inv s" and o: "\<not> s_cancelled s" "\<not> q_closed (s_queue s)" using op by (simp_all add: open_sys_def)
  then have q: "queue_inv (s_queue s) (inflight (s_workers s))" by (simp add: sys_inv_def)
  have q': "queue_inv (s_queue s') (inflight (s_workers s'))" by (rule fire_queue_inv [OF q st])
  have ch: "\<not> q_closeCh (s_queue s)" using q o inv_butD(9) [of "{}" "s_queue s"] by (simp add: queue_inv_def)
  show ?thesis
  proof (cases l)
    case (LTop i)
    then obtain w where i: "i < length (s_workers s)" "s_workers s ! i = WTop"
      and top: "worker_top (s_queue s) = (w, s_queue s')" and ws: "s_workers s' = (s_workers s)[i := w]"
      and sc: "s_sched s' = s_sched s"
      using st by (auto simp: set_worker_def split: if_splits prod.splits)
    show ?thesis
      using work_update [OF i(1), of w] top_work [OF q q' [unfolded ws] i top] i(2)
      by (simp add: work_def ws sc)
  next
    case (LSelect i c)
    then obtain w where i: "i < length (s_workers s)" "s_workers s ! i = WParked"
      and ws: "s_workers s' = (s_workers s)[i := WTop]" and n: "q_notify (s_queue s)"
      and s': "s_queue s' = s_queue s\<lparr>q_notify := False\<rparr>" "s_sched s' = s_sched s"
      using st o ch by (cases c) (auto simp: set_worker_def split: if_splits)
    have "live_attempts (s_queue s') (inflight ((s_workers s)[i := WTop])) \<le>
        live_attempts (s_queue s) (inflight (s_workers s))"
      using inflight_same_set [OF i(1), of WTop] i(2)
      by (intro live_attempts_mono [OF q q' [unfolded ws]]) (auto simp: live_def attempts_left_def s')
    then show ?thesis
      using work_update [OF i(1), of WTop] i(2) n by (simp add: work_def queue_work_def ws s')
  next
    case (LStart i)
    then obtain a run where i: "i < length (s_workers s)" "s_workers s ! i = WHolds a"
      and p: "process_start (s_types s) a (s_queue s) = (run, s_queue s')"
      and ws: "s_workers s' = (s_workers s)[i := if run then WHandler a else WTop]"
      and sc: "s_sched s' = s_sched s"
      using st by (auto simp: set_worker_def split: if_splits worker.splits prod.splits bool.splits)
    note process_work(1) [OF p]
    moreover have "live_attempts (s_queue s') (inflight (s_workers s')) < live_attempts (s_queue s) (inflight (s_workers s))"
      unfolding ws by (rule start_measure(1) [OF q q' [unfolded ws] i p refl held_attempts [OF inv i]])
    ultimately show ?thesis
      using work_update [OF i(1), of "if run then WHandler a else WTop"] i(2)
      by (cases run) (simp_all add: work_def ws sc)
  next
    case (LReturn i err t1 t2)
    then obtain a where i: "i < length (s_workers s)" "s_workers s ! i = WHandler a"
      and sq: "s_queue s' = process_finish oor a err t1 t2 (s_queue s)"
      and ws: "s_workers s' = (s_workers s)[i := WTop]" and sc: "s_sched s' = s_sched s"
      using st by (auto simp: set_worker_def split: if_splits worker.splits)
    show ?thesis
      using work_update [OF i(1), of WTop] finish_measure [OF q i sq q' [unfolded ws]] i(2)
        process_work(2) [of oor a err t1 t2 "s_queue s"]
      by (simp add: work_def ws sc sq)
  qed (use w in simp_all)
qed

section \<open>The steps of the scheduler and of the clock\<close>

lemma promote_work:
  assumes inv: "queue_inv q fl" and p: "promote_loop now (q_scheduled q) q = (n, q')"
  shows "queue_work q' + 4 * n = queue_work q" and "n = 0 \<Longrightarrow> q' = q"
    and "n = 0 \<longleftrightarrow> (\<forall>a \<in> set (q_scheduled q). now < j_RunAt (q_jobs q a))"
proof -
  note S = promote_loop_spec [OF queue_inv_sorted [OF inv] refl p]
  have n: "n = length (filter (\<lambda>a. j_RunAt (q_jobs q a) \<le> now) (q_scheduled q))" using S by simp
  have "length (q_pending q') = length (q_pending q) + n"
    using S by (metis size_mset size_union)
  moreover have "length (q_scheduled q') + n = length (q_scheduled q)"
    using S sum_length_filter_compl [of "\<lambda>a. now < j_RunAt (q_jobs q a)" "q_scheduled q"]
    by (simp add: not_less)
  ultimately show "queue_work q' + 4 * n = queue_work q" using S by (simp add: queue_work_def)
  show "n = 0 \<Longrightarrow> q' = q" using p by (cases "q_scheduled q") (auto split: if_splits prod.splits)
  show "n = 0 \<longleftrightarrow> (\<forall>a \<in> set (q_scheduled q). now < j_RunAt (q_jobs q a))"
    unfolding n by (auto simp: filter_empty_conv not_le)
qed

lemma scheduled_live_attempts:
  assumes inv: "queue_inv q fl" "queue_inv q' fl" and p: "promote_loop now (q_scheduled q) q = (n, q')"
  shows "live_attempts q' fl \<le> live_attempts q fl"
  using promote_loop_spec [OF queue_inv_sorted [OF inv(1)] refl p] promote_loop_set [OF inv(1) p]
  by (intro live_attempts_mono [OF inv]) (auto simp: live_def attempts_left_def)

text \<open>
  A step that is not a worker's raises no work; if it lowers none either, it changes neither the
  queue nor the workers, and what it does to the scheduler is one of these.
\<close>

definition idle_turn :: "'p label \<Rightarrow> 'p sys \<Rightarrow> 'p sys \<Rightarrow> bool" where
  "idle_turn l s s' \<longleftrightarrow> s_queue s' = s_queue s \<and> s_workers s' = s_workers s \<and> s_now s \<le> s_now s' \<and>
     (case l of
        LTick t \<Rightarrow> s_sched s' = s_sched s
      | LSchedTop t \<Rightarrow> s_sched s = STop \<and> s_sched s' = sched_top (s_now s') (s_queue s)
      | LArm t \<Rightarrow> (\<exists>d t0 late. s_sched s = SArm d t0 \<and> s_sched s' = SParked (s_now s' + d) late)
      | LSchedSelect c \<Rightarrow> (\<exists>d late t. s_sched s = SParked d late \<and> s_sched s' = SPromote t \<and> d \<le> t)
      | LPromote \<Rightarrow> (\<exists>t. s_sched s = SPromote t \<and> s_sched s' = STop \<and> t \<le> s_now s \<and>
          (\<forall>a \<in> set (q_scheduled (s_queue s)). t < j_RunAt (q_jobs (s_queue s) a)))
      | _ \<Rightarrow> False)"

lemma other_step_work:
  assumes op: "open_sys s" and st: "fire oor l s = Some s'" and l: "quiet l" and w: "\<not> worker_step l"
  shows "work s' < work s \<or> work s' = work s \<and> idle_turn l s s'"
proof -
  have inv: "sys_inv s" and o: "\<not> s_cancelled s" "\<not> q_closed (s_queue s)" using op by (simp_all add: open_sys_def)
  then have q: "queue_inv (s_queue s) (inflight (s_workers s))" and pt: "promote_time_ok s" by (simp_all add: sys_inv_def)
  have q': "queue_inv (s_queue s') (inflight (s_workers s'))" by (rule fire_queue_inv [OF q st])
  have ch: "\<not> q_closeCh (s_queue s)" using q o inv_butD(9) [of "{}" "s_queue s"] by (simp add: queue_inv_def)
  show ?thesis
  proof (cases l)
    case (LSchedSelect c)
    show ?thesis
    proof (cases c)
      case (SWTimer t)
      with st LSchedSelect obtain d late where "s_sched s = SParked d late" "d \<le> t" "s_now s \<le> t"
        "s' = s\<lparr>s_sched := SPromote t, s_now := t\<rparr>"
        by (auto split: if_splits sched.splits)
      then show ?thesis by (simp add: work_def idle_turn_def LSchedSelect)
    next
      case SWReschedule
      with st LSchedSelect obtain d late where "s_sched s = SParked d late" "q_reschedule (s_queue s)"
        "s' = s\<lparr>s_queue := s_queue s\<lparr>q_reschedule := False\<rparr>, s_sched := STop\<rparr>"
        by (auto split: if_splits sched.splits)
      then show ?thesis
        by (simp add: work_def queue_work_def live_attempts_def live_def attempts_left_def [abs_def])
    qed (use st o ch LSchedSelect in \<open>auto split: sched.splits\<close>)
  next
    case LPromote
    from st [unfolded LPromote] obtain now n q where sc: "s_sched s = SPromote now"
      and p: "promote_loop now (q_scheduled (s_queue s)) (s_queue s) = (n, q)"
      and s': "s' = s\<lparr>s_queue := q, s_sched := (if n > 0 then SPing else STop)\<rparr>" by (rule LPromote_step)
    have "live_attempts q (inflight (s_workers s)) \<le> live_attempts (s_queue s) (inflight (s_workers s))"
      using q' s' by (intro scheduled_live_attempts [OF q _ p]) simp
    then have "0 < n \<Longrightarrow> work s' < work s" using promote_work(1) [OF q p] sc by (simp add: work_def s')
    moreover have "n = 0 \<Longrightarrow> work s' = work s \<and> idle_turn l s s'"
      using promote_work(2,3) [OF q p] sc pt by (auto simp: work_def s' idle_turn_def LPromote promote_time_ok_def)
    ultimately show ?thesis by blast
  next
    case LPing
    then show ?thesis
      using st by (auto simp: work_def queue_work_def ping_notify_def live_attempts_def live_def attempts_left_def [abs_def]
          split: if_splits)
  next
    case (LSchedTop t)
    then show ?thesis using st by (auto simp: work_def idle_turn_def sched_top_def split: if_splits)
  next
    case (LArm t)
    then show ?thesis
      using st by (auto simp: work_def idle_turn_def sched_arm_def time_add_def split: if_splits sched.splits)
  next
    case (LTick t)
    then show ?thesis using st by (auto simp: work_def idle_turn_def split: if_splits)
  qed (use w l in \<open>simp_all add: quiet_def\<close>)
qed

lemma quiet_step:
  assumes "open_sys s" and "fire oor l s = Some s'" and "quiet l"
  shows "open_sys s'" and "work s' \<le> work s"
proof -
  show "open_sys s'"
  proof (cases "internal l")
    case False
    then obtain t where "l = LTick t" using assms(3) by (auto simp: quiet_def)
    then have s': "s' = s\<lparr>s_now := t\<rparr>" using assms(2) by (auto split: if_splits)
    have "sys_inv s'" using assms(1,2) fire_sys_inv by (auto simp: open_sys_def)
    then show ?thesis using assms(1) s' by (auto simp: open_sys_def sched_stays_def)
  qed (use open_step [OF assms(1,2)] in simp)
  show "work s' \<le> work s"
    using worker_step_work [OF assms(1,2)] other_step_work [OF assms] by (cases "worker_step l") auto
qed

interpretation jf: progress_steps "fire oor" quiet open_sys work for oor
  by unfold_locales (use quiet_step in blast)+

section \<open>The scheduler on its way to a job\<close>

text \<open>
  How far the scheduler is from promoting a job due at \<open>R\<close>, in four phases per turn.  A turn
  that does not promote it has moved the clock, since a timer is only started with a duration of
  zero when the job is due.
\<close>

definition sched_rank :: "time \<Rightarrow> 'p sys \<Rightarrow> nat" where
  "sched_rank R s =
     (case s_sched s of
        STop \<Rightarrow> if s_now s < R then 4 * nat (R - s_now s) else 4
      | SArm d t \<Rightarrow> 4 * nat (R - (s_now s + d)) + 3
      | SParked d late \<Rightarrow> 4 * nat (R - d) + 2
      | SPromote t \<Rightarrow> 4 * nat (R - t) + 1
      | _ \<Rightarrow> 0)"

lemma scheduler_delay_head:
  assumes "q_scheduled q = a # rest" and "R = j_RunAt (q_jobs q a)"
  shows "(R \<le> now \<longrightarrow> scheduler_delay now q = 0) \<and> (now < R \<longrightarrow> 1 \<le> scheduler_delay now q)"
  using assms by (auto simp: scheduler_delay_def time_sub_def sat_dur_def Let_def)

lemma idle_turn_rank:
  assumes turn: "idle_turn l s s'" and sched: "q_scheduled (s_queue s) = a # rest"
    and R: "R = j_RunAt (q_jobs (s_queue s) a)"
  shows "sched_rank R s' \<le> sched_rank R s" and "sched_label l \<Longrightarrow> sched_rank R s' < sched_rank R s"
proof -
  have now: "s_now s \<le> s_now s'" using turn by (simp add: idle_turn_def)
  have "if sched_label l then sched_rank R s' < sched_rank R s else sched_rank R s' \<le> sched_rank R s"
  proof (cases l)
    case (LTick t)
    then show ?thesis
      using turn by (auto simp: idle_turn_def sched_label_def sched_rank_def split: sched.splits)
  next
    case (LSchedTop t)
    then have "s_sched s = STop" "s_sched s' = SArm (scheduler_delay (s_now s') (s_queue s)) (s_now s')"
      using turn by (auto simp: idle_turn_def sched_top_def)
    then show ?thesis
      using now scheduler_delay_head [OF sched R, of "s_now s'"] by (auto simp: sched_rank_def)
  next
    case (LArm t)
    then obtain d t0 late where "s_sched s = SArm d t0" "s_sched s' = SParked (s_now s' + d) late"
      using turn by (auto simp: idle_turn_def)
    then show ?thesis using now by (auto simp: sched_rank_def)
  next
    case (LSchedSelect c)
    then obtain d late t where "s_sched s = SParked d late" "s_sched s' = SPromote t" "d \<le> t"
      using turn by (auto simp: idle_turn_def)
    then show ?thesis by (auto simp: sched_rank_def)
  next
    case LPromote
    then obtain t where "s_sched s = SPromote t" "s_sched s' = STop" "t \<le> s_now s" "t < R"
      using turn sched R by (auto simp: idle_turn_def)
    then show ?thesis using now by (auto simp: sched_rank_def)
  qed (use turn in \<open>auto simp: idle_turn_def\<close>)
  then show "sched_rank R s' \<le> sched_rank R s" and "sched_label l \<Longrightarrow> sched_rank R s' < sched_rank R s"
    by (simp_all split: if_splits)
qed

section \<open>Who can move\<close>

lemma blocked_worker:
  assumes "open_sys s" and i: "i < length (s_workers s)"
    and blocked: "\<forall>k. worker_label i k \<longrightarrow> fire oor k s = None"
  shows "s_workers s ! i = WParked \<and> \<not> q_notify (s_queue s)"
proof -
  have "s_workers s ! i \<noteq> WExit"
    using assms(1) i by (metis no_early_exit_def nth_mem open_sys_def sys_inv_def)
  moreover have "fire oor (LTop i) s = None" "fire oor (LStart i) s = None"
    "fire oor (LReturn i None (s_now s) (s_now s)) s = None" "fire oor (LSelect i WakeNotify) s = None"
    by (rule blocked [rule_format], simp)+
  ultimately show ?thesis
    using i by (cases "s_workers s ! i") (auto split: prod.splits bool.splits if_splits)
qed

lemma sched_can_move:
  assumes "open_sys s"
  shows "\<exists>k. sched_label k \<and> fire oor k s \<noteq> None"
proof (cases "s_sched s")
  case STop
  then show ?thesis by (intro exI [of _ "LSchedTop (s_now s)"]) (simp add: sched_label_def)
next
  case (SArm d t)
  then show ?thesis by (intro exI [of _ "LArm (s_now s)"]) (simp add: sched_label_def)
next
  case (SParked d late)
  then show ?thesis
    by (intro exI [of _ "LSchedSelect (SWTimer (max d (s_now s)))"]) (simp add: sched_label_def)
next
  case (SPromote t)
  then show ?thesis
    by (intro exI [of _ LPromote]) (auto simp: sched_label_def split: prod.splits)
next
  case SPing
  then show ?thesis by (intro exI [of _ LPing]) (simp add: sched_label_def)
next
  case SExit
  then show ?thesis using assms by (auto simp: open_sys_def sched_stays_def)
qed

section \<open>When the work has settled\<close>

lemma settled_drained:
  assumes run: "is_run oor r l" and quiet: "\<And>n. M \<le> n \<Longrightarrow> quiet (l n)"
    and settled: "\<And>n. M \<le> n \<Longrightarrow> open_sys (r n) \<and> work (r n) = work (r M)"
    and workers: "\<And>i. i < length (s_workers (r M)) \<Longrightarrow> fair (worker_label i) oor r l"
    and sched: "fair sched_label oor r l"
  shows "live (s_queue (r M)) (inflight (s_workers (r M))) = []"
proof -
  have turn: "idle_turn (l n) (r n) (r (Suc n))" "\<not> worker_step (l n)" if "M \<le> n" for n
    using worker_step_work [of "r n" oor "l n"] other_step_work [of "r n" oor "l n"]
      quiet [OF that] settled [OF that] settled [of "Suc n"] run that by (auto simp: is_run_def)
  have same: "s_queue (r n) = s_queue (r M) \<and> s_workers (r n) = s_workers (r M)" if "M \<le> n" for n
    using that by (induction rule: dec_induct) (use turn in \<open>auto simp: idle_turn_def\<close>)
  have parked: "s_workers (r M) ! i = WParked \<and> \<not> q_notify (s_queue (r M))" if i: "i < length (s_workers (r M))" for i
  proof -
    obtain m where m: "M \<le> m" "worker_label i (l m) \<or> (\<forall>k. worker_label i k \<longrightarrow> fire oor k (r m) = None)"
      using workers [OF i] by (auto simp: fair_def)
    moreover have "\<not> worker_label i (l m)" using turn(2) [OF m(1)] by (cases "l m") simp_all
    ultimately show ?thesis using blocked_worker [of "r m" i oor] settled [OF m(1)] same [OF m(1)] i by simp
  qed
  have moves: "\<exists>m\<ge>n. M \<le> m \<and> sched_label (l m)" for n
  proof -
    obtain m where m: "max n M \<le> m" "sched_label (l m) \<or> (\<forall>k. sched_label k \<longrightarrow> fire oor k (r m) = None)"
      using sched unfolding fair_def by blast
    then show ?thesis using sched_can_move [of "r m" oor] settled [of m] by auto
  qed
  have "s_sched (r M) \<noteq> SPing"
  proof
    assume ping: "s_sched (r M) = SPing"
    have stays: "s_sched (r n) = SPing" if "M \<le> n" for n
      using that
    proof (induction rule: dec_induct)
      case (step n)
      then show ?case using turn(1) [OF step.hyps(1)] by (cases "l n") (auto simp: idle_turn_def)
    qed (rule ping)
    obtain m where "M \<le> m" "sched_label (l m)" using moves by blast
    then show False
      using turn(1) [of m] stays [of m] by (cases "l m") (auto simp: idle_turn_def sched_label_def)
  qed
  moreover have op: "open_sys (r M)" using settled by blast
  then have "s_workers (r M) \<noteq> []" by (simp add: open_sys_def)
  ultimately have pending: "q_pending (s_queue (r M)) = []"
    using op parked by (fastforce simp: open_sys_def sys_inv_def no_lost_wakeup_def awake_def in_set_conv_nth)
  have "q_scheduled (s_queue (r M)) = []"
  proof (rule ccontr)
    assume "q_scheduled (s_queue (r M)) \<noteq> []"
    then obtain a rest where a: "q_scheduled (s_queue (r M)) = a # rest" by (cases "q_scheduled (s_queue (r M))") auto
    note rank = idle_turn_rank [OF turn(1) _ refl, of _ a rest]
    let ?f = "\<lambda>n. sched_rank (j_RunAt (q_jobs (s_queue (r M)) a)) (r n)"
    show False
    proof (rule falls_forever [of M ?f "\<lambda>m. M \<le> m \<and> sched_label (l m)"])
      show "?f (Suc n) \<le> ?f n" if "M \<le> n" for n using rank(1) [OF that] same [OF that] a by simp
      show "?f (Suc n) < ?f n" if "M \<le> n" "M \<le> n \<and> sched_label (l n)" for n
        using rank(2) [OF that(1)] same [OF that(1)] a that(2) by simp
    qed (rule moves)
  qed
  moreover have "inflight (s_workers (r M)) = []"
    using parked by (auto simp: inflight_def in_set_conv_nth)
  ultimately show ?thesis using pending by (simp add: live_def)
qed

section \<open>Every fair run drains the queue\<close>

lemma quiet_known:
  assumes "open_sys s" and "fire oor l s = Some s'" and "quiet l"
  shows "known (s_queue s') a = known (s_queue s) a"
proof (cases "internal l")
  case True
  then show ?thesis
    using assms fire_known [of s "inflight (s_workers s)"] by (simp add: open_sys_def sys_inv_def)
next
  case False
  then show ?thesis using assms(2,3) by (auto simp: quiet_def split: if_splits)
qed

lemma drained_status:
  assumes inv: "queue_inv q fl" and "live q fl = []" and "known q a"
  shows "j_Status (q_jobs q a) \<in> {StatusCompleted, StatusDead}"
proof -
  have "located q fl a"
    using inv inv_butD(7) [OF _ assms(3), of "{}"] by (auto simp: queue_inv_def)
  with assms(2) show ?thesis
    by (cases "j_Status (q_jobs q a)") (auto simp: located_def live_def is_waiting_def)
qed

lemma run_reachable:
  assumes "is_run oor r l" and "reachable oor (r 0)"
  shows "reachable oor (r n) \<and> length (s_workers (r n)) = length (s_workers (r 0))"
proof (induction n)
  case (Suc n)
  have st: "fire oor (l n) (r n) = Some (r (Suc n))" using assms(1) by (simp add: is_run_def)
  show ?case using Suc reachable.step [OF _ st] fire_workers [OF st] by simp
qed (use assms in simp)

text \<open>
  C5. Liveness under fairness.  Take any infinite run in which no worker and not the scheduler is
  held back for ever while it could move (handlers return, the clock gets to every deadline), and
  in which from step \<open>N\<close> on nobody calls the queue.  Then from some step on every job known at
  \<open>N\<close> is completed or dead, whatever the handlers returned and however the steps interleave.
\<close>

theorem fair_runs_drain:
  assumes "reachable oor (r 0)" and "is_run oor r l" and "s_workers (r 0) \<noteq> []"
    and "\<forall>i < length (s_workers (r 0)). fair (worker_label i) oor r l" and "fair sched_label oor r l"
    and "\<forall>n\<ge>N. quiet (l n)" and "\<not> s_cancelled (r N)" and "\<not> q_closed (s_queue (r N))"
  shows "\<exists>M\<ge>N. \<forall>n\<ge>M. \<forall>a. known (s_queue (r N)) a \<longrightarrow>
    known (s_queue (r n)) a \<and> j_Status (q_jobs (s_queue (r n)) a) \<in> {StatusCompleted, StatusDead}"
proof -
  have R: "reachable oor (r n)" "length (s_workers (r n)) = length (s_workers (r 0))" for n
    using run_reachable [OF assms(2,1)] by blast+
  have "s_workers (r N) \<noteq> []" using R(2) [of N] assms(3) by (metis length_0_conv)
  then have op: "open_sys (r N)"
    using assms(7,8) reachable_sys_inv [OF R(1)] reachable_sched_stays [OF R(1)] by (simp add: open_sys_def)
  have st: "fire oor (l n) (r n) = Some (r (Suc n))" for n using assms(2) by (simp add: is_run_def)
  have q: "quiet (l n)" if "N \<le> n" for n using assms(6) that by blast
  from jf.settles [OF st op q] obtain M where M: "N \<le> M"
    "\<And>n. M \<le> n \<Longrightarrow> open_sys (r n) \<and> work (r n) = work (r M)" by blast
  have kn: "known (s_queue (r n)) a = known (s_queue (r N)) a" if "N \<le> n" for n a
    using that
  proof (induction rule: dec_induct)
    case (step n)
    from quiet_known [OF jf.run_from [OF st op q step.hyps(1)] st q [OF step.hyps(1)], of a] step.IH
    show ?case by simp
  qed simp
  have "live (s_queue (r n)) (inflight (s_workers (r n))) = []" if n: "M \<le> n" for n
  proof (rule settled_drained [OF assms(2)])
    show "open_sys (r k) \<and> work (r k) = work (r n)" if "n \<le> k" for k
      using M(2) [of k] M(2) [OF n] n that by simp
  qed (use q M(1) n assms(4,5) R(2) [of n] in auto)
  moreover have "queue_inv (s_queue (r n)) (inflight (s_workers (r n)))" if "M \<le> n" for n
    using M(2) [OF that] by (simp add: open_sys_def sys_inv_def)
  ultimately show ?thesis
    using drained_status kn M(1) order_trans by (metis (no_types, lifting))
qed

text \<open>
  A run with one worker and one job that fails once: it waits a second in the scheduled list, is
  promoted, succeeds, and the scheduler turns for ever.
\<close>

lemma run_labels_take:
  "run_labels oor ls s \<noteq> None \<Longrightarrow> n < length ls \<Longrightarrow>
   \<exists>s1 s2. run_labels oor (take n ls) s = Some s1 \<and> run_labels oor (take (Suc n) ls) s = Some s2 \<and>
     fire oor (ls ! n) s1 = Some s2"
proof (induction ls arbitrary: s n)
  case (Cons l ls)
  then obtain s1 where s1: "fire oor l s = Some s1" "run_labels oor ls s1 \<noteq> None"
    by (auto split: option.splits)
  show ?case
  proof (cases n)
    case (Suc k)
    with Cons.IH [OF s1(2), of k] Cons.prems(2) s1(1) show ?thesis by simp
  qed (use s1 in simp)
qed simp

lemma run_labels_nth:
  assumes "run_labels oor ls s \<noteq> None" and "n < length ls"
  shows "fire oor (ls ! n) (after oor (take n ls) s) = Some (after oor (take (Suc n) ls) s)"
  using run_labels_take [OF assms] by (auto simp: after_def)

definition retry_labels :: "unit label list" where
  "retry_labels =
     [LEnqueue 0 20 20, LTop 0, LStart 0, LReturn 0 (Some ''down'') 21 21, LTop 0, LSelect 0 WakeNotify, LTop 0,
      LSchedTop 22, LArm 22, LSchedSelect SWReschedule, LSchedTop 30, LArm 31,
      LSchedSelect (SWTimer 2000000000), LPromote, LPing, LSelect 0 WakeNotify, LTop 0, LStart 0,
      LReturn 0 None 2000000001 2000000001, LTop 0]"

definition retry_init :: "unit sys" where
  "retry_init = init_sys (\<lambda>a. sample_job ''a'' 1 2) 1 (\<lambda>ty. ty = ''mail'') 10"

definition retry_sys :: "unit sys" where
  "retry_sys = after 0 retry_labels retry_init"

definition turn_label :: "time \<Rightarrow> nat \<Rightarrow> unit label" where
  "turn_label t0 k =
     (let t = t0 + int (k div 4) * maxPark in
      [LSchedTop t, LArm t, LSchedSelect (SWTimer (t + maxPark)), LPromote] ! (k mod 4))"

definition turn_sys :: "unit sys \<Rightarrow> nat \<Rightarrow> unit sys" where
  "turn_sys s k =
     (let t = s_now s + int (k div 4) * maxPark in
      [s\<lparr>s_now := t\<rparr>, s\<lparr>s_sched := SArm maxPark t, s_now := t\<rparr>,
       s\<lparr>s_sched := SParked (t + maxPark) 0, s_now := t\<rparr>,
       s\<lparr>s_sched := SPromote (t + maxPark), s_now := t + maxPark\<rparr>] ! (k mod 4))"

lemma turn_fires:
  assumes "s_sched s = STop" and "q_scheduled (s_queue s) = []"
  shows "fire oor (turn_label (s_now s) k) (turn_sys s k) = Some (turn_sys s (Suc k))"
proof -
  define d m where "d = k div 4" and "m = k mod 4"
  then have m: "m = 0 \<or> m = 1 \<or> m = 2 \<or> m = 3" and k: "k div 4 = d" "k mod 4 = m" by auto
  have k': "Suc k div 4 = (if m = 3 then Suc d else d)" "Suc k mod 4 = (if m = 3 then 0 else Suc m)"
    unfolding d_def m_def by presburger+
  have "0 \<le> maxPark" by (simp add: maxPark_def second_def)
  then show ?thesis
    using m assms unfolding turn_label_def turn_sys_def k k'
    by (elim disjE) (simp_all add: Let_def sched_top_def sched_arm_def time_add_def scheduler_delay_def algebra_simps)
qed

definition retry_run :: "nat \<Rightarrow> unit sys" where
  "retry_run n = (if n < 20 then after 0 (take n retry_labels) retry_init else turn_sys retry_sys (n - 20))"

definition retry_run_label :: "nat \<Rightarrow> unit label" where
  "retry_run_label n = (if n < 20 then retry_labels ! n else turn_label (s_now retry_sys) (n - 20))"

lemma retry_sys_simps:
  "s_sched retry_sys = STop" "q_scheduled (s_queue retry_sys) = []" "s_workers retry_sys = [WParked]"
  "\<not> q_notify (s_queue retry_sys)" "\<not> s_cancelled retry_sys" "\<not> q_closeCh (s_queue retry_sys)"
  "known (s_queue retry_sys) 0"
  by code_simp+

lemma turn_sys_same: "s_queue (turn_sys s k) = s_queue s \<and> s_workers (turn_sys s k) = s_workers s \<and>
    s_cancelled (turn_sys s k) = s_cancelled s"
proof -
  have "k mod 4 = 0 \<or> k mod 4 = 1 \<or> k mod 4 = 2 \<or> k mod 4 = 3" by linarith
  then show ?thesis unfolding turn_sys_def by (elim disjE) (simp_all add: Let_def)
qed

lemma turn_label_sched: "sched_label (turn_label t k)"
proof -
  have "k mod 4 = 0 \<or> k mod 4 = 1 \<or> k mod 4 = 2 \<or> k mod 4 = 3" by linarith
  then show ?thesis unfolding turn_label_def by (elim disjE) (simp_all add: Let_def sched_label_def)
qed

lemma retry_run_is_run: "is_run 0 retry_run retry_run_label"
  unfolding is_run_def
proof
  fix n :: nat
  have l: "length retry_labels = 20" by code_simp
  have t: "turn_sys retry_sys 0 = retry_sys" by (simp add: turn_sys_def Let_def)
  have ok: "run_labels 0 retry_labels retry_init \<noteq> None" by code_simp
  consider "n < 19" | "n = 19" | "20 \<le> n" by linarith
  then show "fire 0 (retry_run_label n) (retry_run n) = Some (retry_run (Suc n))"
  proof cases
    case 1
    then show ?thesis using run_labels_nth [OF ok, of n] l by (simp add: retry_run_def retry_run_label_def)
  next
    case 2
    then show ?thesis
      using run_labels_nth [OF ok, of n] l t by (simp add: retry_run_def retry_run_label_def retry_sys_def)
  next
    case 3
    then have "Suc (n - 20) = n - 19" by simp
    with 3 show ?thesis
      using turn_fires [OF retry_sys_simps(1,2), of 0 "n - 20"]
      by (simp add: retry_run_def retry_run_label_def)
  qed
qed

lemma retry_run_fair: "fair (worker_label 0) 0 retry_run retry_run_label" "fair sched_label 0 retry_run retry_run_label"
proof -
  have "fire 0 k (turn_sys retry_sys n) = None" if "worker_label 0 k" for k n
    using that turn_sys_same [of retry_sys n] retry_sys_simps
    by (cases k; simp) (rename_tac c, case_tac c; simp)
  then have "\<forall>k. worker_label 0 k \<longrightarrow> fire 0 k (retry_run (n + 20)) = None" for n by (simp add: retry_run_def)
  then show "fair (worker_label 0) 0 retry_run retry_run_label"
    unfolding fair_def by (meson le_add1)
  have "sched_label (retry_run_label (n + 20))" for n by (simp add: retry_run_label_def turn_label_sched)
  then show "fair sched_label 0 retry_run retry_run_label"
    unfolding fair_def by (meson le_add1)
qed

theorem fair_runs_drain_witness:
  "\<exists>M\<ge>20. \<forall>n\<ge>M. known (s_queue (retry_run n)) 0 \<and>
    j_Status (q_jobs (s_queue (retry_run n)) 0) \<in> {StatusCompleted, StatusDead}"
proof -
  have 0: "retry_run 0 = retry_init" by (simp add: retry_run_def after_def)
  have 20: "retry_run 20 = turn_sys retry_sys 0" by (simp add: retry_run_def)
  have "reachable 0 (retry_run 0)"
    unfolding 0 retry_init_def by (rule reachable.start) (simp add: fresh_job_def sample_job_def in_i64_def)
  moreover have "s_workers (retry_run 0) = [WTop]" unfolding 0 by code_simp
  moreover have "\<forall>n\<ge>20. quiet (retry_run_label n)"
    using turn_label_sched by (auto simp: retry_run_label_def quiet_def sched_label_def)
  moreover have "\<not> q_closed (s_queue retry_sys)" by code_simp
  ultimately show ?thesis
    using fair_runs_drain [of 0 retry_run retry_run_label 20] retry_run_is_run retry_run_fair
      turn_sys_same [of retry_sys 0] retry_sys_simps by (auto simp: 20)
qed

end
