(* ===== verification/GoFloat.thy ===== *)
theory GoFloat
  imports GoPrelude Complex_Main "HOL-Library.Code_Target_Nat"
begin

text \<open>
  The one operation on \<open>float64\<close> the program's decisions depend on: the correctly rounded
  quotient of two non-negative integers (IEEE 754, 53-bit significand, round half to even).
  \<open>f64_ratio a b\<close> scales \<open>a / b\<close> by powers of two until it lies in \<open>[2^52, 2^53)\<close>, rounds it to
  an integer and scales back.  The integers themselves are taken to be exact (below \<open>2^53\<close>),
  and the exponents stay far from underflow and overflow.
\<close>

definition round_half_even :: "nat \<Rightarrow> nat \<Rightarrow> nat" where
  "round_half_even a b =
     (let d = a div b; r = a mod b in
      if 2 * r < b then d else if 2 * r > b then d + 1 else if even d then d else d + 1)"

function f64_up :: "nat \<Rightarrow> nat \<Rightarrow> nat \<Rightarrow> nat \<times> nat" where
  "f64_up a b u = (if 0 < a \<and> a < 2 ^ 52 * b then f64_up (2 * a) b (u + 1) else (a, u))"
  by pat_completeness auto
termination
  by (relation "measure (\<lambda>(a, b, u). 2 ^ 52 * b - a)") auto

function f64_down :: "nat \<Rightarrow> nat \<Rightarrow> nat \<Rightarrow> nat \<times> nat" where
  "f64_down a b d = (if 0 < b \<and> 2 ^ 53 * b \<le> a then f64_down a (2 * b) (d + 1) else (b, d))"
  by pat_completeness auto
termination
  by (relation "measure (\<lambda>(a, b, d). a - b)") auto

declare f64_up.simps [simp del] f64_down.simps [simp del]

definition f64_ratio :: "nat \<Rightarrow> nat \<Rightarrow> rat" where
  "f64_ratio a b =
     (let (a', u) = f64_up a b 0; (b', d) = f64_down a' b 0
      in of_nat (round_half_even a' b' * 2 ^ d) / 2 ^ u)"

text \<open>The values a \<open>float64\<close> can hold, as far as they matter here.\<close>

definition is_f64 :: "rat \<Rightarrow> bool" where
  "is_f64 x \<longleftrightarrow> (\<exists>m k. m < 2 ^ 53 \<and> x = of_nat m / 2 ^ k)"

section \<open>Rounding\<close>

lemma round_half_even_lower: "0 < b \<Longrightarrow> n * b \<le> a \<Longrightarrow> n \<le> round_half_even a b"
  by (auto simp: round_half_even_def Let_def less_eq_div_iff_mult_less_eq intro: le_SucI)

lemma round_half_even_upper:
  assumes "0 < b" and "a \<le> n * b"
  shows "round_half_even a b \<le> n"
proof (cases "a mod b = 0")
  case True
  then show ?thesis
    using assms by (auto simp: round_half_even_def Let_def elim!: dvdE)
next
  case False
  have "a < (n * b)" using assms False by (metis le_neq_implies_less mod_mult_self2_is_0)
  then have "a div b < n" using assms(1) by (simp add: less_mult_imp_div_less)
  then show ?thesis by (auto simp: round_half_even_def Let_def)
qed

lemma f64_up_spec:
  assumes "0 < a" and "0 < b" and "f64_up a b u = (a', u')"
  shows "\<exists>k. u' = u + k \<and> a' = a * 2 ^ k \<and> 2 ^ 52 * b \<le> a' \<and> (0 < k \<longrightarrow> a' < 2 ^ 53 * b)"
  using assms
proof (induction a b u arbitrary: rule: f64_up.induct)
  case (1 a b u)
  show ?case
  proof (cases "a < 2 ^ 52 * b")
    case True
    with 1 obtain k where k: "u' = Suc u + k" "a' = 2 * a * 2 ^ k" "2 ^ 52 * b \<le> a'"
      "0 < k \<longrightarrow> a' < 2 ^ 53 * b"
      by (auto simp: f64_up.simps [of a b u])
    then have "a' < 2 ^ 53 * b" using True by (cases k) auto
    with k show ?thesis by (intro exI [of _ "Suc k"]) simp
  next
    case False
    with 1 show ?thesis by (auto simp: f64_up.simps [of a b u] intro!: exI [of _ 0])
  qed
qed

text \<open>A quotient below \<open>2^53\<close>, in closed form.\<close>

lemma f64_ratio_scaled:
  assumes "0 < a" and "0 < b" and "a < 2 ^ 53 * b"
  shows "\<exists>u. f64_ratio a b = of_nat (round_half_even (a * 2 ^ u) b) / 2 ^ u \<and>
    2 ^ 52 * b \<le> a * 2 ^ u \<and> a * 2 ^ u < 2 ^ 53 * b"
proof -
  obtain a' u where up: "f64_up a b 0 = (a', u)" by fastforce
  from f64_up_spec [OF assms(1,2) up] have u: "a' = a * 2 ^ u" "2 ^ 52 * b \<le> a'"
    and "0 < u \<longrightarrow> a' < 2 ^ 53 * b" by auto
  moreover have "a' < 2 ^ 53 * b" if "u = 0" using that u assms(3) by simp
  ultimately have lt: "a' < 2 ^ 53 * b" by blast
  then have "f64_down a' b 0 = (b, 0)" by (simp add: f64_down.simps)
  then have "f64_ratio a b = of_nat (round_half_even a' b) / 2 ^ u"
    by (simp add: f64_ratio_def up)
  with u lt show ?thesis by blast
qed

lemma f64_ratio_le_one:
  assumes "0 < a" and "a \<le> b"
  shows "\<exists>u. f64_ratio a b = of_nat (round_half_even (a * 2 ^ u) b) / 2 ^ u \<and>
    2 ^ 52 * b \<le> a * 2 ^ u \<and> a * 2 ^ u < 2 ^ 53 * b"
  using assms by (intro f64_ratio_scaled) auto

lemma f64_ratio_zero [simp]: "f64_ratio 0 b = 0"
  by (simp add: f64_ratio_def f64_up.simps [of 0] f64_down.simps [of 0] round_half_even_def)

text \<open>Rounding never drops below a representable value the exact quotient reaches.\<close>

lemma f64_ratio_ge:
  assumes "0 < a" and "a \<le> b" and t: "is_f64 t" and ge: "t \<le> of_nat a / of_nat b"
  shows "t \<le> f64_ratio a b"
proof -
  obtain u where r: "f64_ratio a b = of_nat (round_half_even (a * 2 ^ u) b) / 2 ^ u"
    and u: "2 ^ 52 * b \<le> a * 2 ^ u" using f64_ratio_le_one [OF assms(1,2)] by blast
  have b: "0 < b" using assms by simp
  obtain m k where m: "m < 2 ^ 53" "t = of_nat m / 2 ^ k" using t by (auto simp: is_f64_def)
  show ?thesis
  proof (cases "k \<le> u")
    case True
    have "(of_nat m * of_nat b :: rat) \<le> of_nat a * 2 ^ k"
      using ge b unfolding m(2) by (simp add: field_simps)
    then have "m * b \<le> a * 2 ^ k"
      by (metis (mono_tags) of_nat_le_iff of_nat_mult of_nat_numeral of_nat_power)
    then have "m * b * 2 ^ (u - k) \<le> a * 2 ^ k * 2 ^ (u - k)" by (rule mult_le_mono1)
    then have "(m * 2 ^ (u - k)) * b \<le> a * 2 ^ u"
      using True by (simp add: ac_simps flip: power_add)
    from round_half_even_lower [OF b this]
    have "of_nat (m * 2 ^ (u - k)) \<le> (of_nat (round_half_even (a * 2 ^ u) b) :: rat)"
      by (rule of_nat_mono)
    moreover have "(2 :: rat) ^ u = 2 ^ k * 2 ^ (u - k)" using True by (simp flip: power_add)
    ultimately show ?thesis unfolding r m(2) by (simp add: field_simps)
  next
    case False
    have "2 ^ 52 \<le> round_half_even (a * 2 ^ u) b" using round_half_even_lower [OF b u] .
    then have "(2 :: rat) ^ 52 \<le> of_nat (round_half_even (a * 2 ^ u) b)"
      by (metis of_nat_le_iff of_nat_numeral of_nat_power)
    then have 1: "(2 :: rat) ^ 52 / 2 ^ u \<le> f64_ratio a b" unfolding r by (simp add: divide_right_mono)
    have "(of_nat m :: rat) \<le> 2 ^ 53"
      using m(1) by (metis less_imp_le of_nat_le_iff of_nat_numeral of_nat_power)
    moreover have "(2 :: rat) ^ Suc u \<le> 2 ^ k" using False by (intro power_increasing) auto
    ultimately have "t \<le> 2 ^ 53 / 2 ^ Suc u" unfolding m(2) by (intro frac_le) auto
    with 1 show ?thesis by simp
  qed
qed

text \<open>Half is exact: for counters below \<open>2^52\<close> no rounding reaches it from below.\<close>

lemma f64_ratio_half:
  assumes "a \<le> b" and "0 < b" and "b < 2 ^ 52"
  shows "1 / 2 \<le> f64_ratio a b \<longleftrightarrow> b \<le> 2 * a"
proof
  assume h: "b \<le> 2 * a"
  then have "(of_nat b :: rat) \<le> of_nat (2 * a)" by (simp only: of_nat_le_iff)
  then have "(1 / 2 :: rat) \<le> of_nat a / of_nat b" using assms(2) by (simp add: field_simps)
  moreover have "0 < a" using h assms(2) by simp
  moreover have "is_f64 (1 / 2)"
    unfolding is_f64_def by (rule exI [of _ 1], rule exI [of _ 1]) simp
  ultimately show "1 / 2 \<le> f64_ratio a b" using f64_ratio_ge assms(1) by blast
next
  assume h: "1 / 2 \<le> f64_ratio a b"
  show "b \<le> 2 * a"
  proof (rule ccontr)
    assume n: "\<not> b \<le> 2 * a"
    have a: "0 < a" using h by (cases a) auto
    obtain u where r: "f64_ratio a b = of_nat (round_half_even (a * 2 ^ u) b) / 2 ^ u"
      and u: "2 ^ 52 * b \<le> a * 2 ^ u" "a * 2 ^ u < 2 ^ 53 * b" using f64_ratio_le_one [OF a assms(1)] by blast
    have "u \<noteq> 0" using u n assms by (cases u) auto
    then obtain v where v: "u = Suc v" by (cases u) auto
    have "2 ^ 52 * b \<le> (2 * a) * 2 ^ v" using u(1) by (simp add: v)
    also have "\<dots> < b * 2 ^ v" using n by (intro mult_less_mono1) auto
    finally have "(2 :: nat) ^ 52 * b < 2 ^ v * b" by (simp add: mult.commute)
    then have "(2 :: nat) ^ 52 < 2 ^ v" by simp
    then have v52: "52 < v" by (rule power_less_imp_less_exp [rotated]) simp
    have "2 ^ v \<le> round_half_even (a * 2 ^ u) b"
    proof -
      have "(2 ^ v :: rat) \<le> of_nat (round_half_even (a * 2 ^ u) b)"
        using h unfolding r v by (simp add: field_simps)
      then show ?thesis by (metis of_nat_le_iff of_nat_numeral of_nat_power)
    qed
    moreover have "round_half_even (a * 2 ^ u) b \<le> 2 ^ v - 1"
    proof (rule round_half_even_upper)
      have "a * 2 ^ u = (2 * a) * 2 ^ v" by (simp add: v)
      also have "\<dots> \<le> (b - 1) * 2 ^ v" using n by (intro mult_le_mono1) simp
      also have "\<dots> = b * 2 ^ v - 2 ^ v" by (simp add: diff_mult_distrib)
      also have "\<dots> \<le> b * 2 ^ v - b"
      proof -
        have "b < 2 ^ v"
          using assms(3) power_increasing [of 52 v "2 :: nat"] v52 by linarith
        then show ?thesis by simp
      qed
      finally show "a * 2 ^ u \<le> (2 ^ v - 1) * b" by (simp add: diff_mult_distrib diff_mult_distrib2 mult.commute)
    qed (rule assms(2))
    moreover have "(0 :: nat) < 2 ^ v" by simp
    ultimately show False by linarith
  qed
qed

end
