(* ===== verification/CircuitWindow.thy ===== *)
theory CircuitWindow
  imports GoFloat
begin

text \<open>
  The call window of \<open>system-design/circuit-breaker/window.go\<close>: a ring buffer of outcomes with
  running counters.  \<open>window_list\<close> is the abstract value, the recorded outcomes from the oldest
  to the newest; the locale \<open>outcome_log\<close> is what the breaker relies on (a bounded log whose
  counters agree with its contents), interpreted on the ring buffer at the end.
\<close>

section \<open>The ring buffer\<close>

record window =
  w_ring :: "bool list"
  w_head :: nat
  w_total :: nat
  w_failures :: int

definition newWindow :: "nat \<Rightarrow> window" where
  "newWindow n = \<lparr>w_ring = replicate n False, w_head = 0, w_total = 0, w_failures = 0\<rparr>"

text \<open>\<open>None\<close> is the index panic: the slot at \<open>head\<close> does not exist.\<close>

definition win_record :: "bool \<Rightarrow> window \<Rightarrow> window option" where
  "win_record success w =
     (if w_head w \<ge> length (w_ring w) then None
      else
        let w = (if w_total w = length (w_ring w)
                 then (if \<not> w_ring w ! w_head w then w\<lparr>w_failures := w_failures w - 1\<rparr> else w)
                 else w\<lparr>w_total := w_total w + 1\<rparr>);
            w = w\<lparr>w_ring := (w_ring w)[w_head w := success]\<rparr>;
            w = (if \<not> success then w\<lparr>w_failures := w_failures w + 1\<rparr> else w)
        in Some (w\<lparr>w_head := (w_head w + 1) mod length (w_ring w)\<rparr>))"

definition win_count :: "window \<Rightarrow> nat" where
  "win_count w = w_total w"

definition failureRate :: "window \<Rightarrow> rat" where
  "failureRate w =
     (if w_total w = 0 then 0 else f64_ratio (nat (w_failures w)) (w_total w))"

definition win_reset :: "window \<Rightarrow> window" where
  "win_reset w = w\<lparr>w_head := 0, w_total := 0, w_failures := 0\<rparr>"

section \<open>The abstract log\<close>

text \<open>
  The contract: a log of capacity \<open>cap\<close>.  Recording appends, and drops the oldest outcome when
  the log was full; the counters are functions of the contents.
\<close>

definition push_bounded :: "nat \<Rightarrow> 'a list \<Rightarrow> 'a \<Rightarrow> 'a list" where
  "push_bounded n xs x = (if length xs < n then xs @ [x] else tl xs @ [x])"

definition last_n :: "nat \<Rightarrow> 'a list \<Rightarrow> 'a list" where
  "last_n n xs = drop (length xs - n) xs"

lemma push_bounded_last_n:
  assumes "0 < n"
  shows "push_bounded n (last_n n xs) x = last_n n (xs @ [x])"
proof (cases "length xs < n")
  case True
  then show ?thesis by (simp add: push_bounded_def last_n_def)
next
  case False
  then have "tl (drop (length xs - n) xs) = drop (Suc (length xs) - n) xs"
    by (simp add: tl_drop [symmetric] drop_Suc Suc_diff_le)
  with False assms show ?thesis by (simp add: push_bounded_def last_n_def)
qed

locale outcome_log =
  fixes inv :: "'w \<Rightarrow> bool" and contents :: "'w \<Rightarrow> bool list" and cap :: "'w \<Rightarrow> nat"
    and rec :: "bool \<Rightarrow> 'w \<Rightarrow> 'w option" and total :: "'w \<Rightarrow> nat" and fails :: "'w \<Rightarrow> int"
  assumes cap_pos: "inv w \<Longrightarrow> 0 < cap w"
    and rec_ok: "inv w \<Longrightarrow> \<exists>w'. rec b w = Some w' \<and> inv w' \<and> cap w' = cap w \<and>
      contents w' = push_bounded (cap w) (contents w) b"
    and total_eq: "inv w \<Longrightarrow> total w = length (contents w)"
    and fails_eq: "inv w \<Longrightarrow> fails w = int (count_list (contents w) False)"
begin

fun rec_all :: "bool list \<Rightarrow> 'w \<Rightarrow> 'w option" where
  "rec_all [] w = Some w"
| "rec_all (b # bs) w = Option.bind (rec b w) (rec_all bs)"

lemma rec_all_last_n:
  "inv w \<Longrightarrow> contents w = last_n (cap w) xs \<Longrightarrow>
   \<exists>w'. rec_all bs w = Some w' \<and> inv w' \<and> cap w' = cap w \<and> contents w' = last_n (cap w) (xs @ bs)"
proof (induction bs arbitrary: w xs)
  case (Cons b bs)
  from rec_ok [OF Cons.prems(1), of b] obtain w1 where
    w1: "rec b w = Some w1" "inv w1" "cap w1 = cap w"
      "contents w1 = push_bounded (cap w) (contents w) b" by blast
  then have "contents w1 = last_n (cap w1) (xs @ [b])"
    using Cons.prems(2) push_bounded_last_n [OF cap_pos [OF Cons.prems(1)]] by simp
  from Cons.IH [OF w1(2) this] w1 show ?case by simp
qed simp

lemma fails_le_total: "inv w \<Longrightarrow> 0 \<le> fails w \<and> fails w \<le> int (total w)"
  by (simp add: fails_eq total_eq count_le_length)

lemma rec_fails: "inv w \<Longrightarrow> rec b w = Some w' \<Longrightarrow> fails w' \<le> fails w + 1"
proof -
  assume inv: "inv w" and r: "rec b w = Some w'"
  from rec_ok [OF inv, of b] r have "inv w'" and "contents w' = push_bounded (cap w) (contents w) b"
    by auto
  moreover have "count_list (tl xs) c \<le> count_list xs c" for xs :: "bool list" and c
    by (cases xs) auto
  ultimately show ?thesis
    using inv by (auto simp: fails_eq push_bounded_def)
      (metis add.commute le_SucI of_nat_Suc of_nat_mono plus_1_eq_Suc)+
qed

end

section \<open>The ring buffer is such a log\<close>

definition window_list :: "window \<Rightarrow> bool list" where
  "window_list w =
     (if w_total w < length (w_ring w) then take (w_total w) (w_ring w)
      else drop (w_head w) (w_ring w) @ take (w_head w) (w_ring w))"

definition window_inv :: "window \<Rightarrow> bool" where
  "window_inv w \<longleftrightarrow>
     w_head w < length (w_ring w) \<and> w_total w \<le> length (w_ring w) \<and>
     (w_total w < length (w_ring w) \<longrightarrow> w_head w = w_total w) \<and>
     w_failures w = int (count_list (window_list w) False)"

definition window_cap :: "window \<Rightarrow> nat" where
  "window_cap w = length (w_ring w)"

lemma newWindow_inv: "0 < n \<Longrightarrow> window_inv (newWindow n) \<and> window_list (newWindow n) = [] \<and> window_cap (newWindow n) = n"
  by (simp add: window_inv_def newWindow_def window_list_def window_cap_def)

lemma win_reset_inv: "window_inv w \<Longrightarrow> window_inv (win_reset w) \<and> window_list (win_reset w) = [] \<and> window_cap (win_reset w) = window_cap w"
  by (auto simp: window_inv_def win_reset_def window_list_def window_cap_def)

lemma win_record_spec:
  assumes inv: "window_inv w"
  shows "\<exists>w'. win_record b w = Some w' \<and> window_inv w' \<and> window_cap w' = window_cap w \<and>
    window_list w' = push_bounded (window_cap w) (window_list w) b"
proof -
  let ?n = "length (w_ring w)" and ?h = "w_head w" and ?r = "(w_ring w)[w_head w := b]"
  have h: "?h < ?n" and t: "w_total w \<le> ?n" using inv by (auto simp: window_inv_def)
  have split: "w_ring w = take ?h (w_ring w) @ w_ring w ! ?h # drop (Suc ?h) (w_ring w)"
    by (rule id_take_nth_drop [OF h])
  have split': "?r = take ?h (w_ring w) @ b # drop (Suc ?h) (w_ring w)"
    by (rule upd_conv_take_nth_drop [OF h])
  show ?thesis
  proof (cases "w_total w < ?n")
    case True
    then have ht: "?h = w_total w" and l: "window_list w = take ?h (w_ring w)"
      using inv by (auto simp: window_inv_def window_list_def)
    define w' where "w' = w\<lparr>w_total := w_total w + 1, w_ring := ?r,
      w_failures := w_failures w + (if b then 0 else 1), w_head := (?h + 1) mod ?n\<rparr>"
    have rec: "win_record b w = Some w'"
      using True h by (simp add: win_record_def Let_def w'_def)
    have "window_list w' = take ?h (w_ring w) @ [b]"
      using True ht split' by (cases "Suc ?h = ?n") (auto simp: window_list_def w'_def)
    then have l': "window_list w' = window_list w @ [b]" using l by simp
    moreover have "window_inv w'"
      using True h ht inv l' by (auto simp: window_inv_def w'_def mod_Suc)
    moreover have "length (window_list w) < window_cap w" using True l ht by (simp add: window_cap_def)
    ultimately show ?thesis using rec by (auto simp: push_bounded_def window_cap_def w'_def)
  next
    case False
    then have tn: "w_total w = ?n" using t by simp
    then have l: "window_list w = w_ring w ! ?h # drop (Suc ?h) (w_ring w) @ take ?h (w_ring w)"
      using h by (simp add: window_list_def Cons_nth_drop_Suc)
    define w' where "w' = w\<lparr>w_ring := ?r,
      w_failures := w_failures w - (if w_ring w ! ?h then 0 else 1) + (if b then 0 else 1),
      w_head := (?h + 1) mod ?n\<rparr>"
    have rec: "win_record b w = Some w'"
      using tn h by (simp add: win_record_def Let_def w'_def)
    have "window_list w' = drop (Suc ?h) (w_ring w) @ take ?h (w_ring w) @ [b]"
      using tn h split' by (cases "Suc ?h = ?n") (auto simp: window_list_def w'_def)
    then have l': "window_list w' = tl (window_list w) @ [b]" using l by simp
    moreover have "Suc ?h mod ?n < ?n" using h by (intro mod_less_divisor) auto
    then have "window_inv w'"
      using tn h inv l l' by (auto simp: window_inv_def w'_def)
    moreover have "length (window_list w) = window_cap w" using l h by (simp add: window_cap_def)
    ultimately show ?thesis using rec by (auto simp: push_bounded_def window_cap_def w'_def)
  qed
qed

lemma window_total: "window_inv w \<Longrightarrow> w_total w = length (window_list w)"
  by (auto simp: window_inv_def window_list_def)

interpretation ring: outcome_log window_inv window_list window_cap win_record win_count w_failures
  by unfold_locales
    (auto simp: win_record_spec win_count_def window_total, auto simp: window_inv_def window_cap_def)

end
