(* ===== verification/CircuitBreaker.thy ===== *)
theory CircuitBreaker
  imports CircuitWindow
begin

text \<open>
  The circuit breaker of \<open>system-design/circuit-breaker/breaker.go\<close>.  Each method is a function
  of the breaker and the clock reading it takes; \<open>breaker\<close> carries, beside the fields of the
  struct, the list of \<open>OnStateChange\<close> notifications sent so far (\<open>b_hooks\<close>).  A call of the
  protected function may succeed, fail, or panic; \<open>Execute\<close> is the sequential composition, and
  the reachable states of \<open>calls_sys\<close> are those of all interleavings of the critical sections
  \<open>beforeCall\<close>, \<open>afterCall\<close> and \<open>State\<close> of concurrent callers.

  Thresholds are finite floats, written as rationals (a NaN threshold is not modelled).
\<close>

section \<open>Data\<close>

datatype bstate = StateClosed | StateOpen | StateHalfOpen

fun bstate_code :: "bstate \<Rightarrow> int" where
  "bstate_code StateClosed = 0"
| "bstate_code StateOpen = 1"
| "bstate_code StateHalfOpen = 2"

definition State_String :: "int \<Rightarrow> string" where
  "State_String s =
     (if s = bstate_code StateClosed then ''closed''
      else if s = bstate_code StateOpen then ''open''
      else if s = bstate_code StateHalfOpen then ''half-open''
      else ''unknown'')"

record bconfig =
  c_WindowSize :: int
  c_FailureRateThreshold :: rat
  c_MinimumCalls :: int
  c_OpenTimeout :: duration
  c_OnStateChange :: bool

definition applyDefaults :: "bconfig \<Rightarrow> bconfig" where
  "applyDefaults c =
     (let c = (if c_WindowSize c \<le> 0 then c\<lparr>c_WindowSize := 10\<rparr> else c);
          c = (if c_FailureRateThreshold c \<le> 0 then c\<lparr>c_FailureRateThreshold := 1 / 2\<rparr> else c);
          c = (if c_MinimumCalls c \<le> 0 then c\<lparr>c_MinimumCalls := c_WindowSize c\<rparr> else c)
      in if c_OpenTimeout c \<le> 0 then c\<lparr>c_OpenTimeout := 60 * second\<rparr> else c)"

record breaker =
  b_name :: string
  b_cfg :: bconfig
  b_state :: bstate
  b_win :: window
  b_openedAt :: time
  b_probing :: bool
  b_hooks :: "(string \<times> bstate \<times> bstate) list"

definition New :: "string \<Rightarrow> bconfig \<Rightarrow> breaker" where
  "New name cfg =
     (let cfg = applyDefaults cfg in
      \<lparr>b_name = name, b_cfg = cfg, b_state = StateClosed, b_win = newWindow (nat (c_WindowSize cfg)),
       b_openedAt = zero_time, b_probing = False, b_hooks = []\<rparr>)"

section \<open>Methods\<close>

definition transition :: "time \<Rightarrow> bstate \<Rightarrow> breaker \<Rightarrow> breaker" where
  "transition now newState cb =
     (if b_state cb = newState then cb
      else
        let from = b_state cb;
            cb = cb\<lparr>b_state := newState\<rparr>;
            cb = (if newState = StateOpen then cb\<lparr>b_openedAt := now\<rparr> else cb)
        in if c_OnStateChange (b_cfg cb)
           then cb\<lparr>b_hooks := b_hooks cb @ [(b_name cb, from, newState)]\<rparr> else cb)"

definition maybeAdvanceToHalfOpen :: "time \<Rightarrow> breaker \<Rightarrow> breaker" where
  "maybeAdvanceToHalfOpen now cb =
     (if b_state cb = StateOpen \<and> time_sub now (b_openedAt cb) \<ge> c_OpenTimeout (b_cfg cb)
      then transition now StateHalfOpen cb else cb)"

definition shouldTrip :: "breaker \<Rightarrow> bool" where
  "shouldTrip cb \<longleftrightarrow>
     int (win_count (b_win cb)) \<ge> c_MinimumCalls (b_cfg cb) \<and>
     failureRate (b_win cb) \<ge> c_FailureRateThreshold (b_cfg cb)"

text \<open>\<open>True\<close> permits the call, \<open>False\<close> is \<open>ErrCircuitOpen\<close>.\<close>

definition beforeCall :: "time \<Rightarrow> breaker \<Rightarrow> bool \<times> breaker" where
  "beforeCall now cb =
     (let cb = maybeAdvanceToHalfOpen now cb in
      case b_state cb of
        StateClosed \<Rightarrow> (True, cb)
      | StateOpen \<Rightarrow> (False, cb)
      | StateHalfOpen \<Rightarrow> (if b_probing cb then (False, cb) else (True, cb\<lparr>b_probing := True\<rparr>)))"

text \<open>\<open>None\<close> is a panic in the window.\<close>

definition afterCall :: "time \<Rightarrow> bool \<Rightarrow> breaker \<Rightarrow> breaker option" where
  "afterCall now success cb =
     (case b_state cb of
        StateClosed \<Rightarrow>
          (case win_record success (b_win cb) of
             None \<Rightarrow> None
           | Some w \<Rightarrow>
               let cb = cb\<lparr>b_win := w\<rparr>
               in Some (if shouldTrip cb then transition now StateOpen cb else cb))
      | StateHalfOpen \<Rightarrow>
          (let cb = cb\<lparr>b_probing := False\<rparr> in
           Some (if success then transition now StateClosed (cb\<lparr>b_win := win_reset (b_win cb)\<rparr>)
                 else transition now StateOpen cb))
      | StateOpen \<Rightarrow> Some cb)"

definition State_method :: "time \<Rightarrow> breaker \<Rightarrow> bstate \<times> breaker" where
  "State_method now cb = (let cb = maybeAdvanceToHalfOpen now cb in (b_state cb, cb))"

record metrics =
  m_State :: bstate
  m_TotalCalls :: nat
  m_Failures :: int
  m_FailureRate :: rat

definition Metrics_method :: "breaker \<Rightarrow> metrics" where
  "Metrics_method cb =
     \<lparr>m_State = b_state cb, m_TotalCalls = win_count (b_win cb), m_Failures = w_failures (b_win cb),
      m_FailureRate = failureRate (b_win cb)\<rparr>"

text \<open>
  \<open>Metrics.String\<close>.  The verb \<open>%.2f\<close> rounds the exact value of the float to two decimals, ties to even
  (rates are not negative).
\<close>

definition fixed2 :: "rat \<Rightarrow> string" where
  "fixed2 r =
     (let (p, q) = quotient_of r; n = round_half_even (nat p * 100) (nat q)
      in nat_dec (n div 100) @ ''.'' @ [digit (n div 10 mod 10), digit (n mod 10)])"

definition Metrics_String :: "metrics \<Rightarrow> string" where
  "Metrics_String m =
     ''state='' @ State_String (bstate_code (m_State m)) @ '' calls='' @ int_dec (int (m_TotalCalls m)) @
     '' failures='' @ int_dec (m_Failures m) @ '' rate='' @ fixed2 (m_FailureRate m)"

text \<open>
  \<open>Execute\<close> by one caller: the outcome of the protected function is \<open>r\<close>, the clock readings are
  those of \<open>beforeCall\<close> and \<open>afterCall\<close>.  \<open>Rejected\<close> is \<open>ErrCircuitOpen\<close> with the function
  not called; a panic of the function unwinds past \<open>afterCall\<close>.
\<close>

datatype 'e outcome = Returned "'e option" | Panicked

datatype 'e execution = Rejected | Finished "'e outcome"

definition Execute :: "time \<Rightarrow> time \<Rightarrow> 'e outcome \<Rightarrow> breaker \<Rightarrow> ('e execution \<times> breaker) option" where
  "Execute t1 t2 r cb =
     (case beforeCall t1 cb of
        (False, cb') \<Rightarrow> Some (Rejected, cb')
      | (True, cb') \<Rightarrow>
          (case r of
             Panicked \<Rightarrow> Some (Finished Panicked, cb')
           | Returned err \<Rightarrow>
               (case afterCall t2 (err = None) cb' of
                  None \<Rightarrow> None
                | Some cb'' \<Rightarrow> Some (Finished (Returned err), cb''))))"

section \<open>Concurrent callers\<close>

text \<open>
  \<open>k_open\<close> holds the calls in flight; for each, whether it was admitted as the half-open probe.
\<close>

record calls_sys =
  k_cb :: breaker
  k_open :: "bool list"
  k_now :: time

datatype call_event = EvBegin time | EvEnd nat time bool | EvPanic nat | EvState time

definition remove_nth :: "nat \<Rightarrow> 'a list \<Rightarrow> 'a list" where
  "remove_nth i xs = take i xs @ drop (Suc i) xs"

fun call_step :: "call_event \<Rightarrow> calls_sys \<Rightarrow> calls_sys option" where
  "call_step (EvBegin t) s =
     (if k_now s \<le> t then
        (case beforeCall t (k_cb s) of
           (ok, cb) \<Rightarrow> Some (s\<lparr>k_cb := cb, k_now := t,
             k_open := (if ok then k_open s @ [b_state cb = StateHalfOpen] else k_open s)\<rparr>))
      else None)"
| "call_step (EvEnd i t success) s =
     (if k_now s \<le> t \<and> i < length (k_open s) then
        (case afterCall t success (k_cb s) of
           None \<Rightarrow> None
         | Some cb \<Rightarrow> Some (s\<lparr>k_cb := cb, k_now := t, k_open := remove_nth i (k_open s)\<rparr>))
      else None)"
| "call_step (EvPanic i) s =
     (if i < length (k_open s) then Some (s\<lparr>k_open := remove_nth i (k_open s)\<rparr>) else None)"
| "call_step (EvState t) s =
     (if k_now s \<le> t then Some (s\<lparr>k_cb := snd (State_method t (k_cb s)), k_now := t\<rparr>) else None)"

fun call_run :: "call_event list \<Rightarrow> calls_sys \<Rightarrow> calls_sys option" where
  "call_run [] s = Some s"
| "call_run (e # es) s = (case call_step e s of None \<Rightarrow> None | Some s' \<Rightarrow> call_run es s')"

definition calls_init :: "string \<Rightarrow> bconfig \<Rightarrow> time \<Rightarrow> calls_sys" where
  "calls_init name cfg t0 = \<lparr>k_cb = New name cfg, k_open = [], k_now = t0\<rparr>"

inductive calls_reachable :: "string \<Rightarrow> bconfig \<Rightarrow> calls_sys \<Rightarrow> bool" for name cfg where
  calls_start: "calls_reachable name cfg (calls_init name cfg t0)"
| calls_step: "calls_reachable name cfg s \<Longrightarrow> call_step e s = Some s' \<Longrightarrow> calls_reachable name cfg s'"

section \<open>The invariant\<close>

text \<open>The edges of the documented state machine.\<close>

inductive bedge :: "bstate \<Rightarrow> bstate \<Rightarrow> bool" where
  trip: "bedge StateClosed StateOpen"
| probe: "bedge StateOpen StateHalfOpen"
| recover: "bedge StateHalfOpen StateClosed"
| reopen: "bedge StateHalfOpen StateOpen"

code_pred bedge .

inductive_simps bedge_simps: "bedge a b"

text \<open>A chain of notifications for one breaker, from the first state to the last.\<close>

fun chain :: "string \<Rightarrow> bstate \<Rightarrow> (string \<times> bstate \<times> bstate) list \<Rightarrow> bstate \<Rightarrow> bool" where
  "chain n a [] b \<longleftrightarrow> a = b"
| "chain n a ((m, x, y) # es) b \<longleftrightarrow> m = n \<and> x = a \<and> bedge x y \<and> chain n y es b"

lemma chain_snoc: "chain n a (es @ [(n, b, c)]) d \<longleftrightarrow> chain n a es b \<and> bedge b c \<and> c = d"
  by (induction es arbitrary: a) auto

definition cfg_ok :: "bconfig \<Rightarrow> bool" where
  "cfg_ok c \<longleftrightarrow>
     0 < c_WindowSize c \<and> 0 < c_FailureRateThreshold c \<and> 0 < c_MinimumCalls c \<and> 0 < c_OpenTimeout c"

definition breaker_inv :: "breaker \<Rightarrow> bool" where
  "breaker_inv cb \<longleftrightarrow>
     cfg_ok (b_cfg cb) \<and> window_inv (b_win cb) \<and>
     window_cap (b_win cb) = nat (c_WindowSize (b_cfg cb)) \<and>
     (b_probing cb \<longrightarrow> b_state cb = StateHalfOpen) \<and>
     (if c_OnStateChange (b_cfg cb) then chain (b_name cb) StateClosed (b_hooks cb) (b_state cb)
      else b_hooks cb = [])"

lemma applyDefaults_ok: "cfg_ok (applyDefaults c)"
  by (auto simp: cfg_ok_def applyDefaults_def Let_def second_def)

lemma New_inv: "breaker_inv (New name cfg)"
  using applyDefaults_ok [of cfg] newWindow_inv [of "nat (c_WindowSize (applyDefaults cfg))"]
  by (auto simp: breaker_inv_def New_def Let_def cfg_ok_def)

lemma transition_fields [simp]:
  "b_state (transition now st cb) = st" "b_win (transition now st cb) = b_win cb"
  "b_cfg (transition now st cb) = b_cfg cb" "b_probing (transition now st cb) = b_probing cb"
  "b_name (transition now st cb) = b_name cb"
  by (auto simp: transition_def Let_def)

lemma transition_inv:
  assumes "breaker_inv cb" and "b_state cb \<noteq> st \<Longrightarrow> bedge (b_state cb) st"
    and "b_probing cb \<Longrightarrow> st = StateHalfOpen"
  shows "breaker_inv (transition now st cb)"
  using assms by (auto simp: breaker_inv_def transition_def Let_def chain_snoc)

lemma advance_inv: "breaker_inv cb \<Longrightarrow> breaker_inv (maybeAdvanceToHalfOpen now cb)"
  by (auto simp: maybeAdvanceToHalfOpen_def intro!: transition_inv bedge.intros)

lemma beforeCall_inv: "breaker_inv cb \<Longrightarrow> beforeCall now cb = (ok, cb') \<Longrightarrow> breaker_inv cb'"
  using advance_inv [of cb now]
  by (auto simp: beforeCall_def Let_def breaker_inv_def split: bstate.splits if_splits)

lemma breaker_inv_win:
  "breaker_inv cb \<Longrightarrow> window_inv w \<Longrightarrow> window_cap w = window_cap (b_win cb) \<Longrightarrow> breaker_inv (cb\<lparr>b_win := w\<rparr>)"
  by (simp add: breaker_inv_def)

lemma breaker_inv_unprobe: "breaker_inv cb \<Longrightarrow> breaker_inv (cb\<lparr>b_probing := False\<rparr>)"
  by (simp add: breaker_inv_def)

lemma afterCall_inv:
  assumes inv: "breaker_inv cb"
  shows "\<exists>cb'. afterCall now success cb = Some cb' \<and> breaker_inv cb'"
proof (cases "b_state cb")
  case StateClosed
  obtain w where w: "win_record success (b_win cb) = Some w" "window_inv w" "window_cap w = window_cap (b_win cb)"
    using win_record_spec [of "b_win cb"] inv by (auto simp: breaker_inv_def)
  then have 1: "breaker_inv (cb\<lparr>b_win := w\<rparr>)" using breaker_inv_win [OF inv] by simp
  then have "breaker_inv (transition now StateOpen (cb\<lparr>b_win := w\<rparr>))"
    using StateClosed inv by (intro transition_inv) (auto simp: breaker_inv_def intro: bedge.intros)
  with 1 w StateClosed show ?thesis by (simp add: afterCall_def Let_def)
next
  case StateOpen
  with inv show ?thesis by (simp add: afterCall_def)
next
  case StateHalfOpen
  let ?cb = "cb\<lparr>b_probing := False\<rparr>"
  have 1: "breaker_inv ?cb" by (rule breaker_inv_unprobe [OF inv])
  then have 2: "breaker_inv (?cb\<lparr>b_win := win_reset (b_win ?cb)\<rparr>)"
    using win_reset_inv [of "b_win cb"] inv by (intro breaker_inv_win) (auto simp: breaker_inv_def)
  have "breaker_inv (transition now StateOpen ?cb)"
    using StateHalfOpen by (intro transition_inv [OF 1]) (auto intro: bedge.intros)
  moreover have "breaker_inv (transition now StateClosed (?cb\<lparr>b_win := win_reset (b_win ?cb)\<rparr>))"
    using StateHalfOpen by (intro transition_inv [OF 2]) (auto intro: bedge.intros)
  ultimately show ?thesis using StateHalfOpen by (auto simp: afterCall_def Let_def)
qed

lemma State_method_inv: "breaker_inv cb \<Longrightarrow> breaker_inv (snd (State_method now cb))"
  by (simp add: State_method_def Let_def advance_inv)

lemma call_step_inv:
  assumes "breaker_inv (k_cb s)" and "call_step e s = Some s'"
  shows "breaker_inv (k_cb s')"
proof (cases e)
  case (EvBegin t)
  with assms beforeCall_inv [of "k_cb s" t] show ?thesis by (auto split: if_splits prod.splits)
next
  case (EvEnd i t b)
  with assms afterCall_inv [of "k_cb s" t b] show ?thesis by (auto split: if_splits option.splits)
next
  case (EvPanic i)
  with assms show ?thesis by (auto split: if_splits)
next
  case (EvState t)
  with assms State_method_inv show ?thesis by (auto split: if_splits)
qed

lemma calls_reachable_inv: "calls_reachable name cfg s \<Longrightarrow> breaker_inv (k_cb s)"
  by (induction rule: calls_reachable.induct)
    (auto simp: calls_init_def New_inv intro: call_step_inv)

lemma calls_reachable_run:
  "calls_reachable name cfg s \<Longrightarrow> call_run es s = Some s' \<Longrightarrow> calls_reachable name cfg s'"
  by (induction es arbitrary: s) (auto split: option.splits intro: calls_step)

section \<open>The printed rate\<close>

lemma round_half_even_error:
  assumes "0 < b"
  shows "2 * \<bar>int (round_half_even a b) * int b - int a\<bar> \<le> int b"
proof -
  have a: "int a = int (a div b) * int b + int (a mod b)"
    by (metis of_nat_add of_nat_mult div_mult_mod_eq)
  have r: "a mod b < b" using assms by simp
  show ?thesis
    using r unfolding a by (auto simp: round_half_even_def Let_def distrib_right abs_if)
qed

text \<open>The two decimals are those of a hundredth nearest to the rate.\<close>

lemma fixed2_nearest:
  assumes "0 \<le> r"
  shows "\<exists>n. fixed2 r = nat_dec (n div 100) @ ''.'' @ [digit (n div 10 mod 10), digit (n mod 10)] \<and>
    \<bar>of_nat n / 100 - r\<bar> \<le> 1 / 200"
proof -
  obtain p q where pq: "quotient_of r = (p, q)" by fastforce
  then have q: "0 < q" and r: "r = of_int p / of_int q"
    by (auto simp: quotient_of_denom_pos quotient_of_div)
  then have p: "0 \<le> p" using assms by (simp add: zero_le_divide_iff)
  let ?n = "round_half_even (nat p * 100) (nat q)"
  have "2 * \<bar>int ?n * q - p * 100\<bar> \<le> q"
    using round_half_even_error [of "nat q" "nat p * 100"] p q by simp
  then have "rat_of_int (2 * \<bar>int ?n * q - p * 100\<bar>) \<le> of_int q" by (simp only: of_int_le_iff)
  then have "2 * \<bar>of_nat ?n * of_int q - of_int p * 100\<bar> \<le> (of_int q :: rat)" by simp
  moreover have "of_nat ?n / 100 - r = (of_nat ?n * of_int q - of_int p * 100) / (100 * of_int q)"
    using q by (simp add: r field_simps)
  ultimately have "\<bar>of_nat ?n / 100 - r\<bar> \<le> 1 / 200"
    using q by (simp add: abs_divide abs_mult divide_le_eq)
  then show ?thesis using pq by (intro exI [of _ ?n]) (simp add: fixed2_def Let_def)
qed

lemma Metrics_String_example:
  "Metrics_String \<lparr>m_State = StateHalfOpen, m_TotalCalls = 3, m_Failures = 1, m_FailureRate = 1 / 3\<rparr> =
     ''state=half-open calls=3 failures=1 rate=0.33''"
  by code_simp

end
