(* ===== verification/CircuitProperties.thy ===== *)
theory CircuitProperties
  imports CircuitBreaker
begin

text \<open>
  The properties of the circuit breaker: the ring buffer implements a bounded log; a sequence of
  calls trips the circuit exactly when the documented rate is reached; the transitions of all
  interleavings; rejection, probing and recovery; and the two states that a call
  which outlives a state change leads to.
\<close>

section \<open>Sequences of outcomes and of calls\<close>

fun record_all :: "bool list \<Rightarrow> window \<Rightarrow> window option" where
  "record_all [] w = Some w"
| "record_all (b # bs) w = Option.bind (win_record b w) (record_all bs)"

lemma record_all_ring: "record_all bs w = ring.rec_all bs w"
proof (induction bs arbitrary: w)
  case (Cons b bs)
  then show ?case by (cases "win_record b w") auto
qed simp

lemma win_record_head:
  "win_record b w = Some w' \<Longrightarrow> w_head w' = Suc (w_head w) mod length (w_ring w) \<and> length (w_ring w') = length (w_ring w)"
  by (auto simp: win_record_def Let_def split: if_splits)

lemma record_all_head:
  "record_all bs w = Some w' \<Longrightarrow> w_head w < length (w_ring w) \<Longrightarrow>
   w_head w' = (w_head w + length bs) mod length (w_ring w)"
proof (induction bs arbitrary: w)
  case (Cons b bs)
  then obtain w1 where w1: "win_record b w = Some w1" "record_all bs w1 = Some w'"
    by (auto simp: bind_eq_Some_conv)
  from win_record_head [OF w1(1)] Cons.prems(2) have "w_head w1 < length (w_ring w1)"
    by (auto intro: mod_less_divisor)
  from Cons.IH [OF w1(2) this] win_record_head [OF w1(1)] show ?case by (simp add: mod_simps)
qed simp

text \<open>One caller making calls one after the other: the two clock readings and the outcome.\<close>

definition answer :: "bool \<Rightarrow> unit outcome" where
  "answer ok = Returned (if ok then None else Some ())"

fun execute_all :: "(time \<times> time \<times> bool) list \<Rightarrow> breaker \<Rightarrow> breaker option" where
  "execute_all [] cb = Some cb"
| "execute_all ((t1, t2, ok) # cs) cb =
     (case Execute t1 t2 (answer ok) cb of
        None \<Rightarrow> None
      | Some (_, cb') \<Rightarrow> execute_all cs cb')"

lemma execute_all_append:
  "execute_all (cs @ ds) cb = (case execute_all cs cb of None \<Rightarrow> None | Some cb' \<Rightarrow> execute_all ds cb')"
proof (induction cs arbitrary: cb)
  case (Cons c cs)
  obtain t1 t2 ok where "c = (t1, t2, ok)" by (metis prod_cases3)
  with Cons show ?case by (cases "Execute t1 t2 (answer ok) cb") auto
qed simp

text \<open>The documented trip condition, on the outcomes so far: among the last \<open>n\<close> there are at
  least \<open>m\<close>, of which at least half failed.\<close>

definition half_failed :: "nat \<Rightarrow> int \<Rightarrow> bool list \<Rightarrow> bool" where
  "half_failed n m bs \<longleftrightarrow>
     (let l = last_n n bs in m \<le> int (length l) \<and> length l \<le> 2 * count_list l False)"

lemma shouldTrip_half:
  assumes "window_inv w" and "0 < win_count w" and "win_count w < 2 ^ 52"
    and "c_FailureRateThreshold (b_cfg cb) = 1 / 2" and "b_win cb = w"
  shows "shouldTrip cb \<longleftrightarrow>
    c_MinimumCalls (b_cfg cb) \<le> int (length (window_list w)) \<and>
    length (window_list w) \<le> 2 * count_list (window_list w) False"
proof -
  have t: "w_total w = length (window_list w)" using window_total assms(1) .
  have f: "w_failures w = int (count_list (window_list w) False)" using assms(1) by (simp add: window_inv_def)
  show ?thesis
    using assms f t f64_ratio_half [of "count_list (window_list w) False" "length (window_list w)"]
    by (auto simp: shouldTrip_def failureRate_def win_count_def count_le_length)
qed

definition closed_log :: "bconfig \<Rightarrow> bool list \<Rightarrow> breaker \<Rightarrow> bool" where
  "closed_log cfg bs cb \<longleftrightarrow>
     breaker_inv cb \<and> b_cfg cb = cfg \<and> b_state cb = StateClosed \<and>
     window_list (b_win cb) = last_n (nat (c_WindowSize cfg)) bs"

lemma Execute_closed:
  assumes c: "closed_log cfg bs cb" and thr: "c_FailureRateThreshold cfg = 1 / 2"
    and n: "c_WindowSize cfg < 2 ^ 52"
  shows "\<exists>cb'. Execute t1 t2 (answer ok) cb = Some (Finished (answer ok), cb') \<and>
    (if half_failed (nat (c_WindowSize cfg)) (c_MinimumCalls cfg) (bs @ [ok])
     then breaker_inv cb' \<and> b_cfg cb' = cfg \<and> b_state cb' = StateOpen \<and> b_openedAt cb' = t2
     else closed_log cfg (bs @ [ok]) cb')"
proof -
  let ?N = "nat (c_WindowSize cfg)"
  have inv: "breaker_inv cb" and cl: "b_state cb = StateClosed" and cfg: "b_cfg cb = cfg"
    using c by (auto simp: closed_log_def)
  have before: "beforeCall t1 cb = (True, cb)"
    using cl by (simp add: beforeCall_def maybeAdvanceToHalfOpen_def)
  have cap: "window_cap (b_win cb) = ?N" and N: "0 < ?N" "?N < 2 ^ 52"
    using inv cfg n by (auto simp: breaker_inv_def cfg_ok_def)
  have wi: "window_inv (b_win cb)" and wl: "window_list (b_win cb) = last_n ?N bs"
    using c by (simp_all add: closed_log_def breaker_inv_def)
  obtain w where w: "win_record ok (b_win cb) = Some w" "window_inv w" "window_cap w = ?N"
    "window_list w = last_n ?N (bs @ [ok])"
    using win_record_spec [OF wi, of ok] cap wl push_bounded_last_n [OF N(1), of bs ok] by metis
  let ?cb = "cb\<lparr>b_win := w\<rparr>"
  have cnt: "win_count w = length (window_list w)" using window_total [OF w(2)] by (simp add: win_count_def)
  have len: "length (window_list w) = min ?N (Suc (length bs))" by (auto simp: w(4) last_n_def)
  have trip: "shouldTrip ?cb \<longleftrightarrow> half_failed ?N (c_MinimumCalls cfg) (bs @ [ok])"
  proof -
    have "0 < win_count w" "win_count w < 2 ^ 52" using cnt len N by linarith+
    moreover have "c_FailureRateThreshold (b_cfg ?cb) = 1 / 2" using thr cfg by simp
    ultimately have "shouldTrip ?cb \<longleftrightarrow> c_MinimumCalls (b_cfg ?cb) \<le> int (length (window_list w)) \<and>
      length (window_list w) \<le> 2 * count_list (window_list w) False"
      by (intro shouldTrip_half [OF w(2)]) simp_all
    then show ?thesis using w(4) cfg by (simp add: half_failed_def Let_def)
  qed
  obtain cb' where a: "afterCall t2 ok cb = Some cb'" "breaker_inv cb'" using afterCall_inv [OF inv] by blast
  then have cb': "cb' = (if shouldTrip ?cb then transition t2 StateOpen ?cb else ?cb)"
    using w cl by (simp add: afterCall_def Let_def split: if_splits)
  have ex: "Execute t1 t2 (answer ok) cb = Some (Finished (answer ok), cb')"
    using before a(1) by (cases ok) (simp_all add: Execute_def answer_def)
  have "b_openedAt (transition t2 StateOpen ?cb) = t2" using cl by (simp add: transition_def Let_def)
  then have "if half_failed ?N (c_MinimumCalls cfg) (bs @ [ok])
     then breaker_inv cb' \<and> b_cfg cb' = cfg \<and> b_state cb' = StateOpen \<and> b_openedAt cb' = t2
     else closed_log cfg (bs @ [ok]) cb'"
    using a(2) cb' trip cfg cl w(4) by (cases "shouldTrip ?cb") (simp_all add: closed_log_def)
  with ex show ?thesis by blast
qed

lemma Execute_open:
  assumes "b_state cb = StateOpen" and "t1 - b_openedAt cb < c_OpenTimeout (b_cfg cb)"
    and "0 < c_OpenTimeout (b_cfg cb)"
  shows "Execute t1 t2 r cb = Some (Rejected, cb)"
proof -
  have "time_sub t1 (b_openedAt cb) < c_OpenTimeout (b_cfg cb)"
    using assms(2,3) by (auto simp: time_sub_def sat_dur_def)
  with assms(1) show ?thesis by (simp add: Execute_def beforeCall_def maybeAdvanceToHalfOpen_def)
qed


lemma New_closed_log: "closed_log (applyDefaults cfg) [] (New name cfg)"
  using New_inv [of name cfg] applyDefaults_ok [of cfg]
    newWindow_inv [of "nat (c_WindowSize (applyDefaults cfg))"]
  by (simp add: closed_log_def New_def Let_def last_n_def cfg_ok_def)

text \<open>Within \<open>OpenTimeout\<close> of the first reading a tripped circuit stays open.\<close>

lemma execute_all_open:
  assumes "b_state cb = StateOpen" and "0 < c_OpenTimeout (b_cfg cb)"
    and "\<forall>(t1, t2, ok) \<in> set cs. t1 - b_openedAt cb < c_OpenTimeout (b_cfg cb)"
  shows "execute_all cs cb = Some cb"
  using assms
proof (induction cs)
  case (Cons c cs)
  obtain t1 t2 ok where c: "c = (t1, t2, ok)" by (metis prod_cases3)
  have "Execute t1 t2 (answer ok) cb = Some (Rejected, cb)"
    using Cons.prems c by (intro Execute_open) auto
  with Cons c show ?case by simp
qed simp

definition outcomes :: "(time \<times> time \<times> bool) list \<Rightarrow> bool list" where
  "outcomes cs = map (\<lambda>(_, _, ok). ok) cs"

definition ever_half_failed :: "nat \<Rightarrow> int \<Rightarrow> bool list \<Rightarrow> bool" where
  "ever_half_failed n m bs \<longleftrightarrow> list_ex (\<lambda>k. half_failed n m (take k bs)) [1..<Suc (length bs)]"

lemma ever_half_failed_snoc:
  "ever_half_failed n m (bs @ [b]) \<longleftrightarrow> ever_half_failed n m bs \<or> half_failed n m (bs @ [b])"
  by (auto simp: ever_half_failed_def list_ex_iff)

lemma execute_all_trips:
  assumes thr: "c_FailureRateThreshold (applyDefaults cfg) = 1 / 2"
    and n: "c_WindowSize (applyDefaults cfg) < 2 ^ 52"
    and ts: "\<forall>(t1, t2, ok) \<in> set cs. t0 \<le> t1 \<and> t0 \<le> t2 \<and> t1 < t0 + c_OpenTimeout (applyDefaults cfg)"
  shows "\<exists>cb. execute_all cs (New name cfg) = Some cb \<and>
    (if ever_half_failed (nat (c_WindowSize (applyDefaults cfg))) (c_MinimumCalls (applyDefaults cfg)) (outcomes cs)
     then b_state cb = StateOpen \<and> b_cfg cb = applyDefaults cfg \<and> t0 \<le> b_openedAt cb
     else closed_log (applyDefaults cfg) (outcomes cs) cb)"
  using ts
proof (induction cs rule: rev_induct)
  case Nil
  show ?case by (simp add: New_closed_log ever_half_failed_def outcomes_def)
next
  case (snoc c cs)
  let ?c = "applyDefaults cfg"
  let ?N = "nat (c_WindowSize ?c)" and ?M = "c_MinimumCalls ?c"
  obtain t1 t2 ok where c: "c = (t1, t2, ok)" by (metis prod_cases3)
  then have o: "outcomes (cs @ [c]) = outcomes cs @ [ok]" by (simp add: outcomes_def)
  have t: "t0 \<le> t2" "t1 < t0 + c_OpenTimeout ?c" using snoc.prems c by auto
  obtain cb where cb: "execute_all cs (New name cfg) = Some cb"
    and st: "if ever_half_failed ?N ?M (outcomes cs)
      then b_state cb = StateOpen \<and> b_cfg cb = ?c \<and> t0 \<le> b_openedAt cb
      else closed_log ?c (outcomes cs) cb"
    using snoc by auto
  show ?case
  proof (cases "ever_half_failed ?N ?M (outcomes cs)")
    case True
    then have "Execute t1 t2 (answer ok) cb = Some (Rejected, cb)"
      using st t applyDefaults_ok [of cfg] by (intro Execute_open) (auto simp: cfg_ok_def)
    with True cb st c o show ?thesis by (simp add: execute_all_append ever_half_failed_snoc)
  next
    case False
    then have "closed_log ?c (outcomes cs) cb" using st by simp
    from Execute_closed [OF this thr n, of t1 t2 ok] obtain cb' where
      "Execute t1 t2 (answer ok) cb = Some (Finished (answer ok), cb')"
      "if half_failed ?N ?M (outcomes cs @ [ok])
       then breaker_inv cb' \<and> b_cfg cb' = ?c \<and> b_state cb' = StateOpen \<and> b_openedAt cb' = t2
       else closed_log ?c (outcomes cs @ [ok]) cb'" by blast
    with False cb c o t show ?thesis
      by (cases "half_failed ?N ?M (outcomes cs @ [ok])") (simp_all add: execute_all_append ever_half_failed_snoc)
  qed
qed

section \<open>Probes\<close>

definition asks :: "call_event \<Rightarrow> bool" where
  "asks e = (case e of EvBegin _ \<Rightarrow> True | EvState _ \<Rightarrow> True | _ \<Rightarrow> False)"

lemma half_open_ask:
  assumes "b_state (k_cb s) = StateHalfOpen" and "b_probing (k_cb s)" and "asks e"
    and "call_step e s = Some s'"
  shows "k_cb s' = k_cb s \<and> k_open s' = k_open s"
  using assms
  by (cases e) (auto simp: asks_def beforeCall_def State_method_def Let_def maybeAdvanceToHalfOpen_def split: if_splits)

lemma half_open_asks:
  "b_state (k_cb s) = StateHalfOpen \<Longrightarrow> b_probing (k_cb s) \<Longrightarrow> list_all asks es \<Longrightarrow>
   call_run es s = Some s' \<Longrightarrow> k_cb s' = k_cb s \<and> k_open s' = k_open s"
proof (induction es arbitrary: s)
  case (Cons e es)
  from Cons.prems obtain s1 where s1: "call_step e s = Some s1" "call_run es s1 = Some s'"
    by (auto split: option.splits)
  have "k_cb s1 = k_cb s \<and> k_open s1 = k_open s"
    using half_open_ask [of s e s1] Cons.prems s1 by auto
  with Cons.IH [of s1] Cons.prems s1 show ?case by auto
qed simp

definition calls_after :: "string \<Rightarrow> bconfig \<Rightarrow> call_event list \<Rightarrow> calls_sys option" where
  "calls_after name cfg es = call_run es (calls_init name cfg 0)"

lemma calls_after_reachable: "calls_after name cfg es = Some s \<Longrightarrow> calls_reachable name cfg s"
  unfolding calls_after_def by (rule calls_reachable_run [OF calls_start])

definition one_call :: bconfig where
  "one_call = \<lparr>c_WindowSize = 1, c_FailureRateThreshold = 0, c_MinimumCalls = 0,
     c_OpenTimeout = 5, c_OnStateChange = True\<rparr>"

section \<open>Properties\<close>

text \<open>C11. The ring buffer remembers exactly the last \<open>WindowSize\<close> outcomes: recording any sequence
  in a fresh window never panics, and leaves in it the last \<open>n\<close> outcomes in order, their number,
  the number of failures among them, and the next write position \<open>length bs mod n\<close>.\<close>

theorem window_is_last_n:
  assumes "0 < n"
  shows "\<exists>w. record_all bs (newWindow n) = Some w \<and> window_list w = last_n n bs \<and>
    win_count w = min n (length bs) \<and> w_failures w = int (count_list (last_n n bs) False) \<and>
    w_head w = length bs mod n"
proof -
  have "window_list (newWindow n) = last_n (window_cap (newWindow n)) []"
    using newWindow_inv [OF assms] by (simp add: last_n_def)
  then obtain w where w: "record_all bs (newWindow n) = Some w" "window_inv w" "window_list w = last_n n bs"
    using ring.rec_all_last_n [of "newWindow n" "[]" bs] newWindow_inv [OF assms]
    by (auto simp: record_all_ring)
  moreover have "length (last_n n bs) = min n (length bs)" by (auto simp: last_n_def)
  moreover have "w_head w = length bs mod n"
    using record_all_head [OF w(1)] assms by (simp add: newWindow_def)
  ultimately show ?thesis by (auto simp: ring.total_eq ring.fails_eq)
qed

text \<open>The example of the README (window of 5, the calls \<open>F F F T T T F\<close>): two failures and the next
  write at slot 2, not the three failures and slot 3 it shows.\<close>

theorem window_is_last_n_witness:
  "\<exists>w. record_all [False, False, False, True, True, True, False] (newWindow 5) = Some w \<and>
    window_list w = [False, True, True, True, False] \<and> win_count w = 5 \<and> w_failures w = 2 \<and> w_head w = 2"
proof -
  let ?bs = "[False, False, False, True, True, True, False]"
  have "last_n 5 ?bs = [False, True, True, True, False]" "min 5 (length ?bs) = 5" "length ?bs mod 5 = 2"
    "int (count_list [False, True, True, True, False] False) = 2" by code_simp+
  moreover have "0 < (5 :: nat)" by simp
  note window_is_last_n [OF this, of ?bs]
  ultimately show ?thesis by (simp only:)
qed

text \<open>C12. With the default threshold the circuit trips exactly when it should: a breaker that serves
  a sequence of calls, all within \<open>OpenTimeout\<close>, is open afterwards if and only if at some
  point the last \<open>WindowSize\<close> outcomes held at least \<open>MinimumCalls\<close> of which at least half failed,
  and closed otherwise (\<open>float64\<close> rounding included).\<close>

theorem circuit_trips_iff_half_failed:
  assumes "c_FailureRateThreshold cfg \<le> 0 \<or> c_FailureRateThreshold cfg = 1 / 2"
    and "c_WindowSize cfg < 2 ^ 52"
    and "\<forall>(t1, t2, ok) \<in> set cs. t0 \<le> t1 \<and> t0 \<le> t2 \<and> t1 < t0 + c_OpenTimeout (applyDefaults cfg)"
  shows "\<exists>cb. execute_all cs (New name cfg) = Some cb \<and>
    b_state cb = (if ever_half_failed (nat (c_WindowSize (applyDefaults cfg)))
      (c_MinimumCalls (applyDefaults cfg)) (outcomes cs) then StateOpen else StateClosed)"
proof -
  have "c_FailureRateThreshold (applyDefaults cfg) = 1 / 2" and "c_WindowSize (applyDefaults cfg) < 2 ^ 52"
    using assms(1,2) by (auto simp: applyDefaults_def Let_def)
  from execute_all_trips [OF this assms(3), of name] show ?thesis
    by (auto simp: closed_log_def split: if_splits)
qed

theorem circuit_trips_iff_half_failed_witness:
  "\<exists>cb. execute_all [(0, 1, True), (1, 2, False)] (New ''payments'' (one_call\<lparr>c_WindowSize := 2\<rparr>)) = Some cb \<and>
    b_state cb = StateOpen"
  using circuit_trips_iff_half_failed [of "one_call\<lparr>c_WindowSize := 2\<rparr>" "[(0, 1, True), (1, 2, False)]" 0 "''payments''"]
  by (simp add: one_call_def applyDefaults_def outcomes_def ever_half_failed_def half_failed_def last_n_def upt_rec)

text \<open>C13. In every interleaving of concurrent callers, panics included: the notifications sent form
  an unbroken path of documented edges from closed to the current state, a probe is only marked
  in flight in the half-open state, the counters match the window, and completing a call never panics.\<close>

theorem circuit_transitions_legal:
  assumes "calls_reachable name cfg s" and "c_OnStateChange (b_cfg (k_cb s))"
  shows "chain (b_name (k_cb s)) StateClosed (b_hooks (k_cb s)) (b_state (k_cb s)) \<and>
    (b_probing (k_cb s), b_state (k_cb s)) \<notin> {True} \<times> {StateClosed, StateOpen} \<and>
    m_Failures (Metrics_method (k_cb s)) = int (count_list (window_list (b_win (k_cb s))) False) \<and>
    m_TotalCalls (Metrics_method (k_cb s)) = length (window_list (b_win (k_cb s))) \<and>
    afterCall t ok (k_cb s) \<noteq> None"
proof -
  have inv: "breaker_inv (k_cb s)" by (rule calls_reachable_inv [OF assms(1)])
  with assms(2) have "chain (b_name (k_cb s)) StateClosed (b_hooks (k_cb s)) (b_state (k_cb s))"
    and "b_probing (k_cb s) \<longrightarrow> b_state (k_cb s) = StateHalfOpen" and w: "window_inv (b_win (k_cb s))"
    by (simp_all add: breaker_inv_def)
  then show ?thesis
    using afterCall_inv [OF inv, of t ok] ring.total_eq [OF w] ring.fails_eq [OF w]
    by (auto simp: Metrics_method_def)
qed

theorem circuit_transitions_legal_witness:
  "(case calls_after ''db'' one_call [EvBegin 0, EvEnd 0 1 False, EvBegin 6, EvEnd 0 7 True] of
      Some s \<Rightarrow> chain ''db'' StateClosed (b_hooks (k_cb s)) (b_state (k_cb s)) \<and> length (b_hooks (k_cb s)) = 3
    | None \<Rightarrow> False)"
proof -
  let ?es = "[EvBegin 0, EvEnd 0 1 False, EvBegin 6, EvEnd 0 7 True]"
  have run: "(case calls_after ''db'' one_call ?es of
      Some s \<Rightarrow> b_name (k_cb s) = ''db'' \<and> c_OnStateChange (b_cfg (k_cb s)) \<and> length (b_hooks (k_cb s)) = 3
    | None \<Rightarrow> False)" by code_simp
  then obtain s where s: "calls_after ''db'' one_call ?es = Some s" by (auto split: option.splits)
  with run circuit_transitions_legal [OF calls_after_reachable [OF s], of 0 True] show ?thesis by auto
qed

text \<open>An open circuit sheds every call until \<open>OpenTimeout\<close> has elapsed: the function is not
  called, the answer is \<open>ErrCircuitOpen\<close>, and the breaker is unchanged, so the shed callers neither
  count as outcomes nor postpone the probe.\<close>

theorem open_circuit_sheds:
  assumes "b_state cb = StateOpen" and "t1 - b_openedAt cb < c_OpenTimeout (b_cfg cb)"
    and "0 < c_OpenTimeout (b_cfg cb)"
  shows "Execute t1 t2 r cb = Some (Rejected, cb)"
  using assms by (rule Execute_open)

theorem open_circuit_sheds_witness:
  "Execute 4 4 (answer True) ((New ''db'' one_call)\<lparr>b_state := StateOpen, b_openedAt := 0\<rparr>) =
    Some (Rejected, (New ''db'' one_call)\<lparr>b_state := StateOpen, b_openedAt := 0\<rparr>)"
  by (rule open_circuit_sheds) (simp_all add: New_def one_call_def applyDefaults_def Let_def)

text \<open>The breaker sheds calls in two situations: the circuit is open and \<open>OpenTimeout\<close> has not elapsed,
  or a probe is in flight.  Then the function is not called, the answer is \<open>ErrCircuitOpen\<close> and the
  breaker is unchanged: a shed call neither counts as an outcome nor postpones or replaces the
  probe.\<close>

theorem breaker_sheds:
  assumes "b_state cb = StateOpen \<and> t1 - b_openedAt cb < c_OpenTimeout (b_cfg cb) \<and> 0 < c_OpenTimeout (b_cfg cb) \<or>
    b_state cb = StateHalfOpen \<and> b_probing cb"
  shows "Execute t1 t2 r cb = Some (Rejected, cb)"
  using assms Execute_open [of cb t1 t2 r]
  by (auto simp: Execute_def beforeCall_def maybeAdvanceToHalfOpen_def)

theorem breaker_sheds_witness:
  "Execute 9 9 (answer True) ((New ''db'' one_call)\<lparr>b_state := StateHalfOpen, b_probing := True\<rparr>) =
    Some (Rejected, (New ''db'' one_call)\<lparr>b_state := StateHalfOpen, b_probing := True\<rparr>)"
  by (rule breaker_sheds) simp

text \<open>C14. Once \<open>OpenTimeout\<close> has elapsed the next call is let through as the probe, and its outcome
  decides: success closes the circuit with an empty window, failure opens it again with the timer
  restarted at that moment; in both cases the next probe is possible.\<close>

theorem probe_decides:
  assumes "breaker_inv cb" and "b_state cb = StateOpen" and "\<not> b_probing cb"
    and "c_OpenTimeout (b_cfg cb) \<le> t1 - b_openedAt cb" and "in_i64 (c_OpenTimeout (b_cfg cb))"
  shows "\<exists>cb'. Execute t1 t2 (answer ok) cb = Some (Finished (answer ok), cb') \<and> \<not> b_probing cb' \<and>
    (if ok then b_state cb' = StateClosed \<and> window_list (b_win cb') = [] \<and> win_count (b_win cb') = 0
     else b_state cb' = StateOpen \<and> b_openedAt cb' = t2 \<and> b_win cb' = b_win cb)"
proof -
  have "0 < c_OpenTimeout (b_cfg cb)" using assms(1) by (simp add: breaker_inv_def cfg_ok_def)
  then have "c_OpenTimeout (b_cfg cb) \<le> time_sub t1 (b_openedAt cb)"
    using assms(4,5) by (auto simp: time_sub_def sat_dur_def in_i64_def)
  then have adv: "maybeAdvanceToHalfOpen t1 cb = transition t1 StateHalfOpen cb"
    using assms(2) by (simp add: maybeAdvanceToHalfOpen_def)
  let ?p = "(transition t1 StateHalfOpen cb)\<lparr>b_probing := True\<rparr>"
  have before: "beforeCall t1 cb = (True, ?p)"
    using assms(3) by (simp add: beforeCall_def adv)
  have "window_inv (b_win cb)" using assms(1) by (simp add: breaker_inv_def)
  from win_reset_inv [OF this] show ?thesis
    by (cases ok) (auto simp: Execute_def before answer_def afterCall_def Let_def win_count_def win_reset_def,
      auto simp: transition_def Let_def)
qed

theorem probe_decides_witness:
  "\<exists>cb'. Execute 9 11 (answer False) ((New ''db'' one_call)\<lparr>b_state := StateOpen, b_openedAt := 0, b_hooks := [(''db'', StateClosed, StateOpen)]\<rparr>) =
      Some (Finished (answer False), cb') \<and> b_state cb' = StateOpen \<and> b_openedAt cb' = 11"
proof -
  let ?cb = "(New ''db'' one_call)\<lparr>b_state := StateOpen, b_openedAt := 0, b_hooks := [(''db'', StateClosed, StateOpen)]\<rparr>"
  have "breaker_inv ?cb"
    using New_inv [of "''db''" one_call]
    by (simp add: breaker_inv_def New_def Let_def one_call_def applyDefaults_def bedge_simps)
  then show ?thesis
    using probe_decides [of ?cb 9 11 False]
    by (auto simp: New_def Let_def one_call_def applyDefaults_def in_i64_def)
qed

text \<open>While the probe is in flight, any number of concurrent callers that arrive, and any number
  of \<open>State\<close> queries, are answered without being let through and without any change to the breaker.\<close>

theorem one_probe_at_a_time:
  assumes "b_state (k_cb s) = StateHalfOpen" and "b_probing (k_cb s)" and "list_all asks es"
    and "call_run es s = Some s'"
  shows "k_cb s' = k_cb s \<and> k_open s' = k_open s"
  using assms by (rule half_open_asks)

theorem one_probe_at_a_time_witness:
  "(case calls_after ''db'' one_call [EvBegin 0, EvEnd 0 1 False, EvBegin 6] of None \<Rightarrow> False
    | Some s \<Rightarrow> (case call_run [EvBegin 6, EvState 7, EvBegin 8] s of None \<Rightarrow> False
      | Some s' \<Rightarrow> k_open s' = [True] \<and> k_cb s' = k_cb s))"
proof -
  have run: "(case calls_after ''db'' one_call [EvBegin 0, EvEnd 0 1 False, EvBegin 6] of None \<Rightarrow> False
    | Some s \<Rightarrow> b_state (k_cb s) = StateHalfOpen \<and> b_probing (k_cb s) \<and> k_open s = [True] \<and>
        call_run [EvBegin 6, EvState 7, EvBegin 8] s \<noteq> None)" by code_simp
  then obtain s s' where s: "calls_after ''db'' one_call [EvBegin 0, EvEnd 0 1 False, EvBegin 6] = Some s"
    and s': "call_run [EvBegin 6, EvState 7, EvBegin 8] s = Some s'"
    by (auto split: option.splits)
  moreover have "list_all asks [EvBegin 6, EvState 7, EvBegin 8]" by (simp add: asks_def)
  ultimately show ?thesis
    using run one_probe_at_a_time [of s "[EvBegin 6, EvState 7, EvBegin 8]" s'] by simp
qed

text \<open>The single probe is not guaranteed when calls outlive a state change: a call admitted while
  the circuit was closed that completes in the half-open state is taken for the probe.  Two
  half-open probes can then be in flight at once, and the circuit can close on the late
  success of the old call while the real probe is still running.\<close>

theorem stale_completion_counts_as_probe:
  "(\<exists>s. calls_reachable ''db'' one_call s \<and> b_state (k_cb s) = StateHalfOpen \<and> k_open s = [True, True]) \<and>
   (\<exists>s. calls_reachable ''db'' one_call s \<and> b_state (k_cb s) = StateClosed \<and> k_open s = [True])"
proof
  let ?a = "[EvBegin 0, EvBegin 0, EvEnd 0 1 False, EvBegin 6, EvEnd 0 6 False, EvBegin 11]"
  have "(case calls_after ''db'' one_call ?a of None \<Rightarrow> False
    | Some s \<Rightarrow> b_state (k_cb s) = StateHalfOpen \<and> k_open s = [True, True])" by code_simp
  then show "\<exists>s. calls_reachable ''db'' one_call s \<and> b_state (k_cb s) = StateHalfOpen \<and> k_open s = [True, True]"
    using calls_after_reachable [of "''db''" one_call ?a] by (auto split: option.splits)
  let ?b = "[EvBegin 0, EvBegin 0, EvEnd 0 1 False, EvBegin 6, EvEnd 0 6 True]"
  have "(case calls_after ''db'' one_call ?b of None \<Rightarrow> False
    | Some s \<Rightarrow> b_state (k_cb s) = StateClosed \<and> k_open s = [True])" by code_simp
  then show "\<exists>s. calls_reachable ''db'' one_call s \<and> b_state (k_cb s) = StateClosed \<and> k_open s = [True]"
    using calls_after_reachable [of "''db''" one_call ?b] by (auto split: option.splits)
qed

end
