(* ===== verification/CircuitLoad.thy ===== *)
theory CircuitLoad
  imports CircuitProperties
begin

text \<open>
  The load that the breaker of \<open>system-design/circuit-breaker/breaker.go\<close> lets through: once the circuit is
  open and until a call succeeds, and after a probe has panicked.  The runs are those of \<open>call_run\<close>, all
  interleavings of the critical sections of concurrent callers; the bound is an invariant that charges
  every call let through to one \<open>OpenTimeout\<close> of the time elapsed.
\<close>

text \<open>No call succeeds: calls fail, panic, or are still running.\<close>

definition no_success :: "call_event \<Rightarrow> bool" where
  "no_success e = (case e of EvEnd _ _ ok \<Rightarrow> \<not> ok | _ \<Rightarrow> True)"

text \<open>The number of callers a run lets through to the service.\<close>

definition lets_through :: "call_event \<Rightarrow> calls_sys \<Rightarrow> bool" where
  "lets_through e s = (case e of EvBegin t \<Rightarrow> fst (beforeCall t (k_cb s)) | _ \<Rightarrow> False)"

fun admissions :: "call_event list \<Rightarrow> calls_sys \<Rightarrow> nat" where
  "admissions [] s = 0"
| "admissions (e # es) s =
     (case call_step e s of None \<Rightarrow> 0
      | Some s' \<Rightarrow> (if lets_through e s then 1 else 0) + admissions es s')"

section \<open>The clock of an open circuit\<close>

lemma transition_openedAt [simp]:
  "b_openedAt (transition now st cb) = (if b_state cb \<noteq> st \<and> st = StateOpen then now else b_openedAt cb)"
  by (auto simp: transition_def Let_def)

lemma advance_cases:
  obtains "maybeAdvanceToHalfOpen t cb = cb" and "b_state cb \<noteq> StateOpen \<or> \<not> c_OpenTimeout (b_cfg cb) \<le> time_sub t (b_openedAt cb)"
  | "maybeAdvanceToHalfOpen t cb = transition t StateHalfOpen cb" and "b_state cb = StateOpen"
    and "c_OpenTimeout (b_cfg cb) \<le> time_sub t (b_openedAt cb)"
  by (cases "b_state cb = StateOpen \<and> c_OpenTimeout (b_cfg cb) \<le> time_sub t (b_openedAt cb)")
    (auto simp: maybeAdvanceToHalfOpen_def)

lemma time_sub_reached: "0 < d \<Longrightarrow> d \<le> time_sub t u \<Longrightarrow> d \<le> t - u"
  by (auto simp: time_sub_def sat_dur_def split: if_splits)

definition opened_before :: "calls_sys \<Rightarrow> bool" where
  "opened_before s \<longleftrightarrow> (b_state (k_cb s) = StateOpen \<longrightarrow> b_openedAt (k_cb s) \<le> k_now s)"

lemma call_step_opened: "opened_before s \<Longrightarrow> call_step e s = Some s' \<Longrightarrow> opened_before s'"
  by (cases e)
    (auto simp: opened_before_def beforeCall_def State_method_def afterCall_def maybeAdvanceToHalfOpen_def Let_def
      split: if_splits option.splits bstate.splits)

lemma calls_init_opened: "opened_before (calls_init name cfg t0)"
  by (simp add: opened_before_def calls_init_def New_def Let_def)

lemma calls_reachable_opened: "calls_reachable name cfg s \<Longrightarrow> opened_before s"
  by (induction rule: calls_reachable.induct) (auto simp: calls_init_opened intro: call_step_opened)

section \<open>Charging calls to elapsed time\<close>

text \<open>
  \<open>n\<close> calls have been let through since the time \<open>t0\<close>.  An open circuit has paid for them before it
  opened, a half-open one that waits for its probe has one \<open>OpenTimeout\<close> to spare.  The calls in
  flight do not matter: one that was let through earlier and fails in the half-open state opens the
  circuit again, and so costs the callers their probe rather than giving them a second one.
\<close>

definition charged :: "time \<Rightarrow> duration \<Rightarrow> nat \<Rightarrow> calls_sys \<Rightarrow> bool" where
  "charged t0 d n s \<longleftrightarrow>
     0 < d \<and> c_OpenTimeout (b_cfg (k_cb s)) = d \<and>
     (case b_state (k_cb s) of
        StateClosed \<Rightarrow> False
      | StateOpen \<Rightarrow> \<not> b_probing (k_cb s) \<and>
          int n * d \<le> b_openedAt (k_cb s) - t0 \<and> b_openedAt (k_cb s) \<le> k_now s
      | StateHalfOpen \<Rightarrow>
          int (if b_probing (k_cb s) then n else Suc n) * d \<le> k_now s - t0)"

lemma charged_bound: "charged t0 d n s \<Longrightarrow> int n * d \<le> k_now s - t0"
  by (auto simp: charged_def distrib_right split: bstate.splits if_splits)

lemma charged_advance:
  assumes "charged t0 d n s" and "k_now s \<le> t"
  shows "charged t0 d n (s\<lparr>k_cb := maybeAdvanceToHalfOpen t (k_cb s), k_now := t\<rparr>)"
proof (cases rule: advance_cases [of t "k_cb s"])
  case 1
  with assms show ?thesis by (auto simp: charged_def split: bstate.splits if_splits)
next
  case 2
  with assms have "d \<le> t - b_openedAt (k_cb s)"
    by (intro time_sub_reached) (simp_all add: charged_def)
  with 2 assms show ?thesis by (simp add: charged_def distrib_right)
qed

lemma charged_begin:
  assumes c: "charged t0 d n s" and st: "call_step (EvBegin t) s = Some s'"
  shows "charged t0 d (n + (if lets_through (EvBegin t) s then 1 else 0)) s'"
proof -
  let ?cb = "maybeAdvanceToHalfOpen t (k_cb s)"
  have t: "k_now s \<le> t" using st by (simp split: if_splits)
  have "charged t0 d n (s\<lparr>k_cb := ?cb, k_now := t\<rparr>)" using charged_advance [OF c t] .
  then show ?thesis
    using st t
    by (cases "b_state ?cb"; cases "b_probing ?cb")
      (auto simp: charged_def lets_through_def beforeCall_def Let_def)
qed

lemma charged_end:
  assumes "charged t0 d n s" and "call_step (EvEnd i t False) s = Some s'"
  shows "charged t0 d n s'"
  using assms
  by (auto simp: charged_def afterCall_def Let_def distrib_right split: if_splits bstate.splits)

lemma charged_step:
  assumes "charged t0 d n s" and "no_success e" and "call_step e s = Some s'"
  shows "charged t0 d (n + (if lets_through e s then 1 else 0)) s'"
proof (cases e)
  case (EvBegin t)
  with assms charged_begin show ?thesis by blast
next
  case (EvEnd i t ok)
  with assms charged_end [of t0 d n s i t s'] show ?thesis by (simp add: no_success_def lets_through_def)
next
  case (EvPanic i)
  with assms show ?thesis
    by (auto simp: charged_def lets_through_def remove_nth_def split: if_splits bstate.splits)
next
  case (EvState t)
  with assms charged_advance [of t0 d n s t] show ?thesis
    by (auto simp: lets_through_def State_method_def Let_def split: if_splits)
qed

lemma charged_run:
  "charged t0 d n s \<Longrightarrow> list_all no_success es \<Longrightarrow> call_run es s = Some s' \<Longrightarrow>
   charged t0 d (n + admissions es s) s'"
proof (induction es arbitrary: n s)
  case (Cons e es)
  then obtain s1 where s1: "call_step e s = Some s1" "call_run es s1 = Some s'"
    by (auto split: option.splits)
  from charged_step [OF Cons.prems(1) _ s1(1)] Cons.prems(2)
  have "charged t0 d (n + (if lets_through e s then 1 else 0)) s1" by simp
  from Cons.IH [OF this _ s1(2)] Cons.prems(2) s1(1) show ?case by (simp add: add.assoc)
qed simp

section \<open>A probe that is never answered\<close>

text \<open>Half-open, marked as probing, and nobody in flight who could report: nothing can change any more.\<close>

lemma wedged_step:
  assumes "b_state (k_cb s) = StateHalfOpen" and "b_probing (k_cb s)" and "k_open s = []"
    and "call_step e s = Some s'"
  shows "k_cb s' = k_cb s \<and> k_open s' = [] \<and> \<not> lets_through e s"
proof -
  have "asks e" using assms(3,4) by (cases e) (auto simp: asks_def)
  moreover have "\<not> lets_through e s"
    using assms(1,2) by (cases e) (auto simp: lets_through_def beforeCall_def maybeAdvanceToHalfOpen_def)
  ultimately show ?thesis using half_open_ask [OF assms(1,2) _ assms(4)] assms(3) by simp
qed

lemma wedged_run:
  "b_state (k_cb s) = StateHalfOpen \<Longrightarrow> b_probing (k_cb s) \<Longrightarrow> k_open s = [] \<Longrightarrow> call_run es s = Some s' \<Longrightarrow>
   k_cb s' = k_cb s \<and> k_open s' = [] \<and> admissions es s = 0"
proof (induction es arbitrary: s)
  case (Cons e es)
  then obtain s1 where s1: "call_step e s = Some s1" "call_run es s1 = Some s'"
    by (auto split: option.splits)
  from wedged_step [OF Cons.prems(1-3) s1(1)] Cons.IH [of s1] Cons.prems s1 show ?case by simp
qed simp

section \<open>Properties\<close>

text \<open>C15. From the moment the circuit is open, and as long as no call succeeds, the service is called at
  most once per \<open>OpenTimeout\<close>: from any reachable state in which the circuit is open, whatever calls are
  still in flight, however many callers then arrive, in whatever order they, the calls in flight and
  the \<open>State\<close> queries interleave, and whether calls fail, panic or hang, the number of callers let
  through is at most the time since the circuit opened divided by \<open>OpenTimeout\<close>.  (Before it opens, a
  closed circuit lets every caller through.)\<close>

theorem failing_service_load:
  assumes "calls_reachable name cfg s" and "b_state (k_cb s) = StateOpen"
    and "list_all no_success es" and "call_run es s = Some s'"
  shows "int (admissions es s) * c_OpenTimeout (b_cfg (k_cb s)) \<le> k_now s' - b_openedAt (k_cb s)"
proof -
  have "breaker_inv (k_cb s)" and "opened_before s"
    using assms(1) by (rule calls_reachable_inv, rule calls_reachable_opened)
  then have "charged (b_openedAt (k_cb s)) (c_OpenTimeout (b_cfg (k_cb s))) 0 s"
    using assms(2) by (auto simp: charged_def breaker_inv_def cfg_ok_def opened_before_def)
  from charged_bound [OF charged_run [OF this assms(3,4)]] show ?thesis by simp
qed

text \<open>Two calls are let through at time 0, the first failure opens the circuit at time 1 with a timeout
  of 5.  Of six callers at the times 2 to 13 two get through, although the old call reports at 6.\<close>

theorem failing_service_load_witness:
  "\<exists>s es s'. calls_after ''db'' one_call [EvBegin 0, EvBegin 0, EvEnd 0 1 False] = Some s \<and>
    call_run es s = Some s' \<and> k_open s \<noteq> [] \<and> admissions es s = 2 \<and> 2 * 5 \<le> k_now s' - 1"
proof -
  let ?a = "[EvBegin 0, EvBegin 0, EvEnd 0 1 False]"
  let ?es = "[EvBegin 2, EvBegin 6, EvBegin 6, EvEnd 0 6 False, EvBegin 8, EvState 11, EvBegin 12, EvBegin 13, EvPanic 0]"
  have run: "(case calls_after ''db'' one_call ?a of None \<Rightarrow> False
    | Some s \<Rightarrow> b_state (k_cb s) = StateOpen \<and> k_open s \<noteq> [] \<and> b_openedAt (k_cb s) = 1 \<and>
        c_OpenTimeout (b_cfg (k_cb s)) = 5 \<and> admissions ?es s = 2 \<and> call_run ?es s \<noteq> None)" by code_simp
  then obtain s where s: "calls_after ''db'' one_call ?a = Some s"
    by (cases "calls_after ''db'' one_call ?a") simp_all
  with run obtain s' where s': "call_run ?es s = Some s'"
    by (cases "call_run ?es s") (simp_all del: call_run.simps admissions.simps)
  have "list_all no_success ?es" by (simp add: no_success_def)
  from failing_service_load [OF calls_after_reachable [OF s] _ this s'] run s s' show ?thesis
    by (intro exI [of _ s] exI [of _ ?es] exI [of _ s']) (simp del: call_run.simps admissions.simps)
qed

text \<open>C16. A probe that panics wedges the breaker for good: \<open>Execute\<close> does not undo \<open>probing\<close> when the
  function panics, so when the probe was the only call in flight, no caller is ever let through
  again, the state never changes, and no call is in flight, in every continuation, however much time
  passes and however healthy the service is.\<close>

theorem panicked_probe_wedges:
  assumes "b_state (k_cb s) = StateHalfOpen" and "b_probing (k_cb s)" and "k_open s = [p]"
    and "call_step (EvPanic 0) s = Some s1" and "call_run es s1 = Some s2"
  shows "admissions es s1 = 0 \<and> k_cb s2 = k_cb s \<and> k_open s2 = []"
proof -
  have "k_cb s1 = k_cb s" "k_open s1 = []" using assms(3,4) by (auto simp: remove_nth_def)
  then show ?thesis using wedged_run [of s1 es s2] assms(1,2,5) by simp
qed

text \<open>The state is reached: the circuit opens at time 1, the probe of time 6 panics, and callers of any
  later time are turned away.\<close>

theorem panicked_probe_wedges_witness:
  "\<exists>s s1 s2. calls_reachable ''db'' one_call s \<and> call_step (EvPanic 0) s = Some s1 \<and>
    call_run [EvBegin 100, EvBegin 1000, EvState 2000] s1 = Some s2 \<and> k_now s2 = 2000 \<and> k_open s2 = [] \<and>
    b_state (k_cb s2) = StateHalfOpen"
proof -
  let ?a = "[EvBegin 0, EvEnd 0 1 False, EvBegin 6]" and ?es = "[EvBegin 100, EvBegin 1000, EvState 2000]"
  have run: "(case calls_after ''db'' one_call ?a of None \<Rightarrow> False
    | Some s \<Rightarrow> b_state (k_cb s) = StateHalfOpen \<and> b_probing (k_cb s) \<and> k_open s = [True] \<and>
       (case call_step (EvPanic 0) s of None \<Rightarrow> False
        | Some s1 \<Rightarrow> (case call_run ?es s1 of None \<Rightarrow> False | Some s2 \<Rightarrow> k_now s2 = 2000)))" by code_simp
  then obtain s where s: "calls_after ''db'' one_call ?a = Some s"
    by (cases "calls_after ''db'' one_call ?a") simp_all
  with run obtain s1 where s1: "call_step (EvPanic 0) s = Some s1"
    by (cases "call_step (EvPanic 0) s") (simp_all del: call_step.simps call_run.simps)
  with run s obtain s2 where s2: "call_run ?es s1 = Some s2"
    by (cases "call_run ?es s1") (simp_all del: call_step.simps call_run.simps)
  have h: "b_state (k_cb s) = StateHalfOpen" "b_probing (k_cb s)" "k_open s = [True]" "k_now s2 = 2000"
    using run s s1 s2 by (simp_all del: call_step.simps call_run.simps)
  from panicked_probe_wedges [OF h(1-3) s1 s2] calls_after_reachable [OF s] s1 s2 h show ?thesis
    by (intro exI [of _ s] exI [of _ s1] exI [of _ s2]) (simp del: call_step.simps call_run.simps)
qed

end
