(* ===== verification/RateLimiters.thy ===== *)
theory RateLimiters
  imports GoPrelude
begin

text \<open>
  The three limiters of \<open>pkg/rate_limiter.go\<close> and the interface \<open>rateLimiter\<close> they share.  An
  \<open>Allow\<close> takes the clock reading of the call and gives \<open>None\<close> when the code panics.  The locale
  \<open>rate_limiter\<close> is that interface with its contract: the times of the requests granted so far stay
  within a bound.  It is interpreted on the token bucket, the fixed window and the sliding
  window, whose bounds differ.
\<close>

section \<open>Token bucket\<close>

record token_bucket =
  tb_capacity :: int
  tb_tokens :: int
  tb_refillRate :: int
  tb_refillInterval :: duration
  tb_lastRefill :: time

definition NewTokenBucket :: "time \<Rightarrow> int \<Rightarrow> int \<Rightarrow> duration \<Rightarrow> token_bucket" where
  "NewTokenBucket now capacity refillRate refillInterval =
     \<lparr>tb_capacity = capacity, tb_tokens = capacity, tb_refillRate = refillRate,
      tb_refillInterval = refillInterval, tb_lastRefill = now\<rparr>"

text \<open>The package's own \<open>min\<close>.\<close>

definition pkg_min :: "int \<Rightarrow> int \<Rightarrow> int" where
  "pkg_min a b = (if a < b then a else b)"

text \<open>\<open>None\<close> is the division by a zero interval.\<close>

definition refill :: "time \<Rightarrow> token_bucket \<Rightarrow> token_bucket option" where
  "refill now tb =
     (if tb_refillInterval tb = 0 then None
      else
        let elapsed = time_sub now (tb_lastRefill tb);
            intervals = i64 (elapsed sdiv tb_refillInterval tb)
        in Some (if intervals > 0
           then tb\<lparr>tb_tokens := pkg_min (tb_capacity tb) (i64 (tb_tokens tb + i64 (intervals * tb_refillRate tb))),
                   tb_lastRefill := time_add (tb_lastRefill tb) (i64 (intervals * tb_refillInterval tb))\<rparr>
           else tb))"

definition tb_Allow :: "time \<Rightarrow> token_bucket \<Rightarrow> (bool \<times> token_bucket) option" where
  "tb_Allow now tb =
     (case refill now tb of
        None \<Rightarrow> None
      | Some tb \<Rightarrow> Some (if tb_tokens tb > 0 then (True, tb\<lparr>tb_tokens := tb_tokens tb - 1\<rparr>) else (False, tb)))"

section \<open>Fixed window\<close>

record fixed_window =
  fw_limit :: int
  fw_count :: int
  fw_windowSize :: duration
  fw_windowStart :: time

definition NewFixedWindow :: "time \<Rightarrow> int \<Rightarrow> duration \<Rightarrow> fixed_window" where
  "NewFixedWindow now limit windowSize =
     \<lparr>fw_limit = limit, fw_count = 0, fw_windowSize = windowSize, fw_windowStart = now\<rparr>"

definition fw_Allow :: "time \<Rightarrow> fixed_window \<Rightarrow> (bool \<times> fixed_window) option" where
  "fw_Allow now fw =
     (let fw = (if time_sub now (fw_windowStart fw) \<ge> fw_windowSize fw
                then fw\<lparr>fw_count := 0, fw_windowStart := now\<rparr> else fw)
      in Some (if fw_count fw < fw_limit fw then (True, fw\<lparr>fw_count := fw_count fw + 1\<rparr>)
               else (False, fw)))"

section \<open>Sliding window\<close>

record sliding_window =
  sw_limit :: int
  sw_windowSize :: duration
  sw_timestamps :: "time list"

definition NewSlidingWindow :: "int \<Rightarrow> duration \<Rightarrow> sliding_window" where
  "NewSlidingWindow limit windowSize =
     \<lparr>sw_limit = limit, sw_windowSize = windowSize, sw_timestamps = []\<rparr>"

text \<open>The eviction loop and the reslicing after it.\<close>

fun evict_index :: "time \<Rightarrow> time list \<Rightarrow> nat" where
  "evict_index cutoff [] = 0"
| "evict_index cutoff (t # ts) = (if t < cutoff then Suc (evict_index cutoff ts) else 0)"

definition evict :: "time \<Rightarrow> time list \<Rightarrow> time list" where
  "evict cutoff ts = drop (evict_index cutoff ts) ts"

lemma evict_dropWhile: "evict cutoff ts = dropWhile (\<lambda>t. t < cutoff) ts"
  unfolding evict_def by (induction ts) auto

lemma evict_sorted: "sorted ts \<Longrightarrow> evict cutoff ts = filter (\<lambda>t. cutoff \<le> t) ts"
  using takeWhile_dropWhile_sorted [of "\<lambda>t. t" ts cutoff] by (simp add: evict_dropWhile)

definition sw_Allow :: "time \<Rightarrow> sliding_window \<Rightarrow> (bool \<times> sliding_window) option" where
  "sw_Allow now sw =
     (let cutoff = time_add now (i64 (- sw_windowSize sw));
          sw = sw\<lparr>sw_timestamps := evict cutoff (sw_timestamps sw)\<rparr>
      in Some (if int (length (sw_timestamps sw)) < sw_limit sw
               then (True, sw\<lparr>sw_timestamps := sw_timestamps sw @ [now]\<rparr>)
               else (False, sw)))"

section \<open>The demo's loop\<close>

text \<open>
  \<open>simulateLimiter\<close> over any limiter, with the clock readings of its requests: it counts the
  allowed and the rejected ones.  (The lines it prints are left out.)
\<close>

fun simulate_loop ::
  "(time \<Rightarrow> 's \<Rightarrow> (bool \<times> 's) option) \<Rightarrow> time list \<Rightarrow> 's \<Rightarrow> int \<times> int \<Rightarrow> ((int \<times> int) \<times> 's) option" where
  "simulate_loop Allow [] s c = Some (c, s)"
| "simulate_loop Allow (t # ts) s (allowed, rejected) =
     (case Allow t s of
        None \<Rightarrow> None
      | Some (True, s') \<Rightarrow> simulate_loop Allow ts s' (allowed + 1, rejected)
      | Some (False, s') \<Rightarrow> simulate_loop Allow ts s' (allowed, rejected + 1))"

definition simulateLimiter ::
  "(time \<Rightarrow> 's \<Rightarrow> (bool \<times> 's) option) \<Rightarrow> time list \<Rightarrow> 's \<Rightarrow> ((int \<times> int) \<times> 's) option" where
  "simulateLimiter Allow readings s = simulate_loop Allow readings s (0, 0)"

text \<open>The same loop, keeping the times of the granted requests.\<close>

fun serve :: "(time \<Rightarrow> 's \<Rightarrow> (bool \<times> 's) option) \<Rightarrow> time list \<Rightarrow> 's \<Rightarrow> (time list \<times> 's) option" where
  "serve Allow [] s = Some ([], s)"
| "serve Allow (t # ts) s =
     (case Allow t s of
        None \<Rightarrow> None
      | Some (ok, s') \<Rightarrow>
          map_option (\<lambda>(gs, s''). (if ok then t # gs else gs, s'')) (serve Allow ts s'))"

section \<open>The contract\<close>

text \<open>The number of requests granted in the closed interval from \<open>a\<close> to \<open>b\<close>.\<close>

definition between :: "time \<Rightarrow> time \<Rightarrow> time list \<Rightarrow> nat" where
  "between a b gs = length (filter (\<lambda>g. a \<le> g \<and> g \<le> b) gs)"

lemma between_Nil [simp]: "between a b [] = 0"
  and between_snoc [simp]: "between a b (gs @ [t]) = between a b gs + (if a \<le> t \<and> t \<le> b then 1 else 0)"
  by (simp_all add: between_def)

lemma length_filter_imp: "(\<And>x. x \<in> set xs \<Longrightarrow> P x \<Longrightarrow> Q x) \<Longrightarrow> length (filter P xs) \<le> length (filter Q xs)"
  by (induction xs) auto

lemma between_mono: "(\<And>g. g \<in> set gs \<Longrightarrow> a \<le> g \<Longrightarrow> g \<le> b \<Longrightarrow> c \<le> g \<and> g \<le> d) \<Longrightarrow> between a b gs \<le> between c d gs"
  unfolding between_def by (rule length_filter_imp) blast

lemma between_zero: "(\<And>g. g \<in> set gs \<Longrightarrow> \<not> (a \<le> g \<and> g \<le> b)) \<Longrightarrow> between a b gs = 0"
  by (auto simp: between_def filter_empty_conv)

lemma between_split: "a \<le> c \<Longrightarrow> between a b gs \<le> between a (c - 1) gs + between c b gs"
  by (induction gs) (auto simp: between_def)

text \<open>
  \<open>inv now gs s\<close>: the limiter \<open>s\<close>, last used at \<open>now\<close>, has granted the requests at the times \<open>gs\<close>.
  The clock does not go back (\<open>usable\<close> may limit how far it goes).
\<close>

locale rate_limiter =
  fixes Allow :: "time \<Rightarrow> 's \<Rightarrow> (bool \<times> 's) option"
    and inv :: "time \<Rightarrow> time list \<Rightarrow> 's \<Rightarrow> bool"
    and usable :: "time \<Rightarrow> bool"
    and bounded :: "time list \<Rightarrow> bool"
  assumes Allow_inv: "inv now gs s \<Longrightarrow> now \<le> t \<Longrightarrow> usable t \<Longrightarrow>
      \<exists>ok s'. Allow t s = Some (ok, s') \<and> inv t (if ok then gs @ [t] else gs) s'"
    and inv_bounded: "inv now gs s \<Longrightarrow> bounded gs"
begin

lemma serve_inv:
  "inv now gs s \<Longrightarrow> sorted (now # ts) \<Longrightarrow> list_all usable ts \<Longrightarrow>
   \<exists>hs s'. serve Allow ts s = Some (hs, s') \<and> inv (last (now # ts)) (gs @ hs) s' \<and> length hs \<le> length ts"
proof (induction ts arbitrary: now gs s)
  case (Cons t ts)
  then obtain ok s1 where s1: "Allow t s = Some (ok, s1)" "inv t (if ok then gs @ [t] else gs) s1"
    using Allow_inv [of now gs s t] by auto
  from Cons.IH [OF s1(2)] Cons.prems obtain hs s' where
    "serve Allow ts s1 = Some (hs, s')" "inv (last (t # ts)) ((if ok then gs @ [t] else gs) @ hs) s'"
    "length hs \<le> length ts" by auto
  with s1 show ?case by (cases ok) auto
qed simp

lemma serve_bounded:
  assumes "inv now [] s" and "sorted (now # ts)" and "list_all usable ts"
  shows "\<exists>hs s'. serve Allow ts s = Some (hs, s') \<and> bounded hs"
  using serve_inv [OF assms] inv_bounded by fastforce

end

text \<open>The demo's counters are the numbers of granted and of refused requests.\<close>

lemma simulate_loop_serve:
  "serve Allow ts s = Some (hs, s') \<Longrightarrow>
   simulate_loop Allow ts s (a, r) =
     Some ((a + int (length hs), r + int (length ts) - int (length hs)), s')"
proof (induction ts arbitrary: s hs a r)
  case (Cons t ts)
  then obtain ok s1 hs1 where s1: "Allow t s = Some (ok, s1)" "serve Allow ts s1 = Some (hs1, s')"
    "hs = (if ok then t # hs1 else hs1)"
    by (auto split: option.splits)
  with Cons.IH [OF s1(2)] show ?case by (cases ok) auto
qed simp

section \<open>The fixed window keeps the contract\<close>

definition fw_bounded :: "int \<Rightarrow> duration \<Rightarrow> time list \<Rightarrow> bool" where
  "fw_bounded L W gs \<longleftrightarrow> (\<forall>a. int (between a (a + W - 1) gs) \<le> 2 * L)"

definition fw_inv :: "int \<Rightarrow> duration \<Rightarrow> time \<Rightarrow> time list \<Rightarrow> fixed_window \<Rightarrow> bool" where
  "fw_inv L W now gs s \<longleftrightarrow>
     fw_limit s = L \<and> fw_windowSize s = W \<and> 0 \<le> L \<and> 0 < W \<and> in_i64 W \<and>
     fw_windowStart s \<le> now \<and> now < fw_windowStart s + W \<and> (\<forall>g \<in> set gs. g \<le> now) \<and>
     fw_count s = int (between (fw_windowStart s) now gs) \<and> fw_count s \<le> L \<and>
     int (between (fw_windowStart s - W) (fw_windowStart s - 1) gs) \<le> L \<and> fw_bounded L W gs"

lemma fw_bounded_snoc:
  assumes "fw_bounded L W gs" and "\<And>a. t - W < a \<Longrightarrow> a \<le> t \<Longrightarrow> int (between a (a + W - 1) gs) < 2 * L"
  shows "fw_bounded L W (gs @ [t])"
  unfolding fw_bounded_def
proof
  fix a
  show "int (between a (a + W - 1) (gs @ [t])) \<le> 2 * L"
    using assms(1) assms(2) [of a] by (auto simp: fw_bounded_def)
qed

lemma fw_inv_reset:
  assumes inv: "fw_inv L W now gs s" and t: "now \<le> t" "fw_windowStart s + W \<le> t"
  shows "fw_inv L W t gs (s\<lparr>fw_count := 0, fw_windowStart := t\<rparr>)"
proof -
  have "between t t gs = 0" using inv t by (intro between_zero) (auto simp: fw_inv_def)
  moreover have "between (t - W) (t - 1) gs \<le> between (fw_windowStart s) now gs"
    using inv t by (intro between_mono) (auto simp: fw_inv_def)
  ultimately show ?thesis using inv t by (auto simp: fw_inv_def)
qed

lemma fw_inv_stay:
  assumes inv: "fw_inv L W now gs s" and t: "now \<le> t" "t < fw_windowStart s + W"
  shows "fw_inv L W t gs s"
proof -
  have "between (fw_windowStart s) now gs = between (fw_windowStart s) t gs"
    using inv t by (intro antisym between_mono) (auto simp: fw_inv_def)
  with inv t show ?thesis by (auto simp: fw_inv_def)
qed

lemma fw_inv_grant:
  assumes inv: "fw_inv L W t gs s" and c: "fw_count s < L"
  shows "fw_inv L W t (gs @ [t]) (s\<lparr>fw_count := fw_count s + 1\<rparr>)"
proof -
  let ?ws = "fw_windowStart s"
  have "fw_bounded L W (gs @ [t])"
  proof (rule fw_bounded_snoc)
    show "fw_bounded L W gs" using inv by (simp add: fw_inv_def)
    fix a assume a: "t - W < a" "a \<le> t"
    have 1: "between ?ws (a + W - 1) gs \<le> between ?ws t gs"
      using inv by (intro between_mono) (auto simp: fw_inv_def)
    show "int (between a (a + W - 1) gs) < 2 * L"
    proof (cases "?ws \<le> a")
      case True
      then have "between a (a + W - 1) gs \<le> between ?ws t gs"
        using inv by (intro between_mono) (auto simp: fw_inv_def)
      with inv c show ?thesis by (auto simp: fw_inv_def)
    next
      case False
      have "between a (?ws - 1) gs \<le> between (?ws - W) (?ws - 1) gs"
        using inv a by (intro between_mono) (auto simp: fw_inv_def)
      with False 1 between_split [of a ?ws "a + W - 1" gs] inv c show ?thesis
        by (auto simp: fw_inv_def)
    qed
  qed
  moreover have "between (?ws - W) (?ws - 1) (gs @ [t]) = between (?ws - W) (?ws - 1) gs"
    and "between ?ws t (gs @ [t]) = Suc (between ?ws t gs)"
    using inv by (simp_all add: fw_inv_def)
  ultimately show ?thesis using inv c unfolding fw_inv_def by simp
qed

lemma fw_Allow_inv:
  assumes inv: "fw_inv L W now gs s" and t: "now \<le> t"
  shows "\<exists>ok s'. fw_Allow t s = Some (ok, s') \<and> fw_inv L W t (if ok then gs @ [t] else gs) s'"
proof -
  let ?s = "if time_sub t (fw_windowStart s) \<ge> fw_windowSize s then s\<lparr>fw_count := 0, fw_windowStart := t\<rparr> else s"
  have "time_sub t (fw_windowStart s) \<ge> fw_windowSize s \<longleftrightarrow> fw_windowStart s + W \<le> t"
    using inv sat_dur_ge_iff [of W "t - fw_windowStart s"] by (auto simp: fw_inv_def time_sub_def in_i64_def)
  then have inv': "fw_inv L W t gs ?s"
    using fw_inv_reset [OF inv t] fw_inv_stay [OF inv t] by auto
  have A: "fw_Allow t s = Some (if fw_count ?s < L then (True, ?s\<lparr>fw_count := fw_count ?s + 1\<rparr>) else (False, ?s))"
    using inv by (simp add: fw_Allow_def Let_def fw_inv_def)
  show ?thesis
  proof (cases "fw_count ?s < L")
    case True
    show ?thesis
      unfolding A if_P [OF True] using fw_inv_grant [OF inv' True]
      by (intro exI [of _ True] exI [of _ "?s\<lparr>fw_count := fw_count ?s + 1\<rparr>"]) (simp only: if_True simp_thms)
  next
    case False
    show ?thesis
      unfolding A if_not_P [OF False] using inv' by (intro exI [of _ False] exI [of _ ?s]) (simp only: if_False simp_thms)
  qed
qed

interpretation fw: rate_limiter fw_Allow "fw_inv L W" "\<lambda>_. True" "fw_bounded L W" for L W
  by unfold_locales (rule fw_Allow_inv, auto simp: fw_inv_def)

lemma NewFixedWindow_inv:
  "0 \<le> L \<Longrightarrow> 0 < W \<Longrightarrow> in_i64 W \<Longrightarrow> fw_inv L W now [] (NewFixedWindow now L W)"
  by (auto simp: fw_inv_def NewFixedWindow_def fw_bounded_def)

section \<open>The sliding window keeps the contract\<close>

definition sw_bounded :: "int \<Rightarrow> duration \<Rightarrow> time list \<Rightarrow> bool" where
  "sw_bounded L W gs \<longleftrightarrow> (\<forall>a. int (between a (a + W) gs) \<le> L)"

definition sw_inv :: "int \<Rightarrow> duration \<Rightarrow> time \<Rightarrow> time list \<Rightarrow> sliding_window \<Rightarrow> bool" where
  "sw_inv L W now gs s \<longleftrightarrow>
     sw_limit s = L \<and> sw_windowSize s = W \<and> 0 \<le> L \<and> 0 \<le> W \<and> in_i64 W \<and> sorted gs \<and>
     (\<forall>g \<in> set gs. g \<le> now) \<and> sw_bounded L W gs \<and>
     (\<exists>c. c \<le> now - W \<and> sw_timestamps s = filter (\<lambda>g. c \<le> g) gs)"

text \<open>The log after eviction holds the grants of the last \<open>W\<close>, both ends included.\<close>

lemma evict_log:
  assumes "sorted gs" and "\<forall>g \<in> set gs. g \<le> t" and "c \<le> t - W"
  shows "evict (t - W) (filter (\<lambda>g. c \<le> g) gs) = filter (\<lambda>g. t - W \<le> g) gs"
    and "length (filter (\<lambda>g. t - W \<le> g) gs) = between (t - W) t gs"
proof -
  have "evict (t - W) (filter (\<lambda>g. c \<le> g) gs) = filter (\<lambda>g. t - W \<le> g) (filter (\<lambda>g. c \<le> g) gs)"
    using sorted_filter [of "\<lambda>x. x" gs "\<lambda>g. c \<le> g"] assms(1) by (intro evict_sorted) simp
  also have "\<dots> = filter (\<lambda>g. t - W \<le> g) gs"
    unfolding filter_filter using assms(3) by (intro filter_cong) auto
  finally show "evict (t - W) (filter (\<lambda>g. c \<le> g) gs) = filter (\<lambda>g. t - W \<le> g) gs" .
  show "length (filter (\<lambda>g. t - W \<le> g) gs) = between (t - W) t gs"
    unfolding between_def using assms(2) by (intro arg_cong [of _ _ length] filter_cong) auto
qed

lemma sw_bounded_snoc:
  assumes "sw_bounded L W gs" and "\<forall>g \<in> set gs. g \<le> t" and "int (between (t - W) t gs) < L"
  shows "sw_bounded L W (gs @ [t])"
  unfolding sw_bounded_def
proof
  fix a
  show "int (between a (a + W) (gs @ [t])) \<le> L"
  proof (cases "a \<le> t \<and> t \<le> a + W")
    case True
    then have "between a (a + W) gs \<le> between (t - W) t gs"
      using assms(2) by (intro between_mono) auto
    with True assms(3) show ?thesis by simp
  next
    case False
    with assms(1) show ?thesis by (auto simp: sw_bounded_def)
  qed
qed

lemma sw_Allow_grants:
  assumes inv: "sw_inv L W now gs s" and t: "now \<le> t"
  shows "\<exists>s'. sw_Allow t s = Some (int (between (t - W) t gs) < L, s') \<and>
    sw_inv L W t (if int (between (t - W) t gs) < L then gs @ [t] else gs) s'"
proof -
  obtain c where c: "c \<le> now - W" "sw_timestamps s = filter (\<lambda>g. c \<le> g) gs"
    using inv by (auto simp: sw_inv_def)
  have srt: "sorted gs" "\<forall>g \<in> set gs. g \<le> t" and ct: "c \<le> t - W" and W: "in_i64 (- W)"
    using inv t c by (auto simp: sw_inv_def in_i64_def)
  let ?s = "s\<lparr>sw_timestamps := filter (\<lambda>g. t - W \<le> g) gs\<rparr>"
  have ev: "evict (time_add t (i64 (- sw_windowSize s))) (sw_timestamps s) = filter (\<lambda>g. t - W \<le> g) gs"
    using evict_log(1) [OF srt ct] c(2) inv W by (simp add: sw_inv_def time_add_def)
  have lim: "sw_limit s = L" using inv by (simp add: sw_inv_def)
  have A: "sw_Allow t s = Some (if int (between (t - W) t gs) < L then (True, ?s\<lparr>sw_timestamps := filter (\<lambda>g. t - W \<le> g) gs @ [t]\<rparr>) else (False, ?s))"
    using evict_log(2) [OF srt ct] by (simp add: sw_Allow_def Let_def ev lim)
  have "sw_inv L W t gs ?s" using inv srt by (auto simp: sw_inv_def)
  moreover have "sw_inv L W t (gs @ [t]) (?s\<lparr>sw_timestamps := filter (\<lambda>g. t - W \<le> g) gs @ [t]\<rparr>)"
    if "int (between (t - W) t gs) < L"
    using that inv srt sw_bounded_snoc [of L W gs t]
    by (auto simp: sw_inv_def sorted_append intro!: exI [of _ "t - W"])
  ultimately show ?thesis by (auto simp: A)
qed

lemma sw_Allow_inv:
  "sw_inv L W now gs s \<Longrightarrow> now \<le> t \<Longrightarrow>
   \<exists>ok s'. sw_Allow t s = Some (ok, s') \<and> sw_inv L W t (if ok then gs @ [t] else gs) s'"
  using sw_Allow_grants by blast

interpretation sw: rate_limiter sw_Allow "sw_inv L W" "\<lambda>_. True" "sw_bounded L W" for L W
  by unfold_locales (rule sw_Allow_inv, auto simp: sw_inv_def)

lemma NewSlidingWindow_inv:
  "0 \<le> L \<Longrightarrow> 0 \<le> W \<Longrightarrow> in_i64 W \<Longrightarrow> sw_inv L W now [] (NewSlidingWindow L W)"
  by (auto simp: sw_inv_def NewSlidingWindow_def sw_bounded_def)

text \<open>What the log decides, without a log: grant when fewer than \<open>L\<close> grants lie in the window.\<close>

fun sliding_grants :: "int \<Rightarrow> duration \<Rightarrow> time list \<Rightarrow> time list \<Rightarrow> time list" where
  "sliding_grants L W gs [] = []"
| "sliding_grants L W gs (t # ts) =
     (if int (between (t - W) t gs) < L then t # sliding_grants L W (gs @ [t]) ts
      else sliding_grants L W gs ts)"

lemma serve_sliding:
  "sw_inv L W now gs s \<Longrightarrow> sorted (now # ts) \<Longrightarrow>
   \<exists>s'. serve sw_Allow ts s = Some (sliding_grants L W gs ts, s') \<and>
     sw_inv L W (last (now # ts)) (gs @ sliding_grants L W gs ts) s'"
proof (induction ts arbitrary: now gs s)
  case (Cons t ts)
  let ?ok = "int (between (t - W) t gs) < L"
  from Cons.prems obtain s1 where s1: "sw_Allow t s = Some (?ok, s1)"
    "sw_inv L W t (if ?ok then gs @ [t] else gs) s1"
    using sw_Allow_grants [of L W now gs s t] by auto
  from Cons.IH [OF s1(2)] Cons.prems(2) s1(1) show ?case by (cases ?ok) auto
qed simp

section \<open>The token bucket keeps the contract\<close>

definition tb_bounded :: "int \<Rightarrow> int \<Rightarrow> duration \<Rightarrow> time list \<Rightarrow> bool" where
  "tb_bounded C R I gs \<longleftrightarrow> (\<forall>a b. a \<le> b \<longrightarrow> int (between a b gs) \<le> C + R * ((b - a) div I + 1))"

text \<open>
  The bucket has been refilled up to the \<open>k\<close>-th tick after its creation at \<open>t0\<close>; the tokens left
  and the grants since any moment \<open>a\<close> together stay below the capacity and the refills since \<open>a\<close>.
\<close>

definition ticks :: "time \<Rightarrow> duration \<Rightarrow> time \<Rightarrow> int" where
  "ticks t0 I t = (t - t0) div I"

definition tb_inv :: "time \<Rightarrow> int \<Rightarrow> int \<Rightarrow> duration \<Rightarrow> time \<Rightarrow> time list \<Rightarrow> token_bucket \<Rightarrow> bool" where
  "tb_inv t0 C R I now gs s \<longleftrightarrow>
     tb_capacity s = C \<and> tb_refillRate s = R \<and> tb_refillInterval s = I \<and>
     0 \<le> C \<and> 0 \<le> R \<and> 0 < I \<and> in_i64 C \<and> in_i64 (tb_tokens s) \<and>
     t0 \<le> now \<and> tb_lastRefill s = t0 + ticks t0 I now * I \<and> (\<forall>g \<in> set gs. g \<le> now) \<and>
     tb_tokens s \<le> C \<and>
     (\<forall>a \<le> now. int (between a now gs) + tb_tokens s \<le> C + R * (ticks t0 I now - ticks t0 I a)) \<and>
     tb_bounded C R I gs"

lemma i64_le: "- (2 ^ 63) \<le> x \<Longrightarrow> i64 x \<le> x"
proof -
  assume "- (2 ^ 63) \<le> x"
  then have "(x + 2 ^ 63) mod 2 ^ 64 \<le> x + 2 ^ 63" by (intro zmod_le_nonneg_dividend) simp
  then show ?thesis by (simp add: i64_def)
qed

lemma ticks_mono: "0 < I \<Longrightarrow> a \<le> b \<Longrightarrow> ticks t0 I a \<le> ticks t0 I b"
  by (simp add: ticks_def zdiv_mono1)

lemma div_times_le: "0 < b \<Longrightarrow> a div b * b \<le> (a :: int)"
  using div_mult_mod_eq [of a b] pos_mod_sign [of b a] by linarith

lemma ticks_below: "0 < I \<Longrightarrow> ticks t0 I t * I \<le> t - t0"
  by (simp add: ticks_def div_times_le)

lemma ticks_diff:
  assumes "0 < I"
  shows "ticks t0 I b - ticks t0 I a \<le> (b - a) div I + 1"
proof -
  let ?x = "a - t0" and ?y = "b - a"
  have "?x mod I < I" and "?y mod I < I" using assms by simp_all
  then have "(?x mod I + ?y mod I) div I * I < 2 * I"
    using div_times_le [OF assms, of "?x mod I + ?y mod I"] by linarith
  then have "(?x mod I + ?y mod I) div I < 2" using assms mult_less_cancel_right_pos by blast
  moreover have "(?x + ?y) div I = ?x div I + ?y div I + (?x mod I + ?y mod I) div I" by (rule div_add1_eq)
  ultimately show ?thesis by (simp add: ticks_def)
qed

lemma ticks_advance:
  assumes "0 < I"
  shows "(t - (t0 + k * I)) div I = ticks t0 I t - k"
proof -
  have "(t - (t0 + k * I)) div I = ((t - t0) + (- k) * I) div I" by (simp add: algebra_simps)
  also have "\<dots> = - k + (t - t0) div I" using assms by (intro div_mult_self1) simp
  finally show ?thesis by (simp add: ticks_def)
qed

lemma tb_bounded_snoc:
  assumes "tb_bounded C R I gs" and "\<And>a b. a \<le> t \<Longrightarrow> t \<le> b \<Longrightarrow> int (between a b gs) + 1 \<le> C + R * ((b - a) div I + 1)"
  shows "tb_bounded C R I (gs @ [t])"
  unfolding tb_bounded_def
proof (intro allI impI)
  fix a b :: time assume "a \<le> b"
  then show "int (between a b (gs @ [t])) \<le> C + R * ((b - a) div I + 1)"
    using assms(1) assms(2) [of a b] by (auto simp: tb_bounded_def)
qed

text \<open>What \<open>refill\<close> does to the fields: it brings the bucket to the last tick, capped and possibly wrapped.\<close>

lemma refill_tick:
  assumes inv: "tb_inv t0 C R I now gs s" and t: "now \<le> t" "t - t0 < 2 ^ 63"
  shows "\<exists>s'. refill t s = Some s' \<and> tb_capacity s' = C \<and> tb_refillRate s' = R \<and> tb_refillInterval s' = I \<and>
    tb_lastRefill s' = t0 + ticks t0 I t * I \<and> in_i64 (tb_tokens s') \<and> tb_tokens s' \<le> C \<and>
    tb_tokens s' \<le> tb_tokens s + R * (ticks t0 I t - ticks t0 I now)"
proof -
  let ?n = "ticks t0 I t - ticks t0 I now"
  have I: "0 < I" and R: "0 \<le> R" and C: "in_i64 C" "tb_tokens s \<le> C" "in_i64 (tb_tokens s)"
    and f: "tb_capacity s = C" "tb_refillRate s = R" "tb_refillInterval s = I" "t0 \<le> now"
    "tb_lastRefill s = t0 + ticks t0 I now * I"
    using inv by (auto simp: tb_inv_def)
  have n0: "0 \<le> ?n" using ticks_mono [OF I t(1), of t0] by simp
  have low: "ticks t0 I now * I \<le> now - t0" using ticks_below [OF I] .
  have k0: "0 \<le> ticks t0 I now" using f(4) I by (simp add: ticks_def pos_imp_zdiv_nonneg_iff)
  have e: "0 \<le> t - tb_lastRefill s" "t - tb_lastRefill s < 2 ^ 63"
    using low t f(4) mult_nonneg_nonneg [OF k0 order_less_imp_le [OF I]] unfolding f(5) by linarith+
  then have el: "time_sub t (tb_lastRefill s) = t - tb_lastRefill s" by (simp add: time_sub_def sat_dur_def)
  have d: "(t - tb_lastRefill s) sdiv I = ?n"
    using sdiv_pos [OF e(1) I] ticks_advance [OF I, of t t0 "ticks t0 I now"] f(5) by simp
  have nI: "?n * I \<le> t - tb_lastRefill s"
    using ticks_below [OF I, of t0 t] f(5) by (simp add: algebra_simps)
  have "?n * 1 \<le> ?n * I" using n0 I by (intro mult_left_mono) simp_all
  with nI n0 e have "in_i64 ?n" and "in_i64 (?n * I)" by (auto simp: in_i64_def)
  note A = el d this
  have X: "- (2 ^ 63) \<le> tb_tokens s + ?n * R" using C(3) n0 R by (simp add: in_i64_def add_increasing2)
  let ?s = "s\<lparr>tb_tokens := pkg_min C (i64 (tb_tokens s + i64 (?n * R))), tb_lastRefill := tb_lastRefill s + ?n * I\<rparr>"
  have ref: "refill t s = Some (if 0 < ?n then ?s else s)"
    using A I f by (simp add: refill_def Let_def time_add_def)
  show ?thesis
  proof (cases "0 < ?n")
    case True
    have "tb_tokens ?s \<le> tb_tokens s + R * ?n"
      using i64_le [OF X] by (simp add: pkg_min_def mult.commute)
    moreover have "in_i64 (tb_tokens ?s)" using C(1) by (simp add: pkg_min_def)
    moreover have "tb_tokens ?s \<le> C" by (simp add: pkg_min_def)
    moreover have "tb_lastRefill ?s = t0 + ticks t0 I t * I" using f(5) by (simp add: algebra_simps)
    ultimately show ?thesis using ref f True by (intro exI [of _ ?s]) simp
  next
    case False
    then have "ticks t0 I t = ticks t0 I now" using n0 by simp
    then show ?thesis using ref f C False by (intro exI [of _ s]) simp
  qed
qed

lemma tb_inv_tick:
  assumes inv: "tb_inv t0 C R I now gs s" and t: "now \<le> t" "t - t0 < 2 ^ 63"
  shows "\<exists>s'. refill t s = Some s' \<and> tb_inv t0 C R I t gs s'"
proof -
  obtain s' where s': "refill t s = Some s'" "tb_capacity s' = C" "tb_refillRate s' = R" "tb_refillInterval s' = I"
    "tb_lastRefill s' = t0 + ticks t0 I t * I" "in_i64 (tb_tokens s')" "tb_tokens s' \<le> C"
    "tb_tokens s' \<le> tb_tokens s + R * (ticks t0 I t - ticks t0 I now)"
    using refill_tick [OF assms] by blast
  have I: "0 < I" and R: "0 \<le> R" using inv by (auto simp: tb_inv_def)
  have pot: "int (between a t gs) + tb_tokens s' \<le> C + R * (ticks t0 I t - ticks t0 I a)" if "a \<le> t" for a
  proof (cases "a \<le> now")
    case True
    have "between a t gs = between a now gs"
      using inv t by (intro antisym between_mono) (auto simp: tb_inv_def)
    moreover have "int (between a now gs) + tb_tokens s \<le> C + R * (ticks t0 I now - ticks t0 I a)"
      using inv True by (simp add: tb_inv_def)
    ultimately show ?thesis using s'(8) by (simp add: algebra_simps)
  next
    case False
    have "between a t gs = 0" using inv False by (intro between_zero) (auto simp: tb_inv_def)
    moreover have "0 \<le> R * (ticks t0 I t - ticks t0 I a)"
      using R ticks_mono [OF I that, of t0] by (intro mult_nonneg_nonneg) simp_all
    ultimately show ?thesis using s'(7) by simp
  qed
  then have "tb_inv t0 C R I t gs s'" using inv t s' by (auto simp: tb_inv_def)
  with s'(1) show ?thesis by blast
qed

lemma tb_inv_grant:
  assumes inv: "tb_inv t0 C R I t gs s" and pos: "0 < tb_tokens s"
  shows "tb_inv t0 C R I t (gs @ [t]) (s\<lparr>tb_tokens := tb_tokens s - 1\<rparr>)"
proof -
  have I: "0 < I" and R: "0 \<le> R" using inv by (auto simp: tb_inv_def)
  have "tb_bounded C R I (gs @ [t])"
  proof (rule tb_bounded_snoc)
    show "tb_bounded C R I gs" using inv by (simp add: tb_inv_def)
    fix a b assume ab: "a \<le> t" "t \<le> b"
    have "between a b gs = between a t gs"
      using inv ab by (intro antisym between_mono) (auto simp: tb_inv_def)
    moreover have "int (between a t gs) + tb_tokens s \<le> C + R * (ticks t0 I t - ticks t0 I a)"
      using inv ab by (simp add: tb_inv_def)
    moreover have "ticks t0 I t - ticks t0 I a \<le> (b - a) div I + 1"
      using ticks_diff [OF I, of t0 b a] ticks_mono [OF I ab(2), of t0] by simp
    then have "R * (ticks t0 I t - ticks t0 I a) \<le> R * ((b - a) div I + 1)" using R by (rule mult_left_mono)
    ultimately show "int (between a b gs) + 1 \<le> C + R * ((b - a) div I + 1)" using pos by simp
  qed
  then show ?thesis using inv pos by (auto simp: tb_inv_def in_i64_def)
qed

lemma tb_Allow_inv:
  assumes inv: "tb_inv t0 C R I now gs s" and t: "now \<le> t" "t - t0 < 2 ^ 63"
  shows "\<exists>ok s'. tb_Allow t s = Some (ok, s') \<and> tb_inv t0 C R I t (if ok then gs @ [t] else gs) s'"
proof -
  obtain s1 where s1: "refill t s = Some s1" "tb_inv t0 C R I t gs s1" using tb_inv_tick [OF assms] by blast
  show ?thesis
  proof (cases "0 < tb_tokens s1")
    case True
    with s1 tb_inv_grant [OF s1(2) True] show ?thesis
      by (intro exI [of _ True] exI [of _ "s1\<lparr>tb_tokens := tb_tokens s1 - 1\<rparr>"]) (simp add: tb_Allow_def)
  next
    case False
    with s1 show ?thesis by (intro exI [of _ False] exI [of _ s1]) (simp add: tb_Allow_def)
  qed
qed

interpretation tb: rate_limiter tb_Allow "tb_inv t0 C R I" "\<lambda>t. t - t0 < 2 ^ 63" "tb_bounded C R I" for t0 C R I
  by unfold_locales (rule tb_Allow_inv, auto simp: tb_inv_def)

lemma NewTokenBucket_inv:
  assumes "0 \<le> C" "0 \<le> R" "0 < I" "in_i64 C"
  shows "tb_inv t0 C R I t0 [] (NewTokenBucket t0 C R I)"
proof -
  have "0 \<le> R * (0 - ticks t0 I a)" if "a \<le> t0" for a
    using that assms ticks_mono [OF assms(3) that, of t0]
    by (intro mult_nonneg_nonneg) (simp_all add: ticks_def)
  moreover have "ticks t0 I t0 = 0" by (simp add: ticks_def)
  moreover have "tb_bounded C R I []"
    using assms by (auto simp: tb_bounded_def pos_imp_zdiv_nonneg_iff)
  ultimately show ?thesis using assms by (simp add: tb_inv_def NewTokenBucket_def)
qed

end
