(* ===== verification/LimiterProperties.thy ===== *)
theory LimiterProperties
  imports RateLimiters
begin

text \<open>The properties of the limiters of \<open>pkg/rate_limiter.go\<close>.\<close>

text \<open>C17. A token bucket never grants, in any interval from \<open>a\<close> to \<open>b\<close>, more than its capacity plus the
  refills of the ticks the interval can contain, whatever the requests are and although the refill
  arithmetic may wrap around; and no request panics.\<close>

theorem token_bucket_bound:
  assumes "0 \<le> capacity" "0 \<le> refillRate" "0 < refillInterval" "in_i64 capacity"
    and "sorted (t0 # ts)" and "list_all (\<lambda>t. t - t0 < 2 ^ 63) ts"
  shows "\<exists>grants s. serve tb_Allow ts (NewTokenBucket t0 capacity refillRate refillInterval) = Some (grants, s) \<and>
    (\<forall>a (d :: nat). int (between a (a + int d) grants) \<le> capacity + refillRate * (int d div refillInterval + 1))"
proof -
  obtain grants s where run: "serve tb_Allow ts (NewTokenBucket t0 capacity refillRate refillInterval) = Some (grants, s)"
    and b: "tb_bounded capacity refillRate refillInterval grants"
    using tb.serve_bounded [OF NewTokenBucket_inv [OF assms(1-4)] assms(5,6)] by blast
  have "int (between a (a + int d) grants) \<le> capacity + refillRate * (int d div refillInterval + 1)" for a and d :: nat
    using b [unfolded tb_bounded_def, rule_format, of a "a + int d"] by simp
  with run show ?thesis by blast
qed

theorem token_bucket_bound_witness:
  "\<exists>grants s. serve tb_Allow [1, 1, 1, 5, 12] (NewTokenBucket 0 2 1 10) = Some (grants, s) \<and>
    int (between 1 5 grants) \<le> 3"
proof -
  have "\<exists>grants s. serve tb_Allow [1, 1, 1, 5, 12] (NewTokenBucket 0 2 1 10) = Some (grants, s) \<and>
    (\<forall>a (d :: nat). int (between a (a + int d) grants) \<le> 2 + 1 * (int d div 10 + 1))"
    by (rule token_bucket_bound) (simp_all add: in_i64_def)
  then obtain grants s where "serve tb_Allow [1, 1, 1, 5, 12] (NewTokenBucket 0 2 1 10) = Some (grants, s)"
    and "int (between 1 (1 + int 4) grants) \<le> 2 + 1 * (int 4 div 10 + 1)" by blast
  then show ?thesis by auto
qed

text \<open>C18. The sliding window grants a request exactly when fewer than \<open>limit\<close> requests were granted in
  the \<open>windowSize\<close> up to it, so no closed interval of that length holds more than \<open>limit\<close> grants;
  the demo's counters add up to these grants and the refusals.\<close>

theorem sliding_window_exact:
  assumes "0 \<le> limit" "0 \<le> windowSize" "in_i64 windowSize" and "sorted ts"
  shows "\<exists>s. serve sw_Allow ts (NewSlidingWindow limit windowSize) = Some (sliding_grants limit windowSize [] ts, s) \<and>
    simulateLimiter sw_Allow ts (NewSlidingWindow limit windowSize) =
      Some ((int (length (sliding_grants limit windowSize [] ts)),
             int (length ts) - int (length (sliding_grants limit windowSize [] ts))), s) \<and>
    (\<forall>a. int (between a (a + windowSize) (sliding_grants limit windowSize [] ts)) \<le> limit)"
proof -
  let ?now = "case ts of [] \<Rightarrow> 0 | t # _ \<Rightarrow> t"
  have "sorted (?now # ts)" using assms(4) by (cases ts) auto
  from serve_sliding [OF NewSlidingWindow_inv [OF assms(1-3)] this]
  obtain s where s: "serve sw_Allow ts (NewSlidingWindow limit windowSize) = Some (sliding_grants limit windowSize [] ts, s)"
    and "sw_inv limit windowSize (last (?now # ts)) ([] @ sliding_grants limit windowSize [] ts) s" by blast
  moreover from this(2) have "sw_bounded limit windowSize (sliding_grants limit windowSize [] ts)"
    by (simp add: sw_inv_def)
  ultimately show ?thesis
    using simulate_loop_serve [OF s, of 0 0] by (simp add: simulateLimiter_def sw_bounded_def)
qed

theorem sliding_window_exact_witness:
  "\<exists>s. serve sw_Allow [0, 1, 2, 11, 12] (NewSlidingWindow 2 10) = Some ([0, 1, 11, 12], s)"
  using sliding_window_exact [of 2 10 "[0, 1, 2, 11, 12]"] by (auto simp: in_i64_def between_def)

text \<open>C19. The fixed window lets through at most twice the limit in any half-open interval of the
  window's length, and the factor two is attained: a burst at the end of one window and one at the
  start of the next, a tenth of a window apart.\<close>

theorem fixed_window_bound:
  assumes "0 \<le> limit" "0 < windowSize" "in_i64 windowSize" and "sorted (t0 # ts)"
  shows "(\<exists>grants s. serve fw_Allow ts (NewFixedWindow t0 limit windowSize) = Some (grants, s) \<and>
      (\<forall>a. int (between a (a + windowSize - 1) grants) \<le> 2 * limit)) \<and>
    (\<exists>grants s. serve fw_Allow [9, 9, 9, 10, 10, 10] (NewFixedWindow 0 3 10) = Some (grants, s) \<and>
      int (between 9 10 grants) = 2 * 3)"
proof
  show "\<exists>grants s. serve fw_Allow ts (NewFixedWindow t0 limit windowSize) = Some (grants, s) \<and>
      (\<forall>a. int (between a (a + windowSize - 1) grants) \<le> 2 * limit)"
    using fw.serve_bounded [OF NewFixedWindow_inv [OF assms(1-3)] assms(4)]
    by (auto simp: fw_bounded_def list_all_iff)
  show "\<exists>grants s. serve fw_Allow [9, 9, 9, 10, 10, 10] (NewFixedWindow 0 3 10) = Some (grants, s) \<and>
      int (between 9 10 grants) = 2 * 3"
    by (simp add: fw_Allow_def NewFixedWindow_def time_sub_def sat_dur_def between_def Let_def)
qed

theorem fixed_window_bound_witness:
  "\<exists>grants s. serve fw_Allow [0, 1, 2, 3] (NewFixedWindow 0 2 10) = Some (grants, s) \<and>
      int (between 0 9 grants) \<le> 4"
proof -
  have "\<exists>grants s. serve fw_Allow [0, 1, 2, 3] (NewFixedWindow 0 2 10) = Some (grants, s) \<and>
      (\<forall>a. int (between a (a + 10 - 1) grants) \<le> 2 * 2)"
    using fixed_window_bound [of 2 10 0 "[0, 1, 2, 3]"] by (simp add: in_i64_def del: serve.simps)
  then obtain grants s where "serve fw_Allow [0, 1, 2, 3] (NewFixedWindow 0 2 10) = Some (grants, s)"
    and "int (between 0 (0 + 10 - 1) grants) \<le> 2 * 2" by blast
  then show ?thesis by auto
qed

end
