(* ===== verification/GatewayBase.thy ===== *)
theory GatewayBase
  imports GoPrelude
begin

text \<open>
  What the parts of \<open>system-design/api-gateway\<close> share: the request context and its keys
  (\<open>gateway.go\<close>), the pieces of \<open>net/http\<close> the gateway touches (requests, headers, the response
  writer with the \<open>statusRecorder\<close> wrappers of \<open>observability.go\<close>), the state the middlewares
  mutate, \<open>writeError\<close>, and the chaining of middlewares by \<open>Build\<close>.

  A handler is a function of the request, of the state (\<open>world\<close>) and of the response so far.
  Whatever a handler reads from outside the program (the clock, random bytes, the tenant and
  policy stores, which others may change meanwhile) is read at a moment, the \<open>g_tick\<close> of the
  world, and every such reading advances it; so no two readings are taken to agree.
\<close>

section \<open>Strings\<close>

definition go_HasPrefix :: "string \<Rightarrow> string \<Rightarrow> bool" where
  "go_HasPrefix s p \<longleftrightarrow> take (length p) s = p"

definition go_TrimPrefix :: "string \<Rightarrow> string \<Rightarrow> string" where
  "go_TrimPrefix s p = (if go_HasPrefix s p then drop (length p) s else s)"

text \<open>\<open>strings.Split\<close> and \<open>strings.SplitN(_, _, 2)\<close> for a separator of one byte.\<close>

fun go_Split :: "string \<Rightarrow> char \<Rightarrow> string list" where
  "go_Split [] sep = [[]]"
| "go_Split (c # cs) sep =
     (if c = sep then [] # go_Split cs sep
      else (case go_Split cs sep of [] \<Rightarrow> [[c]] | p # ps \<Rightarrow> (c # p) # ps))"

definition go_SplitN2 :: "string \<Rightarrow> char \<Rightarrow> string list" where
  "go_SplitN2 s sep =
     (if sep \<in> set s then [takeWhile (\<lambda>c. c \<noteq> sep) s, tl (dropWhile (\<lambda>c. c \<noteq> sep) s)] else [s])"

section \<open>Clock readings\<close>

text \<open>The zero time is the start of the year 1; the Unix epoch is this many seconds later.\<close>

definition unix_epoch :: int where
  "unix_epoch = 62135596800"

definition time_Unix :: "time \<Rightarrow> int" where
  "time_Unix t = t div second - unix_epoch"

definition time_UnixMilli :: "time \<Rightarrow> int" where
  "time_UnixMilli t = t div 1000000 - unix_epoch * 1000"

definition duration_Milliseconds :: "duration \<Rightarrow> int" where
  "duration_Milliseconds d = d sdiv 1000000"

section \<open>Claims and context\<close>

record claims =
  cl_Subject :: string
  cl_TenantID :: string
  cl_Roles :: "string list"
  cl_Expiry :: int
  cl_Issuer :: string
  cl_Audience :: string

datatype ctxKey = ctxTenantID | ctxUserID | ctxTraceID | ctxClaims

datatype ctx_value = CString string | CClaims claims

type_synonym ctxt = "ctxKey \<Rightarrow> ctx_value option"

definition ctx_string :: "ctxKey \<Rightarrow> ctxt \<Rightarrow> string" where
  "ctx_string k ctx = (case ctx k of Some (CString v) \<Rightarrow> v | _ \<Rightarrow> [])"

definition TenantFromCtx :: "ctxt \<Rightarrow> string" where
  "TenantFromCtx ctx = ctx_string ctxTenantID ctx"

definition UserFromCtx :: "ctxt \<Rightarrow> string" where
  "UserFromCtx ctx = ctx_string ctxUserID ctx"

definition TraceFromCtx :: "ctxt \<Rightarrow> string" where
  "TraceFromCtx ctx = ctx_string ctxTraceID ctx"

definition ClaimsFromCtx :: "ctxt \<Rightarrow> claims option" where
  "ClaimsFromCtx ctx = (case ctx ctxClaims of Some (CClaims c) \<Rightarrow> Some c | _ \<Rightarrow> None)"

section \<open>Requests and responses\<close>

text \<open>\<open>CanonicalHeaderKey\<close> on names made of letters, digits and hyphens.\<close>

definition go_upper :: "char \<Rightarrow> char" where
  "go_upper c = (let n = of_char c :: nat in if 97 \<le> n \<and> n \<le> 122 then char_of (n - 32) else c)"

definition go_lower :: "char \<Rightarrow> char" where
  "go_lower c = (let n = of_char c :: nat in if 65 \<le> n \<and> n \<le> 90 then char_of (n + 32) else c)"

fun canonical_key :: "bool \<Rightarrow> string \<Rightarrow> string" where
  "canonical_key up [] = []"
| "canonical_key up (c # cs) = (if up then go_upper c else go_lower c) # canonical_key (c = CHR ''-'') cs"

type_synonym header = "string \<Rightarrow> string list option"

definition header_Get :: "header \<Rightarrow> string \<Rightarrow> string" where
  "header_Get h k = (case h (canonical_key True k) of Some (v # _) \<Rightarrow> v | _ \<Rightarrow> [])"

definition header_Set :: "string \<Rightarrow> string \<Rightarrow> header \<Rightarrow> header" where
  "header_Set k v h = h(canonical_key True k \<mapsto> [v])"

record request =
  rq_Method :: string
  rq_Path :: string
  rq_Header :: header
  rq_RemoteAddr :: string
  rq_ctx :: ctxt

text \<open>\<open>rs_recorders\<close> are the \<open>status\<close> fields of the \<open>statusRecorder\<close>s around the writer, the
  outermost first; \<open>rs_status\<close> is what the server has sent, if anything.\<close>

record response =
  rs_Header :: header
  rs_status :: "int option"
  rs_body :: string
  rs_recorders :: "int list"

definition set_header :: "string \<Rightarrow> string \<Rightarrow> response \<Rightarrow> response" where
  "set_header k v w = w\<lparr>rs_Header := header_Set k v (rs_Header w)\<rparr>"

definition WriteHeader :: "int \<Rightarrow> response \<Rightarrow> response" where
  "WriteHeader code w =
     w\<lparr>rs_recorders := map (\<lambda>_. code) (rs_recorders w),
       rs_status := (case rs_status w of None \<Rightarrow> Some code | Some s \<Rightarrow> Some s)\<rparr>"

definition Write :: "string \<Rightarrow> response \<Rightarrow> response" where
  "Write s w =
     w\<lparr>rs_status := (case rs_status w of None \<Rightarrow> Some 200 | Some st \<Rightarrow> Some st), rs_body := rs_body w @ s\<rparr>"

text \<open>\<open>http.Error\<close>.\<close>

definition http_Error :: "string \<Rightarrow> int \<Rightarrow> response \<Rightarrow> response" where
  "http_Error msg code w =
     Write (msg @ [CHR 0x0A])
       (WriteHeader code
         (set_header ''X-Content-Type-Options'' ''nosniff''
           (set_header ''Content-Type'' ''text/plain; charset=utf-8'' w)))"

section \<open>The state of the gateway\<close>

record request_metrics =
  rm_Total :: int
  rm_Errors :: int
  rm_ClientErr :: int
  rm_latency :: "int list"

record log_entry =
  lg_trace_id :: string
  lg_tenant_id :: string
  lg_user_id :: string
  lg_method :: string
  lg_path :: string
  lg_status :: int
  lg_latency_ms :: int
  lg_user_agent :: string
  lg_remote_ip :: string

text \<open>The rings of the limiter, the metrics registry, the log, the moment of the next outside
  reading, and the requests the upstream has received.\<close>

record world =
  g_buckets :: "string \<Rightarrow> time list option"
  g_metrics :: "string \<Rightarrow> request_metrics option"
  g_log :: "log_entry list"
  g_tick :: nat
  g_forwarded :: "request list"

type_synonym handler = "request \<Rightarrow> world \<times> response \<Rightarrow> world \<times> response"
type_synonym middleware = "handler \<Rightarrow> handler"

definition sense :: "(nat \<Rightarrow> 'a) \<Rightarrow> world \<Rightarrow> 'a \<times> world" where
  "sense f w = (f (g_tick w), w\<lparr>g_tick := Suc (g_tick w)\<rparr>)"

definition dquote :: string where
  "dquote = [CHR 0x22]"

definition error_body :: "string \<Rightarrow> string \<Rightarrow> int \<Rightarrow> string" where
  "error_body code msg ts =
     ''{'' @ dquote @ ''error'' @ dquote @ '':{'' @ dquote @ ''code'' @ dquote @ '':'' @ go_quote code @ '','' @
     dquote @ ''message'' @ dquote @ '':'' @ go_quote msg @ ''},'' @ dquote @ ''ts'' @ dquote @ '':'' @ int_dec ts @ ''}''"

definition writeError ::
  "(nat \<Rightarrow> time) \<Rightarrow> int \<Rightarrow> string \<Rightarrow> string \<Rightarrow> world \<times> response \<Rightarrow> world \<times> response" where
  "writeError clock status code msg s =
     (let (w, rs) = s;
          rs = set_header ''Content-Type'' ''application/json'' rs;
          rs = WriteHeader status rs;
          (now, w) = sense clock w
      in (w, Write (error_body code msg (time_UnixMilli now)) rs))"

section \<open>Build\<close>

text \<open>The loop runs from the last middleware to the first; \<open>Suc i\<close> stands for the loop index \<open>i\<close>.\<close>

fun build_loop :: "middleware list \<Rightarrow> handler \<Rightarrow> nat \<Rightarrow> handler" where
  "build_loop mws h 0 = h"
| "build_loop mws h (Suc i) = build_loop mws ((mws ! i) h) i"

definition Build :: "handler \<Rightarrow> middleware list \<Rightarrow> handler" where
  "Build h mws = build_loop mws h (length mws)"

lemma build_loop_take: "n \<le> length mws \<Longrightarrow> build_loop mws h n = foldr (\<lambda>m. m) (take n mws) h"
  by (induction n arbitrary: h) (simp_all add: take_Suc_conv_app_nth)

lemma Build_foldr: "Build h mws = foldr (\<lambda>m. m) mws h"
  by (simp add: Build_def build_loop_take)

lemma Build_Nil [simp]: "Build h [] = h"
  and Build_Cons [simp]: "Build h (m # mws) = m (Build h mws)"
  by (simp_all add: Build_foldr)

section \<open>What these operations leave alone\<close>

lemma sense_fields [simp]:
  "fst (sense f w) = f (g_tick w)" "g_buckets (snd (sense f w)) = g_buckets w"
  "g_metrics (snd (sense f w)) = g_metrics w" "g_log (snd (sense f w)) = g_log w"
  "g_forwarded (snd (sense f w)) = g_forwarded w" "g_tick (snd (sense f w)) = Suc (g_tick w)"
  by (simp_all add: sense_def)

lemma writeError_world [simp]:
  "g_buckets (fst (writeError clock st code msg s)) = g_buckets (fst s)"
  "g_metrics (fst (writeError clock st code msg s)) = g_metrics (fst s)"
  "g_log (fst (writeError clock st code msg s)) = g_log (fst s)"
  "g_forwarded (fst (writeError clock st code msg s)) = g_forwarded (fst s)"
  by (simp_all add: writeError_def sense_def Let_def split: prod.splits)

lemma writeError_status [simp]:
  "rs_status (snd s) = None \<Longrightarrow> rs_status (snd (writeError clock st code msg s)) = Some st"
  by (cases s) (simp add: writeError_def sense_def Let_def WriteHeader_def Write_def set_header_def)

lemma writeError_recorders [simp]:
  "rs_recorders (snd (writeError clock st code msg s)) = map (\<lambda>_. st) (rs_recorders (snd s))"
  by (cases s) (simp add: writeError_def sense_def Let_def WriteHeader_def Write_def set_header_def)

lemma set_header_fields [simp]:
  "rs_status (set_header k v rs) = rs_status rs" "rs_recorders (set_header k v rs) = rs_recorders rs"
  "rs_body (set_header k v rs) = rs_body rs"
  by (simp_all add: set_header_def)

lemma http_Error_fields [simp]:
  "rs_status rs = None \<Longrightarrow> rs_status (http_Error msg st rs) = Some st"
  "rs_recorders (http_Error msg st rs) = map (\<lambda>_. st) (rs_recorders rs)"
  by (simp_all add: http_Error_def WriteHeader_def Write_def)

lemma go_Split_no_sep: "\<forall>p \<in> set (go_Split s sep). sep \<notin> set p"
  by (induction s) (auto split: list.splits)

end
