(* ===== verification/GatewayStores.thy ===== *)
theory GatewayStores
  imports GatewayBase
begin

text \<open>
  The stores of the gateway and their interfaces: tenants (\<open>tenant.go\<close>), API keys (\<open>authn.go\<close>)
  and role policies (\<open>authz.go\<close>).  \<open>TenantStore\<close> and \<open>PolicyStore\<close> are interfaces in the source;
  here each is a locale with the contract the gateway relies on, interpreted on the
  in-memory implementation.  A method that can fail returns \<open>Inl\<close> of the error text.
\<close>

section \<open>Tenants\<close>

type_synonym plan = string

definition PlanFree :: plan where "PlanFree = ''free''"
definition PlanPro :: plan where "PlanPro = ''pro''"
definition PlanEnterprise :: plan where "PlanEnterprise = ''enterprise''"

record tenant =
  t_ID :: string
  t_Slug :: string
  t_Plan :: plan
  t_Enabled :: bool
  t_CreatedAt :: time
  t_RateLimitOverride :: int

definition RateLimit :: "tenant \<Rightarrow> int" where
  "RateLimit t =
     (if t_RateLimitOverride t > 0 then t_RateLimitOverride t
      else if t_Plan t = PlanEnterprise then 10000
      else if t_Plan t = PlanPro then 1000
      else 100)"

type_synonym mem_tenants = "string \<Rightarrow> tenant option"

fun NewMemTenantStore_loop :: "tenant list \<Rightarrow> mem_tenants \<Rightarrow> mem_tenants" where
  "NewMemTenantStore_loop [] m = m"
| "NewMemTenantStore_loop (t # ts) m = NewMemTenantStore_loop ts (m(t_ID t \<mapsto> t))"

definition NewMemTenantStore :: "tenant list \<Rightarrow> mem_tenants" where
  "NewMemTenantStore seeds = NewMemTenantStore_loop seeds (\<lambda>_. None)"

definition tenant_Get :: "mem_tenants \<Rightarrow> string \<Rightarrow> string + tenant" where
  "tenant_Get m tenantID =
     (case m tenantID of
        None \<Rightarrow> Inl ''tenant not found''
      | Some t \<Rightarrow> if \<not> t_Enabled t then Inl ''tenant disabled'' else Inr t)"

definition Upsert :: "tenant \<Rightarrow> mem_tenants \<Rightarrow> mem_tenants" where
  "Upsert t m = m(t_ID t \<mapsto> t)"

text \<open>What the gateway needs of a tenant store: it finds enabled tenants under their own ID, and a
  write to one tenant does not touch another.\<close>

locale tenant_store =
  fixes inv :: "'s \<Rightarrow> bool" and Get :: "'s \<Rightarrow> string \<Rightarrow> string + tenant" and put :: "tenant \<Rightarrow> 's \<Rightarrow> 's"
  assumes Get_ok: "inv s \<Longrightarrow> Get s tid = Inr t \<Longrightarrow> t_ID t = tid \<and> t_Enabled t"
    and put_inv: "inv s \<Longrightarrow> inv (put t s)"
    and Get_put: "inv s \<Longrightarrow> t_Enabled t \<Longrightarrow> Get (put t s) (t_ID t) = Inr t"
    and Get_put_other: "inv s \<Longrightarrow> tid \<noteq> t_ID t \<Longrightarrow> Get (put t s) tid = Get s tid"
    and Get_put_disabled: "inv s \<Longrightarrow> \<not> t_Enabled t \<Longrightarrow> \<exists>e. Get (put t s) (t_ID t) = Inl e"
begin

text \<open>A moment-by-moment view of a store that others keep writing to.\<close>

lemma Get_history:
  assumes "inv (h 0)" and "\<And>n. h (Suc n) = h n \<or> (\<exists>t. h (Suc n) = put t (h n))"
  shows "inv (h n)"
proof (induction n)
  case (Suc n)
  with assms(2) [of n] put_inv show ?case by auto
qed (rule assms(1))

lemma Get_history_ok:
  assumes "inv (h 0)" and "\<And>n. h (Suc n) = h n \<or> (\<exists>t. h (Suc n) = put t (h n))"
    and "Get (h n) tid = Inr t"
  shows "t_ID t = tid \<and> t_Enabled t"
  using Get_ok [OF Get_history [OF assms(1,2)] assms(3)] .

end

definition mem_tenants_inv :: "mem_tenants \<Rightarrow> bool" where
  "mem_tenants_inv m \<longleftrightarrow> (\<forall>tid t. m tid = Some t \<longrightarrow> t_ID t = tid)"

lemma tenant_Get_Inr: "tenant_Get m tid = Inr t \<longleftrightarrow> m tid = Some t \<and> t_Enabled t"
  by (cases "m tid") (auto simp: tenant_Get_def)

lemma mem_tenants_inv_Upsert: "mem_tenants_inv m \<Longrightarrow> mem_tenants_inv (Upsert t m)"
  by (simp add: mem_tenants_inv_def Upsert_def)

interpretation mem_store: tenant_store mem_tenants_inv tenant_Get Upsert
proof unfold_locales
  fix m :: mem_tenants and t :: tenant and tid :: string
  show "mem_tenants_inv (Upsert t m)" if "mem_tenants_inv m" using that by (rule mem_tenants_inv_Upsert)
  show "t_ID t = tid \<and> t_Enabled t" if "mem_tenants_inv m" and "tenant_Get m tid = Inr t"
    using that unfolding tenant_Get_Inr mem_tenants_inv_def by blast
  show "tenant_Get (Upsert t m) (t_ID t) = Inr t" if "t_Enabled t"
    using that by (simp add: tenant_Get_def Upsert_def)
  show "tenant_Get (Upsert t m) tid = tenant_Get m tid" if "tid \<noteq> t_ID t"
    using that by (simp add: tenant_Get_def Upsert_def)
  show "\<exists>e. tenant_Get (Upsert t m) (t_ID t) = Inl e" if "\<not> t_Enabled t"
    using that by (simp add: tenant_Get_def Upsert_def)
qed

lemma NewMemTenantStore_inv: "mem_tenants_inv (NewMemTenantStore seeds)"
proof -
  have "mem_tenants_inv m \<Longrightarrow> mem_tenants_inv (NewMemTenantStore_loop seeds m)" for m
    by (induction seeds arbitrary: m) (simp_all add: mem_tenants_inv_Upsert [unfolded Upsert_def])
  moreover have "mem_tenants_inv (\<lambda>_. None)" by (simp add: mem_tenants_inv_def)
  ultimately show ?thesis unfolding NewMemTenantStore_def .
qed

section \<open>API keys\<close>

record api_key_record =
  ak_TenantID :: string
  ak_UserID :: string
  ak_Roles :: "string list"

type_synonym api_keys = "string \<Rightarrow> api_key_record option"

definition NewAPIKeyStore :: api_keys where
  "NewAPIKeyStore = (\<lambda>_. None)"

text \<open>\<open>hex.EncodeToString\<close> on a list of bytes.\<close>

definition hex_encode :: "nat list \<Rightarrow> string" where
  "hex_encode bs = concat (map (\<lambda>b. [hex_digit (b div 16), hex_digit (b mod 16)]) bs)"

text \<open>\<open>crypto/sha256\<close> is the parameter \<open>sha256\<close>.\<close>

definition hashKey :: "(string \<Rightarrow> nat list) \<Rightarrow> string \<Rightarrow> string" where
  "hashKey sha256 rawKey = hex_encode (sha256 rawKey)"

definition key_Register :: "(string \<Rightarrow> nat list) \<Rightarrow> string \<Rightarrow> api_key_record \<Rightarrow> api_keys \<Rightarrow> api_keys" where
  "key_Register sha256 rawKey rec keys = keys(hashKey sha256 rawKey \<mapsto> rec)"

definition key_Lookup :: "(string \<Rightarrow> nat list) \<Rightarrow> string \<Rightarrow> api_keys \<Rightarrow> api_key_record option" where
  "key_Lookup sha256 rawKey keys = keys (hashKey sha256 rawKey)"

section \<open>Role policies\<close>

type_synonym permission = string

definition PermRead :: permission where "PermRead = ''*:read''"
definition PermWrite :: permission where "PermWrite = ''*:write''"
definition PermDelete :: permission where "PermDelete = ''*:delete''"
definition PermBilling :: permission where "PermBilling = ''billing:admin''"

record role =
  ro_Name :: string
  ro_Permissions :: "permission list"

definition BuiltinRoles :: "string \<Rightarrow> role option" where
  "BuiltinRoles =
     [''viewer'' \<mapsto> \<lparr>ro_Name = ''viewer'', ro_Permissions = [PermRead]\<rparr>,
      ''editor'' \<mapsto> \<lparr>ro_Name = ''editor'', ro_Permissions = [PermRead, PermWrite]\<rparr>,
      ''admin'' \<mapsto> \<lparr>ro_Name = ''admin'', ro_Permissions = [PermRead, PermWrite, PermDelete, PermBilling]\<rparr>]"

type_synonym mem_policies = "string \<Rightarrow> (string \<Rightarrow> role option) option"

definition NewMemPolicyStore :: mem_policies where
  "NewMemPolicyStore = (\<lambda>_. None)"

definition AddRole :: "string \<Rightarrow> role \<Rightarrow> mem_policies \<Rightarrow> mem_policies" where
  "AddRole tenantID role s =
     (let s = (if s tenantID = None then s(tenantID \<mapsto> (\<lambda>_. None)) else s)
      in s(tenantID \<mapsto> (the (s tenantID))(ro_Name role \<mapsto> role)))"

definition RolePermissions :: "mem_policies \<Rightarrow> string \<Rightarrow> string \<Rightarrow> permission list" where
  "RolePermissions s tenantID roleID =
     (let builtin = (case BuiltinRoles roleID of Some r \<Rightarrow> ro_Permissions r | None \<Rightarrow> []) in
      case s tenantID of
        Some tenantRoles \<Rightarrow>
          (case tenantRoles roleID of Some r \<Rightarrow> ro_Permissions r | None \<Rightarrow> builtin)
      | None \<Rightarrow> builtin)"

text \<open>A policy store scopes roles to tenants.\<close>

locale policy_store =
  fixes perms :: "'s \<Rightarrow> string \<Rightarrow> string \<Rightarrow> permission list" and add :: "string \<Rightarrow> role \<Rightarrow> 's \<Rightarrow> 's"
  assumes perms_add: "perms (add tid r s) tid (ro_Name r) = ro_Permissions r"
    and perms_add_other: "tid' \<noteq> tid \<or> rid \<noteq> ro_Name r \<Longrightarrow> perms (add tid r s) tid' rid = perms s tid' rid"
begin

fun add_all :: "(string \<times> role) list \<Rightarrow> 's \<Rightarrow> 's" where
  "add_all [] s = s"
| "add_all ((tid, r) # rs) s = add_all rs (add tid r s)"

lemma add_all_other:
  "tid \<notin> fst ` set rs \<Longrightarrow> perms (add_all rs s) tid rid = perms s tid rid"
  by (induction rs s rule: add_all.induct) (auto simp: perms_add_other)

end

interpretation mem_policy: policy_store RolePermissions AddRole
  by unfold_locales (auto simp: RolePermissions_def AddRole_def Let_def split: option.splits)

section \<open>The permission checker\<close>

definition matchPermission :: "permission \<Rightarrow> permission \<Rightarrow> bool" where
  "matchPermission granted required =
     (if granted = required then True
      else
        let gp = go_SplitN2 granted (CHR '':''); rp = go_SplitN2 required (CHR '':'') in
        if length gp \<noteq> 2 \<or> length rp \<noteq> 2 then False
        else
          let resourceMatch = (gp ! 0 = ''*'' \<or> gp ! 0 = rp ! 0);
              actionMatch = (gp ! 1 = ''*'' \<or> gp ! 1 = rp ! 1)
          in resourceMatch \<and> actionMatch)"

text \<open>
  The two nested loops, over the policy store's method.  Every call of it takes the store's lock anew,
  so others may change the store between two roles.
\<close>

fun any_match :: "permission list \<Rightarrow> permission \<Rightarrow> bool" where
  "any_match [] required = False"
| "any_match (p # ps) required = (if matchPermission p required then True else any_match ps required)"

fun hasPermission ::
  "(nat \<Rightarrow> string \<Rightarrow> string \<Rightarrow> permission list) \<Rightarrow> string \<Rightarrow> string list \<Rightarrow> permission \<Rightarrow> world \<Rightarrow> bool \<times> world" where
  "hasPermission store tenantID [] required w = (False, w)"
| "hasPermission store tenantID (roleID # roles) required w =
     (let (RolePermissions, w) = sense store w in
      if any_match (RolePermissions tenantID roleID) required then (True, w)
      else hasPermission store tenantID roles required w)"

lemma any_match_iff: "any_match ps required \<longleftrightarrow> (\<exists>p \<in> set ps. matchPermission p required)"
  by (induction ps) auto

text \<open>A yes is owed to one role and what the store grants it at one moment.\<close>

lemma hasPermission_grant:
  "fst (hasPermission store tid roles required w) \<Longrightarrow>
     \<exists>n. \<exists>rid \<in> set roles. \<exists>p \<in> set (store n tid rid). matchPermission p required"
proof (induction roles arbitrary: w)
  case (Cons rid roles)
  show ?case
  proof (cases "any_match (store (g_tick w) tid rid) required")
    case True
    then show ?thesis by (auto simp: any_match_iff)
  next
    case False
    then have "fst (hasPermission store tid roles required (w\<lparr>g_tick := Suc (g_tick w)\<rparr>))"
      using Cons.prems by (simp add: sense_def)
    from Cons.IH [OF this] show ?thesis by auto
  qed
qed simp

lemma hasPermission_const:
  "fst (hasPermission (\<lambda>_. perms) tid roles required w) \<longleftrightarrow>
     (\<exists>rid \<in> set roles. \<exists>p \<in> set (perms tid rid). matchPermission p required)"
  by (induction roles arbitrary: w) (auto simp: any_match_iff sense_def)

lemma hasPermission_world: "\<exists>k. snd (hasPermission store tid roles required w) = w\<lparr>g_tick := g_tick w + k\<rparr>"
proof (induction roles arbitrary: w)
  case Nil
  show ?case by (intro exI [of _ 0]) simp
next
  case (Cons rid roles)
  let ?w = "w\<lparr>g_tick := Suc (g_tick w)\<rparr>"
  show ?case
  proof (cases "any_match (store (g_tick w) tid rid) required")
    case True
    then show ?thesis by (intro exI [of _ 1]) (simp add: sense_def)
  next
    case False
    obtain k where "snd (hasPermission store tid roles required ?w) = ?w\<lparr>g_tick := g_tick ?w + k\<rparr>"
      using Cons.IH by blast
    then show ?thesis using False by (intro exI [of _ "Suc k"]) (simp add: sense_def)
  qed
qed

text \<open>What a required permission with a literal resource and action accepts.\<close>

lemma go_SplitN2_colon: "c \<notin> set a \<Longrightarrow> go_SplitN2 (a @ c # b) c = [a, b]"
  by (induction a) (auto simp: go_SplitN2_def)

lemma matchPermission_colon:
  assumes "CHR '':'' \<notin> set res"
  shows "matchPermission g (res @ CHR '':'' # act) \<longleftrightarrow>
    g \<in> {res @ CHR '':'' # act, res @ '':*'', ''*:'' @ act, ''*:*''}"
proof -
  have rp: "go_SplitN2 (res @ CHR '':'' # act) (CHR '':'') = [res, act]"
    by (rule go_SplitN2_colon [OF assms])
  have g: "(\<exists>a b. CHR '':'' \<notin> set a \<and> g = a @ CHR '':'' # b \<and> go_SplitN2 g (CHR '':'') = [a, b]) \<or>
    CHR '':'' \<notin> set g \<and> go_SplitN2 g (CHR '':'') = [g]"
  proof (cases "CHR '':'' \<in> set g")
    case True
    then obtain a b where "g = a @ CHR '':'' # b" "CHR '':'' \<notin> set a" by (meson split_list_first)
    then show ?thesis using go_SplitN2_colon by blast
  qed (simp add: go_SplitN2_def)
  show ?thesis
  proof (cases "CHR '':'' \<in> set g")
    case False
    with g rp show ?thesis by (auto simp: matchPermission_def Let_def)
  next
    case True
    with g obtain a b where ab: "CHR '':'' \<notin> set a" "g = a @ CHR '':'' # b" "go_SplitN2 g (CHR '':'') = [a, b]"
      by auto
    have inj: "a @ CHR '':'' # b = c @ CHR '':'' # d \<longleftrightarrow> a = c \<and> b = d" if "CHR '':'' \<notin> set c" for c d
      by (rule split_first_inj [OF ab(1) that])
    show ?thesis
    proof -
      have "matchPermission g (res @ CHR '':'' # act) \<longleftrightarrow>
        g = res @ CHR '':'' # act \<or> (a = ''*'' \<or> a = res) \<and> (b = ''*'' \<or> b = act)"
        by (simp add: matchPermission_def Let_def ab(3) rp)
      moreover have "g = res @ CHR '':'' # act \<longleftrightarrow> a = res \<and> b = act"
        and "g = res @ '':*'' \<longleftrightarrow> a = res \<and> b = ''*''"
        and "g = ''*:'' @ act \<longleftrightarrow> a = ''*'' \<and> b = act" and "g = ''*:*'' \<longleftrightarrow> a = ''*'' \<and> b = ''*''"
        unfolding ab(2) using inj [OF assms, of act] inj [OF assms, of "''*''"] inj [of "''*''" act] inj [of "''*''" "''*''"]
        by simp_all
      ultimately show ?thesis by blast
    qed
  qed
qed

end
