(* ===== verification/GatewayAuth.thy ===== *)
theory GatewayAuth
  imports GatewayStores
begin

text \<open>
  Authentication and authorization (\<open>authn.go\<close>, \<open>authz.go\<close>).  \<open>env\<close> holds what the gateway was
  built with and what it reads from outside.  Parameters, because their code is not in the
  repository: the hash functions of \<open>crypto/sha256\<close> and \<open>crypto/hmac\<close>, the JSON decoder (on the
  payload of a token), the random source, and the stores behind the interfaces.
  \<open>encoding/base64\<close> is written out.
\<close>

section \<open>The environment\<close>

record jwt_verifier =
  jv_secret :: string
  jv_issuer :: string
  jv_aud :: string

definition NewJWTVerifier :: "string \<Rightarrow> string \<Rightarrow> string \<Rightarrow> jwt_verifier" where
  "NewJWTVerifier secret issuer audience = \<lparr>jv_secret = secret, jv_issuer = issuer, jv_aud = audience\<rparr>"

record env =
  e_clock :: "nat \<Rightarrow> time"
  e_rand :: "nat \<Rightarrow> nat list option"
  e_sha256 :: "string \<Rightarrow> nat list"
  e_hmac :: "string \<Rightarrow> string \<Rightarrow> nat list"
  e_unmarshal :: "string \<Rightarrow> claims option"
  e_jwt :: jwt_verifier
  e_keys :: "nat \<Rightarrow> api_keys"
  e_tenants :: "nat \<Rightarrow> string \<Rightarrow> string + tenant"
  e_limits :: "nat \<Rightarrow> string \<Rightarrow> string + tenant"
  e_policies :: "nat \<Rightarrow> string \<Rightarrow> string \<Rightarrow> permission list"

section \<open>base64.RawURLEncoding\<close>

definition b64_alphabet :: string where
  "b64_alphabet = ''ABCDEFGHIJKLMNOPQRSTUVWXYZabcdefghijklmnopqrstuvwxyz0123456789-_''"

definition b64_char :: "nat \<Rightarrow> char" where
  "b64_char n = b64_alphabet ! (n mod 64)"

fun b64_encode :: "nat list \<Rightarrow> string" where
  "b64_encode [] = []"
| "b64_encode [a] = [b64_char (a div 4), b64_char (a mod 4 * 16)]"
| "b64_encode [a, b] = [b64_char (a div 4), b64_char (a mod 4 * 16 + b div 16), b64_char (b mod 16 * 4)]"
| "b64_encode (a # b # c # bs) =
     b64_char (a div 4) # b64_char (a mod 4 * 16 + b div 16) # b64_char (b mod 16 * 4 + c div 64) #
     b64_char (c mod 64) # b64_encode bs"

fun index_of :: "char \<Rightarrow> string \<Rightarrow> nat option" where
  "index_of c [] = None"
| "index_of c (d # ds) = (if c = d then Some 0 else map_option Suc (index_of c ds))"

fun b64_decode_values :: "nat list \<Rightarrow> nat list option" where
  "b64_decode_values [] = Some []"
| "b64_decode_values [v] = None"
| "b64_decode_values [v, x] = Some [v * 4 + x div 16]"
| "b64_decode_values [v, x, y] = Some [v * 4 + x div 16, x mod 16 * 16 + y div 4]"
| "b64_decode_values (v # x # y # z # vs) =
     map_option (\<lambda>bs. (v * 4 + x div 16) # (x mod 16 * 16 + y div 4) # (y mod 4 * 64 + z) # bs)
       (b64_decode_values vs)"

text \<open>Line breaks are skipped, any other character outside the alphabet is an error.\<close>

definition b64_decode :: "string \<Rightarrow> nat list option" where
  "b64_decode s =
     (let vs = map (\<lambda>c. index_of c b64_alphabet) (filter (\<lambda>c. c \<noteq> CHR 0x0A \<and> c \<noteq> CHR 0x0D) s)
      in if None \<in> set vs then None else b64_decode_values (map the vs))"

section \<open>Verify\<close>

definition Expired :: "time \<Rightarrow> claims \<Rightarrow> bool" where
  "Expired now c \<longleftrightarrow> time_Unix now > cl_Expiry c"

definition Verify :: "env \<Rightarrow> string \<Rightarrow> world \<Rightarrow> (string + claims) \<times> world" where
  "Verify env rawToken w =
     (let v = e_jwt env; parts = go_Split rawToken (CHR ''.'') in
      if length parts \<noteq> 3 then (Inl ''malformed jwt: expected 3 parts'', w)
      else
        let expected = b64_encode (e_hmac env (jv_secret v) (parts ! 0 @ ''.'' @ parts ! 1)) in
        if expected \<noteq> parts ! 2 then (Inl ''invalid jwt signature'', w)
        else
          (case b64_decode (parts ! 1) of
             None \<Rightarrow> (Inl ''malformed jwt payload'', w)
           | Some payload \<Rightarrow>
               (case e_unmarshal env (map char_of payload) of
                  None \<Rightarrow> (Inl ''malformed jwt claims'', w)
                | Some c \<Rightarrow>
                    let (now, w) = sense (e_clock env) w in
                    if Expired now c then (Inl ''jwt expired'', w)
                    else if cl_Issuer c \<noteq> jv_issuer v then (Inl ''jwt issuer mismatch'', w)
                    else if cl_Audience c \<noteq> jv_aud v then (Inl ''jwt audience mismatch'', w)
                    else if cl_TenantID c = [] then (Inl ''jwt missing tid claim'', w)
                    else (Inr c, w))))"

definition verifyJWT :: "env \<Rightarrow> ctxt \<Rightarrow> string \<Rightarrow> world \<Rightarrow> (string + ctxt) \<times> world" where
  "verifyJWT env ctx rawToken w =
     (case Verify env rawToken w of
        (Inl err, w) \<Rightarrow> (Inl err, w)
      | (Inr claims, w) \<Rightarrow>
          (Inr (ctx(ctxTenantID \<mapsto> CString (cl_TenantID claims), ctxUserID \<mapsto> CString (cl_Subject claims),
                    ctxClaims \<mapsto> CClaims claims)), w))"

definition verifyAPIKey :: "env \<Rightarrow> ctxt \<Rightarrow> string \<Rightarrow> world \<Rightarrow> (string + ctxt) \<times> world" where
  "verifyAPIKey env ctx rawKey w =
     (let (keys, w) = sense (e_keys env) w in
      case key_Lookup (e_sha256 env) rawKey keys of
        None \<Rightarrow> (Inl ''invalid api key'', w)
      | Some rec \<Rightarrow>
          (Inr (ctx(ctxTenantID \<mapsto> CString (ak_TenantID rec), ctxUserID \<mapsto> CString (ak_UserID rec),
                    ctxClaims \<mapsto> CClaims \<lparr>cl_Subject = ak_UserID rec, cl_TenantID = ak_TenantID rec,
                      cl_Roles = ak_Roles rec, cl_Expiry = 0, cl_Issuer = [], cl_Audience = []\<rparr>)), w))"

definition authenticate :: "env \<Rightarrow> request \<Rightarrow> world \<Rightarrow> (string + ctxt) \<times> world" where
  "authenticate env r w =
     (let authHeader = header_Get (rq_Header r) ''Authorization'' in
      if go_HasPrefix authHeader ''Bearer '' then verifyJWT env (rq_ctx r) (go_TrimPrefix authHeader ''Bearer '') w
      else if go_HasPrefix authHeader ''ApiKey '' then
        verifyAPIKey env (rq_ctx r) (go_TrimPrefix authHeader ''ApiKey '') w
      else
        let key = header_Get (rq_Header r) ''X-API-Key'' in
        if key \<noteq> [] then verifyAPIKey env (rq_ctx r) key w else (Inl ''no credentials provided'', w))"

definition AuthN_Middleware :: "env \<Rightarrow> middleware" where
  "AuthN_Middleware env next = (\<lambda>r (w, rs).
     case authenticate env r w of
       (Inl err, w) \<Rightarrow> writeError (e_clock env) 401 ''UNAUTHENTICATED'' err (w, rs)
     | (Inr ctx, w) \<Rightarrow> next (r\<lparr>rq_ctx := ctx\<rparr>) (w, rs))"

section \<open>Route permissions\<close>

definition routePermissions :: "(string \<times> string \<times> permission) list" where
  "routePermissions =
     [(''GET'', ''/api/'', PermRead), (''POST'', ''/api/'', PermWrite), (''PUT'', ''/api/'', PermWrite),
      (''PATCH'', ''/api/'', PermWrite), (''DELETE'', ''/api/'', PermDelete),
      (''POST'', ''/api/billing/'', PermBilling)]"

fun best_rule :: "(string \<times> string \<times> permission) list \<Rightarrow> request \<Rightarrow> permission \<times> string \<Rightarrow> permission \<times> string" where
  "best_rule [] r best = best"
| "best_rule ((method, prefix, perm) # rules) r best =
     (if method \<noteq> rq_Method r then best_rule rules r best
      else if go_HasPrefix (rq_Path r) prefix \<and> length prefix > length (snd best)
      then best_rule rules r (perm, prefix) else best_rule rules r best)"

definition requiredPermission :: "request \<Rightarrow> permission" where
  "requiredPermission r = fst (best_rule routePermissions r ([], []))"

definition AuthZ_Middleware :: "env \<Rightarrow> middleware" where
  "AuthZ_Middleware env next = (\<lambda>r (w, rs).
     case ClaimsFromCtx (rq_ctx r) of
       None \<Rightarrow> writeError (e_clock env) 403 ''FORBIDDEN'' ''no identity in context'' (w, rs)
     | Some claims \<Rightarrow>
         let required = requiredPermission r in
         if required = [] then next r (w, rs)
         else
           let (granted, w) = hasPermission (e_policies env) (cl_TenantID claims) (cl_Roles claims) required w in
           if \<not> granted
           then writeError (e_clock env) 403 ''FORBIDDEN'' ''insufficient permissions for this operation'' (w, rs)
           else next r (w, rs))"

section \<open>What authentication accepts\<close>

text \<open>A token valid at a moment of the clock: three parts, the signature of the first two under
  the secret, and claims that have not expired and name this service and a tenant.\<close>

definition jwt_valid :: "env \<Rightarrow> time \<Rightarrow> string \<Rightarrow> claims \<Rightarrow> bool" where
  "jwt_valid env now tok c \<longleftrightarrow>
     (\<exists>h p bytes. tok = h @ ''.'' @ p @ ''.'' @ b64_encode (e_hmac env (jv_secret (e_jwt env)) (h @ ''.'' @ p)) \<and>
        CHR ''.'' \<notin> set h \<and> CHR ''.'' \<notin> set p \<and> b64_decode p = Some bytes \<and>
        e_unmarshal env (map char_of bytes) = Some c) \<and>
     time_Unix now \<le> cl_Expiry c \<and> cl_Issuer c = jv_issuer (e_jwt env) \<and>
     cl_Audience c = jv_aud (e_jwt env) \<and> cl_TenantID c \<noteq> []"

lemma go_Split_not_Nil: "go_Split s c \<noteq> []"
  by (cases s) (simp_all split: list.splits)

lemma go_Split_parts:
  "go_Split s c = p # ps \<longleftrightarrow>
     c \<notin> set p \<and> (case ps of [] \<Rightarrow> s = p | _ \<Rightarrow> \<exists>t. s = p @ c # t \<and> go_Split t c = ps)"
proof (induction s arbitrary: p ps)
  case Nil
  then show ?case by (auto split: list.splits)
next
  case (Cons d s)
  obtain q qs where q: "go_Split s c = q # qs" using go_Split_not_Nil by (meson list.exhaust)
  show ?case
  proof (cases "d = c")
    case True
    then show ?thesis using q by (cases p) (auto split: list.splits)
  next
    case False
    then have "go_Split (d # s) c = (d # q) # qs" using q by simp
    then show ?thesis
    proof (cases p)
      case (Cons e p')
      then have "go_Split (d # s) c = p # ps \<longleftrightarrow> d = e \<and> go_Split s c = p' # ps"
        using \<open>d \<noteq> c\<close> q by auto
      also have "\<dots> \<longleftrightarrow> c \<notin> set p \<and> (case ps of [] \<Rightarrow> d # s = p | _ \<Rightarrow> \<exists>t. d # s = p @ c # t \<and> go_Split t c = ps)"
        unfolding Cons.IH using \<open>d \<noteq> c\<close> Cons by (cases ps) auto
      finally show ?thesis .
    qed (auto split: list.splits)
  qed
qed

lemma go_Split_three:
  "go_Split s c = [h, p, g] \<longleftrightarrow> s = h @ c # p @ c # g \<and> c \<notin> set h \<and> c \<notin> set p \<and> c \<notin> set g"
  by (auto simp: go_Split_parts)

lemma b64_char_alphabet: "b64_char n \<in> set b64_alphabet"
proof -
  have "length b64_alphabet = 64" by (simp add: b64_alphabet_def)
  then show ?thesis unfolding b64_char_def by (metis mod_less_divisor nth_mem zero_less_numeral)
qed

lemma b64_encode_no_dot: "CHR ''.'' \<notin> set (b64_encode bs)"
proof -
  have "set (b64_encode bs) \<subseteq> set b64_alphabet"
    by (induction bs rule: b64_encode.induct) (auto simp: b64_char_alphabet)
  moreover have "CHR ''.'' \<notin> set b64_alphabet" by (simp add: b64_alphabet_def)
  ultimately show ?thesis by blast
qed

lemma Verify_Inr:
  "fst (Verify env tok w) = Inr c \<longleftrightarrow> jwt_valid env (e_clock env (g_tick w)) tok c"
proof -
  have len: "length xs = 3 \<longleftrightarrow> (\<exists>h p g. xs = [h, p, g])" for xs :: "string list"
    by (auto simp: numeral_3_eq_3 length_Suc_conv)
  show ?thesis
  proof (cases "length (go_Split tok (CHR ''.'')) = 3")
    case False
    have "\<not> jwt_valid env (e_clock env (g_tick w)) tok c"
    proof
      assume "jwt_valid env (e_clock env (g_tick w)) tok c"
      then obtain h p where "tok = h @ CHR ''.'' # p @ CHR ''.'' # b64_encode (e_hmac env (jv_secret (e_jwt env)) (h @ ''.'' @ p))"
        and "CHR ''.'' \<notin> set h" "CHR ''.'' \<notin> set p" by (auto simp: jwt_valid_def)
      then have "go_Split tok (CHR ''.'') = [h, p, b64_encode (e_hmac env (jv_secret (e_jwt env)) (h @ ''.'' @ p))]"
        using b64_encode_no_dot by (simp add: go_Split_three)
      with False show False by simp
    qed
    with False show ?thesis by (simp add: Verify_def Let_def)
  next
    case True
    then obtain h p g where sp: "go_Split tok (CHR ''.'') = [h, p, g]" using len by blast
    then have tok: "tok = h @ CHR ''.'' # p @ CHR ''.'' # g" "CHR ''.'' \<notin> set h" "CHR ''.'' \<notin> set p"
      by (simp_all add: go_Split_three)
    have "jwt_valid env (e_clock env (g_tick w)) tok c \<longleftrightarrow>
      g = b64_encode (e_hmac env (jv_secret (e_jwt env)) (h @ ''.'' @ p)) \<and>
      (\<exists>bytes. b64_decode p = Some bytes \<and> e_unmarshal env (map char_of bytes) = Some c) \<and>
      time_Unix (e_clock env (g_tick w)) \<le> cl_Expiry c \<and> cl_Issuer c = jv_issuer (e_jwt env) \<and>
      cl_Audience c = jv_aud (e_jwt env) \<and> cl_TenantID c \<noteq> []" (is "?L \<longleftrightarrow> ?R")
    proof
      assume ?L
      then obtain h' p' bytes where t: "tok = h' @ CHR ''.'' # p' @ CHR ''.'' # b64_encode (e_hmac env (jv_secret (e_jwt env)) (h' @ ''.'' @ p'))"
        and nd: "CHR ''.'' \<notin> set h'" "CHR ''.'' \<notin> set p'"
        and "b64_decode p' = Some bytes" "e_unmarshal env (map char_of bytes) = Some c"
        by (auto simp: jwt_valid_def)
      moreover have "go_Split tok (CHR ''.'') = [h', p', b64_encode (e_hmac env (jv_secret (e_jwt env)) (h' @ ''.'' @ p'))]"
        using t nd b64_encode_no_dot by (simp add: go_Split_three)
      then have "h = h'" "p = p'" "g = b64_encode (e_hmac env (jv_secret (e_jwt env)) (h' @ ''.'' @ p'))"
        using sp by simp_all
      ultimately show ?R using \<open>?L\<close> by (auto simp: jwt_valid_def)
    next
      assume ?R
      with tok show ?L by (auto simp: jwt_valid_def)
    qed
    then show ?thesis
      using sp by (auto simp: Verify_def Let_def Expired_def sense_def split: option.splits)
  qed
qed

text \<open>What the headers of a request prove, at the moments the credential is checked.\<close>

definition key_claims :: "api_key_record \<Rightarrow> claims" where
  "key_claims rec = \<lparr>cl_Subject = ak_UserID rec, cl_TenantID = ak_TenantID rec, cl_Roles = ak_Roles rec,
     cl_Expiry = 0, cl_Issuer = [], cl_Audience = []\<rparr>"

definition credential :: "env \<Rightarrow> nat \<Rightarrow> request \<Rightarrow> claims \<Rightarrow> bool" where
  "credential env n r c \<longleftrightarrow>
     (let h = header_Get (rq_Header r) ''Authorization''; legacy = header_Get (rq_Header r) ''X-API-Key'' in
      (\<exists>tok. h = ''Bearer '' @ tok \<and> jwt_valid env (e_clock env n) tok c) \<or>
      (\<exists>key rec. (h = ''ApiKey '' @ key \<or> key = legacy \<and> key \<noteq> []) \<and>
         key_Lookup (e_sha256 env) key (e_keys env n) = Some rec \<and> c = key_claims rec))"

definition identified :: "ctxt \<Rightarrow> claims \<Rightarrow> ctxt" where
  "identified ctx c = ctx(ctxTenantID \<mapsto> CString (cl_TenantID c), ctxUserID \<mapsto> CString (cl_Subject c),
     ctxClaims \<mapsto> CClaims c)"

lemma verifyJWT_Inr:
  "fst (verifyJWT env ctx tok w) = Inr ctx' \<longleftrightarrow>
     (\<exists>c. jwt_valid env (e_clock env (g_tick w)) tok c \<and> ctx' = identified ctx c)"
proof -
  obtain res w1 where v: "Verify env tok w = (res, w1)" by (cases "Verify env tok w")
  then have "jwt_valid env (e_clock env (g_tick w)) tok c \<longleftrightarrow> res = Inr c" for c
    using Verify_Inr [of env tok w] by simp
  with v show ?thesis by (cases res) (auto simp: verifyJWT_def identified_def)
qed

lemma verifyAPIKey_Inr:
  "fst (verifyAPIKey env ctx key w) = Inr ctx' \<longleftrightarrow>
     (\<exists>rec. key_Lookup (e_sha256 env) key (e_keys env (g_tick w)) = Some rec \<and> ctx' = identified ctx (key_claims rec))"
  by (auto simp: verifyAPIKey_def sense_def identified_def key_claims_def split: option.splits)

lemma HasPrefix_Trim: "go_HasPrefix s p \<Longrightarrow> s = p @ go_TrimPrefix s p"
  by (simp add: go_TrimPrefix_def go_HasPrefix_def) (metis append_take_drop_id)

lemma authenticate_Inr:
  "fst (authenticate env r w) = Inr ctx \<Longrightarrow>
     \<exists>c. credential env (g_tick w) r c \<and> ctx = identified (rq_ctx r) c"
  using HasPrefix_Trim [of "header_Get (rq_Header r) ''Authorization''" "''Bearer ''"]
    HasPrefix_Trim [of "header_Get (rq_Header r) ''Authorization''" "''ApiKey ''"]
  by (auto simp: authenticate_def Let_def credential_def verifyJWT_Inr verifyAPIKey_Inr split: if_splits)

lemma Verify_world: "\<exists>k. snd (Verify env tok w) = w\<lparr>g_tick := g_tick w + k\<rparr>"
proof -
  have "snd (Verify env tok w) = w\<lparr>g_tick := g_tick w + 0\<rparr> \<or> snd (Verify env tok w) = w\<lparr>g_tick := g_tick w + 1\<rparr>"
    by (auto simp: Verify_def Let_def sense_def split: option.splits)
  then show ?thesis by blast
qed

lemma authenticate_world: "\<exists>k. snd (authenticate env r w) = w\<lparr>g_tick := g_tick w + k\<rparr>"
proof -
  have jwt: "\<exists>k. snd (verifyJWT env ctx tok w) = w\<lparr>g_tick := g_tick w + k\<rparr>" for ctx tok
  proof -
    obtain res w1 where v: "Verify env tok w = (res, w1)" by (cases "Verify env tok w")
    with Verify_world [of env tok w] show ?thesis by (cases res) (auto simp: verifyJWT_def)
  qed
  have "snd (verifyAPIKey env ctx key w) = w\<lparr>g_tick := g_tick w + 1\<rparr>" for ctx key
    by (simp add: verifyAPIKey_def sense_def split: option.splits)
  then have key: "\<exists>k. snd (verifyAPIKey env ctx key w) = w\<lparr>g_tick := g_tick w + k\<rparr>" for ctx key by blast
  have "\<exists>k. w = w\<lparr>g_tick := g_tick w + k\<rparr>" by (intro exI [of _ 0]) simp
  with jwt key show ?thesis by (simp add: authenticate_def Let_def)
qed

end
