(* ===== verification/GatewayMetrics.thy ===== *)
theory GatewayMetrics
  imports GatewayBase GoFloat "HOL-Library.Multiset"
begin

text \<open>
  The metrics of \<open>observability.go\<close>: the counters and samples of a tenant, the percentile (with its
  insertion sort and its floating-point index), the registry, and the small string helpers
  behind \<open>remoteIP\<close>.
\<close>

section \<open>Counters and samples\<close>

definition new_metrics :: request_metrics where
  "new_metrics = \<lparr>rm_Total = 0, rm_Errors = 0, rm_ClientErr = 0, rm_latency = []\<rparr>"

definition Record :: "int \<Rightarrow> int \<Rightarrow> request_metrics \<Rightarrow> request_metrics" where
  "Record statusCode latencyMs m =
     (let m = m\<lparr>rm_Total := i64 (rm_Total m + 1)\<rparr>;
          m = (if statusCode \<ge> 500 then m\<lparr>rm_Errors := i64 (rm_Errors m + 1)\<rparr>
               else if statusCode \<ge> 400 then m\<lparr>rm_ClientErr := i64 (rm_ClientErr m + 1)\<rparr> else m)
      in if length (rm_latency m) < 1000 then m\<lparr>rm_latency := rm_latency m @ [latencyMs]\<rparr> else m)"

section \<open>P99\<close>

text \<open>The inner loop sinks the sample at \<open>j\<close>; the outer loop runs \<open>i\<close> up to the length.\<close>

fun sink :: "int list \<Rightarrow> nat \<Rightarrow> int list" where
  "sink xs 0 = xs"
| "sink xs (Suc j) =
     (if xs ! Suc j < xs ! j then sink (xs[Suc j := xs ! j, j := xs ! Suc j]) j else xs)"

lemma length_sink [simp]: "length (sink xs j) = length xs"
  by (induction xs j rule: sink.induct) auto

function sort_loop :: "int list \<Rightarrow> nat \<Rightarrow> int list" where
  "sort_loop xs i = (if i < length xs then sort_loop (sink xs i) (i + 1) else xs)"
  by auto
termination by (relation "measure (\<lambda>(xs, i). length xs - i)") auto

declare sort_loop.simps [simp del]

text \<open>\<open>0.99\<close> is this multiple of \<open>2^-53\<close>; the product is rounded, then truncated.\<close>

definition f64_099 :: nat where
  "f64_099 = 8917127262193582"

definition p99_index :: "nat \<Rightarrow> nat" where
  "p99_index n = nat \<lfloor>f64_ratio (n * f64_099) (2 ^ 53)\<rfloor>"

definition P99 :: "request_metrics \<Rightarrow> int" where
  "P99 m =
     (let samples = rm_latency m in
      if length samples = 0 then 0
      else
        let samples = sort_loop samples 1;
            idx = p99_index (length samples);
            idx = (if idx \<ge> length samples then length samples - 1 else idx)
        in samples ! idx)"

section \<open>The registry\<close>

type_synonym registry = "string \<Rightarrow> request_metrics option"

definition NewMetricsRegistry :: registry where
  "NewMetricsRegistry = (\<lambda>_. None)"

text \<open>\<open>For\<close> returns the bucket, which it creates when it is missing; \<open>record_for\<close> is the use the
  middleware makes of the pointer.\<close>

definition For :: "string \<Rightarrow> registry \<Rightarrow> request_metrics \<times> registry" where
  "For tenantID r =
     (case r tenantID of
        Some m \<Rightarrow> (m, r)
      | None \<Rightarrow> (new_metrics, r(tenantID \<mapsto> new_metrics)))"

definition record_for :: "string \<Rightarrow> int \<Rightarrow> int \<Rightarrow> registry \<Rightarrow> registry" where
  "record_for tenantID status latencyMs r =
     (let (m, r) = For tenantID r in r(tenantID \<mapsto> Record status latencyMs m))"

section \<open>remoteIP\<close>

text \<open>Go ranges over the starts of the runes of \<open>s\<close>; for a separator of one ASCII byte, the only use,
  looking at every byte finds the same first position.\<close>

fun splitFirst_loop :: "string \<Rightarrow> string \<Rightarrow> nat \<Rightarrow> string \<Rightarrow> string" where
  "splitFirst_loop s sep i [] = s"
| "splitFirst_loop s sep i (c # cs) = (if [c] = sep then take i s else splitFirst_loop s sep (i + 1) cs)"

definition splitFirst :: "string \<Rightarrow> string \<Rightarrow> string" where
  "splitFirst s sep = splitFirst_loop s sep 0 s"

definition is_blank :: "char \<Rightarrow> bool" where
  "is_blank c \<longleftrightarrow> c = CHR '' '' \<or> c = CHR 0x09"

function trim_start :: "string \<Rightarrow> nat \<Rightarrow> nat \<Rightarrow> nat" where
  "trim_start s i end = (if i < end \<and> is_blank (s ! i) then trim_start s (i + 1) end else i)"
  by auto
termination by (relation "measure (\<lambda>(s, i, e). e - i)") auto

fun trim_end :: "string \<Rightarrow> nat \<Rightarrow> nat \<Rightarrow> nat" where
  "trim_end s start 0 = 0"
| "trim_end s start (Suc e) = (if Suc e > start \<and> is_blank (s ! e) then trim_end s start e else Suc e)"

declare trim_start.simps [simp del]

definition trimSpace :: "string \<Rightarrow> string" where
  "trimSpace s =
     (let start = trim_start s 0 (length s); e = trim_end s start (length s)
      in take (e - start) (drop start s))"

definition remoteIP :: "request \<Rightarrow> string" where
  "remoteIP r =
     (let xff = header_Get (rq_Header r) ''X-Forwarded-For'' in
      if xff \<noteq> [] then trimSpace (splitFirst xff '','') else rq_RemoteAddr r)"

section \<open>The sort sorts\<close>

lemma mset_sink: "j < length xs \<Longrightarrow> mset (sink xs j) = mset xs"
proof (induction xs j rule: sink.induct)
  case (2 xs j)
  then show ?case using nth_update_two [of "Suc j" xs j] by simp
qed simp

lemma mset_sort_loop: "mset (sort_loop xs i) = mset xs"
  by (induction xs i rule: sort_loop.induct) (subst sort_loop.simps, simp add: mset_sink)

text \<open>All pairs up to position \<open>i\<close> are in order, except those whose larger position is \<open>j\<close>.\<close>

definition sorted_but :: "int list \<Rightarrow> nat \<Rightarrow> nat \<Rightarrow> bool" where
  "sorted_but xs i j \<longleftrightarrow> (\<forall>a b. a < b \<longrightarrow> b \<le> i \<longrightarrow> b \<noteq> j \<longrightarrow> xs ! a \<le> xs ! b)"

definition sorted_to :: "int list \<Rightarrow> nat \<Rightarrow> bool" where
  "sorted_to xs i \<longleftrightarrow> (\<forall>a b. a < b \<longrightarrow> b \<le> i \<longrightarrow> xs ! a \<le> xs ! b)"

lemma sink_sorted:
  "j \<le> i \<Longrightarrow> i < length xs \<Longrightarrow> sorted_but xs i j \<Longrightarrow> sorted_to (sink xs j) i"
proof (induction xs j rule: sink.induct)
  case (1 xs)
  then show ?case by (auto simp: sorted_but_def sorted_to_def)
next
  case (2 xs j)
  show ?case
  proof (cases "xs ! Suc j < xs ! j")
    case True
    let ?ys = "xs[Suc j := xs ! j, j := xs ! Suc j]"
    have nth: "?ys ! a = (if a = j then xs ! Suc j else if a = Suc j then xs ! j else xs ! a)" if "a \<le> i" for a
      using that 2(2,3) by (auto simp: nth_list_update)
    have "sorted_but ?ys i j"
      unfolding sorted_but_def
    proof (intro allI impI)
      fix a b assume ab: "a < b" "b \<le> i" "b \<noteq> j"
      have so: "\<And>a b. a < b \<Longrightarrow> b \<le> i \<Longrightarrow> b \<noteq> Suc j \<Longrightarrow> xs ! a \<le> xs ! b"
        using 2(4) by (auto simp: sorted_but_def)
      show "?ys ! a \<le> ?ys ! b"
        unfolding nth [OF ab(2)] nth [OF less_imp_le [OF less_le_trans [OF ab(1,2)]]]
        using ab so [of a b] so [of a j] so [of "Suc j" b] so [of j b] 2(2) True by auto
    qed
    with 2 True show ?thesis by simp
  next
    case False
    have "sorted_to xs i"
      unfolding sorted_to_def
    proof (intro allI impI)
      fix a b assume ab: "a < b" "b \<le> i"
      show "xs ! a \<le> xs ! b"
      proof (cases "b = Suc j")
        case True
        have "xs ! a \<le> xs ! j"
          using 2(4) 2(2) ab True by (cases "a = j") (auto simp: sorted_but_def)
        with False True show ?thesis by simp
      next
        case False
        with 2(4) ab show ?thesis by (auto simp: sorted_but_def)
      qed
    qed
    with False show ?thesis by simp
  qed
qed

lemma sort_loop_sorted:
  "sorted_to xs (i - 1) \<Longrightarrow> 0 < i \<Longrightarrow> sorted (sort_loop xs i)"
proof (induction xs i rule: sort_loop.induct)
  case (1 xs i)
  show ?case
  proof (cases "i < length xs")
    case True
    have "sorted_but xs i i" using 1(2) by (auto simp: sorted_but_def sorted_to_def)
    then have "sorted_to (sink xs i) i" using True by (intro sink_sorted) auto
    with 1 True show ?thesis by (subst sort_loop.simps) simp
  next
    case False
    with 1(2) show ?thesis
      by (subst sort_loop.simps) (auto simp: sorted_iff_nth_mono_less sorted_to_def)
  qed
qed

lemma sort_loop_sort: "sort_loop xs 1 = sort xs"
  by (rule properties_for_sort [symmetric]) (auto simp: mset_sort_loop sort_loop_sorted sorted_to_def)

lemma length_sort_loop: "length (sort_loop xs i) = length xs"
  using mset_sort_loop [of xs i] by (metis size_mset)

text \<open>For every number of samples a bucket can hold, the floating-point index is exact: the constant
  is a little below 0.99, which the rounding of the product makes up for.\<close>

lemma f64_099_error: "100 * f64_099 + 8 = 99 * 2 ^ 53"
  by (simp add: f64_099_def)

lemma scaled_gap:
  fixes a B U q :: nat
  assumes "100 * a + B \<le> 100 * ((q + 1) * B)" and "100 \<le> U"
  shows "a * U \<le> ((q + 1) * U - 1) * B"
proof -
  have "(100 * a + B) * U \<le> 100 * ((q + 1) * B) * U" using assms(1) by (rule mult_le_mono1)
  moreover have "B * 100 \<le> B * U" using assms(2) by (rule mult_le_mono2)
  moreover have "(100 * a + B) * U = 100 * (a * U) + B * U" by (rule trans [OF add_mult_distrib]) simp
  moreover have "100 * ((q + 1) * B) * U = 100 * ((q + 1) * U * B)" by (simp only: ac_simps)
  ultimately have "a * U + B \<le> (q + 1) * U * B" by linarith
  then show ?thesis by (simp only: diff_mult_distrib mult_1)
qed

lemma p99_index_upper:
  assumes "0 < n" and "n \<le> 1000"
  shows "p99_index n \<le> n * 99 div 100"
proof -
  let ?a = "n * f64_099" and ?b = "2 ^ 53 :: nat" and ?q = "n * 99 div 100"
  have err: "100 * ?a + 8 * n = n * 99 * ?b" using f64_099_error by (simp add: f64_099_def)
  obtain u where f: "f64_ratio ?a ?b = of_nat (round_half_even (?a * 2 ^ u) ?b) / 2 ^ u"
    and lo: "2 ^ 52 * ?b \<le> ?a * 2 ^ u"
    using f64_ratio_scaled [of ?a ?b] assms by (auto simp: f64_099_def)
  have "?a < 2 ^ 10 * ?b" using assms(2) by (simp add: f64_099_def)
  then have "?a * 2 ^ u < 2 ^ 10 * ?b * 2 ^ u" by (rule mult_less_mono1) simp
  with lo have "2 ^ 52 * ?b < 2 ^ 10 * ?b * 2 ^ u" by (rule le_less_trans)
  then have "(2 :: nat) ^ 42 < 2 ^ u" by simp
  then have u: "(100 :: nat) \<le> 2 ^ u" by simp
  have "n * 99 + 1 \<le> (?q + 1) * 100" using dividend_less_div_times [of 100 "n * 99"] by simp
  then have "(n * 99 + 1) * ?b \<le> (?q + 1) * 100 * ?b" by (rule mult_le_mono1)
  moreover have "(n * 99 + 1) * ?b = n * 99 * ?b + ?b" by (simp only: add_mult_distrib mult_1)
  moreover have "(?q + 1) * 100 * ?b = 100 * ((?q + 1) * ?b)" by (simp only: ac_simps)
  ultimately have "n * 99 * ?b + ?b \<le> 100 * ((?q + 1) * ?b)" by (simp only:)
  then have gap: "100 * ?a + ?b \<le> 100 * ((?q + 1) * ?b)"
    unfolding err [symmetric] by (rule order_trans [rotated]) simp
  have "?a * 2 ^ u \<le> ((?q + 1) * 2 ^ u - 1) * ?b" by (rule scaled_gap [OF gap u])
  then have "round_half_even (?a * 2 ^ u) ?b \<le> (?q + 1) * 2 ^ u - 1" by (intro round_half_even_upper) simp_all
  then have "round_half_even (?a * 2 ^ u) ?b < (?q + 1) * 2 ^ u"
    by (metis Suc_pred' add_gr_0 le_imp_less_Suc mult_pos_pos zero_less_numeral zero_less_one zero_less_power Suc_eq_plus1)
  then have "rat_of_nat (round_half_even (?a * 2 ^ u) ?b) < rat_of_nat ((?q + 1) * 2 ^ u)" by (simp only: of_nat_less_iff)
  then have "f64_ratio ?a ?b < of_nat (?q + 1)" unfolding f by (simp add: divide_less_eq algebra_simps)
  then have "\<lfloor>f64_ratio ?a ?b\<rfloor> < int (?q + 1)" by (simp add: floor_less_iff)
  then show ?thesis by (simp add: p99_index_def)
qed

lemma round_half_even_near:
  assumes "0 < b" and "2 * (n * b) < 2 * a + b"
  shows "n \<le> round_half_even a b"
proof (cases "n * b \<le> a")
  case True
  then show ?thesis by (rule round_half_even_lower [OF assms(1)])
next
  case False
  then obtain k where n: "n = Suc k" by (cases n) auto
  have k: "k * b \<le> a" "a < Suc k * b" using False assms by (auto simp: n)
  then have d: "a div b = k" by (simp add: div_nat_eqI mult.commute)
  then have "a mod b = a - k * b" by (metis minus_div_mult_eq_mod)
  then have "b < 2 * (a mod b)" using assms(2) k by (simp add: n)
  with d show ?thesis by (simp add: round_half_even_def Let_def n)
qed

lemma p99_index_lower:
  assumes "0 < n" and "n \<le> 1000"
  shows "n * 99 div 100 \<le> p99_index n"
proof -
  let ?a = "n * f64_099" and ?b = "2 ^ 53 :: nat" and ?q = "n * 99 div 100"
  have err: "100 * ?a + 8 * n = n * 99 * ?b" using f64_099_error by (simp add: f64_099_def)
  obtain u where f: "f64_ratio ?a ?b = of_nat (round_half_even (?a * 2 ^ u) ?b) / 2 ^ u"
    and hi: "?a * 2 ^ u < 2 ^ 53 * ?b"
    using f64_ratio_scaled [of ?a ?b] assms by (auto simp: f64_099_def)
  have "?q * 100 \<le> n * 99" by (rule div_times_less_eq_dividend)
  then have "?q * 100 * ?b \<le> n * 99 * ?b" by (rule mult_le_mono1)
  then have "?q * 100 * ?b \<le> 100 * ?a + 8 * n" using err by linarith
  then have "?q * 100 * ?b * 2 ^ u \<le> (100 * ?a + 8 * n) * 2 ^ u" by (rule mult_le_mono1)
  then have 1: "100 * (?q * 2 ^ u * ?b) \<le> 100 * (?a * 2 ^ u) + 8 * (n * 2 ^ u)"
  proof -
    assume "?q * 100 * ?b * 2 ^ u \<le> (100 * ?a + 8 * n) * 2 ^ u"
    moreover have "(100 * ?a + 8 * n) * 2 ^ u = 100 * (?a * 2 ^ u) + 8 * (n * 2 ^ u)"
      by (simp only: add_mult_distrib mult.assoc)
    moreover have "?q * 100 * ?b * 2 ^ u = 100 * (?q * 2 ^ u * ?b)" by (simp only: ac_simps)
    ultimately show ?thesis by (simp only:)
  qed
  have "f64_099 * (n * 2 ^ u) < 2 ^ 53 * ?b" using hi by (simp only: ac_simps)
  then have "n * 2 ^ u < 5 * ?b" by (simp add: f64_099_def)
  with 1 have "2 * (?q * 2 ^ u * ?b) < 2 * (?a * 2 ^ u) + ?b" by linarith
  then have "?q * 2 ^ u \<le> round_half_even (?a * 2 ^ u) ?b" by (intro round_half_even_near) simp_all
  then have "rat_of_nat (?q * 2 ^ u) \<le> of_nat (round_half_even (?a * 2 ^ u) ?b)" by (simp only: of_nat_le_iff)
  then have "of_nat ?q \<le> f64_ratio ?a ?b" unfolding f by (simp add: le_divide_eq)
  then have "int ?q \<le> \<lfloor>f64_ratio ?a ?b\<rfloor>" by (simp add: le_floor_iff)
  then show ?thesis by (simp add: p99_index_def le_nat_iff)
qed

lemma p99_index_exact:
  assumes "n \<le> 1000"
  shows "p99_index n = n * 99 div 100"
proof (cases "n = 0")
  case True
  then show ?thesis by (simp add: p99_index_def)
next
  case False
  with assms show ?thesis by (intro antisym p99_index_upper p99_index_lower) simp_all
qed

end
