(* ===== verification/Gateway.thy ===== *)
theory Gateway
  imports GatewayAuth GatewayMetrics RateLimiters
begin

text \<open>
  The rest of the gateway and its composition: the per-tenant limiter (\<open>rate_limiter.go\<close>), the
  observability middleware (\<open>observability.go\<close>), tenant resolution and \<open>Handler\<close> (\<open>gateway.go\<close>).
  A handler is the run of one request, undisturbed by others; \<open>LimiterConcurrent\<close> and
  \<open>MetricsConcurrent\<close> cut the requests at the lock boundaries and interleave them.
\<close>

section \<open>The limiter\<close>

definition defaultWindow :: duration where
  "defaultWindow = 60 * second"

definition allowed :: "time \<Rightarrow> int \<Rightarrow> duration \<Rightarrow> time list \<Rightarrow> bool \<times> time list" where
  "allowed now limit window ring =
     (let cutoff = time_add now (i64 (- window)); ring = evict cutoff ring in
      if int (length ring) \<ge> limit then (False, ring) else (True, ring @ [now]))"

text \<open>\<open>bucket\<close> creates the ring of a tenant it has not seen.\<close>

definition bucket :: "string \<Rightarrow> (string \<Rightarrow> time list option) \<Rightarrow> time list \<times> (string \<Rightarrow> time list option)" where
  "bucket tenantID buckets =
     (case buckets tenantID of
        Some b \<Rightarrow> (b, buckets)
      | None \<Rightarrow> ([], buckets(tenantID \<mapsto> [])))"

function itoa_loop :: "int \<Rightarrow> string \<Rightarrow> string" where
  "itoa_loop n buf = (if n > 0 then itoa_loop (n sdiv 10) (char_of (nat (48 + n smod 10)) # buf) else buf)"
  by auto
termination
  by (relation "measure (\<lambda>(n, _). nat n)")
    (auto simp: sdiv_pos intro!: int_div_less_self)

declare itoa_loop.simps [simp del]

definition itoa :: "int \<Rightarrow> string" where
  "itoa n =
     (if n = 0 then ''0''
      else
        let neg = n < 0; n = (if neg then i64 (- n) else n); buf = itoa_loop n []
        in if neg then CHR ''-'' # buf else buf)"

definition Limiter_Middleware :: "env \<Rightarrow> middleware" where
  "Limiter_Middleware env next = (\<lambda>r (w, rs).
     let tenantID = TenantFromCtx (rq_ctx r) in
     if tenantID = [] then writeError (e_clock env) 401 ''UNAUTHENTICATED'' ''missing tenant'' (w, rs)
     else
       let (store, w) = sense (e_limits env) w in
       case store tenantID of
         Inl err \<Rightarrow> writeError (e_clock env) 500 ''INTERNAL'' ''rate limiter store error'' (w, rs)
       | Inr tenant \<Rightarrow>
           let (_, buckets) = bucket tenantID (g_buckets w);
               w = w\<lparr>g_buckets := buckets\<rparr>;
               (now, w) = sense (e_clock env) w;
               (ok, ring) = allowed now (RateLimit tenant) defaultWindow (the (g_buckets w tenantID));
               w = w\<lparr>g_buckets := (g_buckets w)(tenantID \<mapsto> ring)\<rparr>
           in if \<not> ok then
                writeError (e_clock env) 429 ''RATE_LIMITED'' ''quota exceeded; see X-RateLimit-Limit header''
                  (w, set_header ''Retry-After'' ''60'' (set_header ''X-RateLimit-Limit'' (itoa (RateLimit tenant)) rs))
              else
                let remaining = i64 (RateLimit tenant - int (length (the (g_buckets w tenantID))));
                    rs = set_header ''X-RateLimit-Limit'' (itoa (RateLimit tenant)) rs;
                    rs = set_header ''X-RateLimit-Remaining'' (itoa remaining) rs;
                    rs = set_header ''X-RateLimit-Window'' ''60s'' rs
                in next r (w, rs))"

section \<open>Observability\<close>

definition hex_nat_digit :: "nat \<Rightarrow> char" where
  "hex_nat_digit n = hex_digit (n mod 16)"

fun nat_hex :: "nat \<Rightarrow> string" where
  "nat_hex n = (if n < 16 then [hex_nat_digit n] else nat_hex (n div 16) @ [hex_nat_digit n])"

declare nat_hex.simps [simp del]

text \<open>\<open>strconv.FormatInt(_, 16)\<close>, and \<open>UnixNano\<close>.\<close>

definition int_hex :: "int \<Rightarrow> string" where
  "int_hex n = (if n < 0 then CHR ''-'' # nat_hex (nat (- n)) else nat_hex (nat n))"

definition time_UnixNano :: "time \<Rightarrow> int" where
  "time_UnixNano t = i64 (t - unix_epoch * second)"

definition generateTraceID :: "env \<Rightarrow> world \<Rightarrow> string \<times> world" where
  "generateTraceID env w =
     (let (rnd, w) = sense (e_rand env) w in
      case rnd of
        None \<Rightarrow> (let (now, w) = sense (e_clock env) w in (hex_encode (map of_char (int_hex (time_UnixNano now))), w))
      | Some b \<Rightarrow> (hex_encode b, w))"

definition push_recorder :: "response \<Rightarrow> response" where
  "push_recorder rs = rs\<lparr>rs_recorders := 200 # rs_recorders rs\<rparr>"

definition pop_recorder :: "response \<Rightarrow> response" where
  "pop_recorder rs = rs\<lparr>rs_recorders := tl (rs_recorders rs)\<rparr>"

definition Observability_Middleware :: "env \<Rightarrow> middleware" where
  "Observability_Middleware env next = (\<lambda>r (w, rs).
     let (start, w) = sense (e_clock env) w;
         given = header_Get (rq_Header r) ''X-Trace-Id'';
         (traceID, w) = (if given = [] then generateTraceID env w else (given, w));
         ctx = (rq_ctx r)(ctxTraceID \<mapsto> CString traceID);
         rs = set_header ''X-Trace-Id'' traceID rs;
         (w, rs) = next (r\<lparr>rq_ctx := ctx\<rparr>) (w, push_recorder rs);
         (now, w) = sense (e_clock env) w;
         latencyMs = duration_Milliseconds (time_sub now start);
         tenantID = TenantFromCtx ctx;
         status = hd (rs_recorders rs);
         w = (if tenantID \<noteq> [] then w\<lparr>g_metrics := record_for tenantID status latencyMs (g_metrics w)\<rparr> else w);
         entry = \<lparr>lg_trace_id = traceID, lg_tenant_id = tenantID, lg_user_id = UserFromCtx ctx,
           lg_method = rq_Method r, lg_path = rq_Path r, lg_status = status, lg_latency_ms = latencyMs,
           lg_user_agent = header_Get (rq_Header r) ''User-Agent'', lg_remote_ip = remoteIP r\<rparr>
     in (w\<lparr>g_log := g_log w @ [entry]\<rparr>, pop_recorder rs))"

section \<open>The chain\<close>

text \<open>
  \<open>Gateway\<close> holds the layers by what their \<open>Middleware\<close> method does, the tenant store (its \<open>Get\<close> at
  every moment) and the upstream.
\<close>

record gateway =
  gw_obs :: middleware
  gw_authn :: middleware
  gw_limiter :: middleware
  gw_authz :: middleware
  gw_tenants :: "nat \<Rightarrow> string \<Rightarrow> string + tenant"
  gw_proxy :: handler

definition NewGateway ::
  "middleware \<Rightarrow> middleware \<Rightarrow> middleware \<Rightarrow> middleware \<Rightarrow> (nat \<Rightarrow> string \<Rightarrow> string + tenant) \<Rightarrow> handler \<Rightarrow> gateway" where
  "NewGateway obs authn limiter authz tenants upstream =
     \<lparr>gw_obs = obs, gw_authn = authn, gw_limiter = limiter, gw_authz = authz, gw_tenants = tenants,
      gw_proxy = upstream\<rparr>"

definition tenantMiddleware :: "gateway \<Rightarrow> middleware" where
  "tenantMiddleware g next = (\<lambda>r (w, rs).
     let tenantID = TenantFromCtx (rq_ctx r); (store, w) = sense (gw_tenants g) w in
     case store tenantID of
       Inl err \<Rightarrow> (w, http_Error ''tenant not found'' 401 rs)
     | Inr tenant \<Rightarrow> next (r\<lparr>rq_ctx := (rq_ctx r)(ctxTenantID \<mapsto> CString (t_ID tenant))\<rparr>) (w, rs))"

definition Gateway_Handler :: "gateway \<Rightarrow> handler" where
  "Gateway_Handler g =
     Build (gw_proxy g) [gw_obs g, gw_authn g, tenantMiddleware g, gw_limiter g, gw_authz g]"

text \<open>The upstream may answer anything (\<open>up\<close>); that it received the request is recorded.\<close>

definition upstream :: "(request \<Rightarrow> response \<Rightarrow> response) \<Rightarrow> handler" where
  "upstream up = (\<lambda>r (w, rs). (w\<lparr>g_forwarded := g_forwarded w @ [r]\<rparr>, up r rs))"

text \<open>The gateway of an environment, and its handler.\<close>

definition gateway_of :: "env \<Rightarrow> (request \<Rightarrow> response \<Rightarrow> response) \<Rightarrow> gateway" where
  "gateway_of env up =
     NewGateway (Observability_Middleware env) (AuthN_Middleware env) (Limiter_Middleware env)
       (AuthZ_Middleware env) (e_tenants env) (upstream up)"

definition Handler :: "env \<Rightarrow> (request \<Rightarrow> response \<Rightarrow> response) \<Rightarrow> handler" where
  "Handler env up = Gateway_Handler (gateway_of env up)"

lemma gateway_of_simps [simp]:
  "gw_tenants (gateway_of env up) = e_tenants env" "gw_obs (gateway_of env up) = Observability_Middleware env"
  "gw_authn (gateway_of env up) = AuthN_Middleware env" "gw_limiter (gateway_of env up) = Limiter_Middleware env"
  "gw_authz (gateway_of env up) = AuthZ_Middleware env" "gw_proxy (gateway_of env up) = upstream up"
  by (simp_all add: gateway_of_def NewGateway_def)

section \<open>The limiter is a sliding window\<close>

definition ring_Allow :: "int \<Rightarrow> duration \<Rightarrow> time \<Rightarrow> time list \<Rightarrow> (bool \<times> time list) option" where
  "ring_Allow limit window now ring = Some (allowed now limit window ring)"

definition ring_window :: "int \<Rightarrow> duration \<Rightarrow> time list \<Rightarrow> sliding_window" where
  "ring_window limit window ring = \<lparr>sw_limit = limit, sw_windowSize = window, sw_timestamps = ring\<rparr>"

lemma allowed_sw_Allow:
  "sw_Allow now (ring_window limit window ring) =
     Some (fst (allowed now limit window ring), ring_window limit window (snd (allowed now limit window ring)))"
  by (simp add: sw_Allow_def allowed_def ring_window_def Let_def)

definition ring_inv :: "int \<Rightarrow> duration \<Rightarrow> time \<Rightarrow> time list \<Rightarrow> time list \<Rightarrow> bool" where
  "ring_inv L W now gs ring \<longleftrightarrow> sw_inv L W now gs (ring_window L W ring)"

lemma ring_Allow_inv:
  assumes "ring_inv L W now gs ring" and "now \<le> t"
  shows "\<exists>ok ring'. ring_Allow L W t ring = Some (ok, ring') \<and> ring_inv L W t (if ok then gs @ [t] else gs) ring'"
proof -
  obtain ok ring' where a: "allowed t L W ring = (ok, ring')" by fastforce
  then have "sw_Allow t (ring_window L W ring) = Some (ok, ring_window L W ring')"
    by (simp add: allowed_sw_Allow)
  with sw_Allow_inv [of L W now gs "ring_window L W ring" t] assms
  have "ring_inv L W t (if ok then gs @ [t] else gs) ring'" by (auto simp: ring_inv_def)
  with a show ?thesis by (auto simp: ring_Allow_def)
qed

interpretation ring_limit: rate_limiter "ring_Allow L W" "ring_inv L W" "\<lambda>_. True" "sw_bounded L W" for L W
  by unfold_locales (rule ring_Allow_inv, auto simp: ring_inv_def sw_inv_def)

section \<open>itoa\<close>

lemma digit_smod: "0 \<le> n \<Longrightarrow> char_of (nat (48 + n smod 10)) = digit (nat n mod 10)"
proof -
  assume n: "0 \<le> n"
  then have "n smod 10 = int (nat n mod 10)"
    by (cases "n = 0") (simp_all add: signed_modulo_int_def zmod_int)
  then have "nat (48 + n smod 10) = 48 + nat n mod 10" by (simp add: nat_add_distrib)
  then show ?thesis by (simp only: digit_def)
qed

lemma itoa_loop_dec: "0 < n \<Longrightarrow> itoa_loop n buf = nat_dec (nat n) @ buf"
proof (induction n buf rule: itoa_loop.induct)
  case (1 n buf)
  have div: "n sdiv 10 = int (nat n div 10)" using 1(2) by (simp add: sdiv_pos zdiv_int)
  show ?case
  proof (cases "n < 10")
    case True
    then have "nat n div 10 = 0" "nat n mod 10 = nat n" "nat n < 10" using 1(2) by auto
    then show ?thesis
      using 1(2) div by (simp add: itoa_loop.simps [of n] itoa_loop.simps [of 0] digit_smod nat_dec.simps [of "nat n"])
  next
    case False
    then have "0 < n sdiv 10" and "\<not> nat n < 10" unfolding div by simp_all
    from 1(1) [OF 1(2) this(1)] this(2) show ?thesis
      using 1(2) div by (simp add: itoa_loop.simps [of n] digit_smod nat_dec.simps [of "nat n"])
  qed
qed

lemma itoa_int_dec: "- (2 ^ 63) < n \<Longrightarrow> n < 2 ^ 63 \<Longrightarrow> itoa n = int_dec n"
proof -
  assume n: "- (2 ^ 63) < n" "n < 2 ^ 63"
  then have "n < 0 \<Longrightarrow> i64 (- n) = - n" by (intro i64_id) (simp add: in_i64_def)
  moreover have "nat_dec 0 = ''0''" by code_simp
  ultimately show ?thesis by (auto simp: itoa_def int_dec_def Let_def itoa_loop_dec)
qed

end
