(* ===== verification/GatewayChain.thy ===== *)
theory GatewayChain
  imports Gateway
begin

text \<open>
  What one request does to the gateway, layer by layer from the upstream outwards: it is either
  refused with a status, or forwarded once after every check has passed; and it touches only
  the ring of its own tenant.
\<close>

section \<open>The checks\<close>

definition ring_of :: "world \<Rightarrow> string \<Rightarrow> time list" where
  "ring_of w tid = (case g_buckets w tid of None \<Rightarrow> [] | Some b \<Rightarrow> b)"

text \<open>The policies grant, at some moment, a role of \<open>c\<close> what the route requires.\<close>

definition authorised :: "env \<Rightarrow> claims \<Rightarrow> request \<Rightarrow> bool" where
  "authorised env c r \<longleftrightarrow>
     requiredPermission r = [] \<or>
     (\<exists>n. \<exists>rid \<in> set (cl_Roles c). \<exists>p \<in> set (e_policies env n (cl_TenantID c) rid).
        matchPermission p (requiredPermission r))"

text \<open>At some moment the ring of the tenant has room under the quota its record gives.\<close>

definition within_quota :: "env \<Rightarrow> world \<Rightarrow> string \<Rightarrow> bool" where
  "within_quota env w tid \<longleftrightarrow>
     (\<exists>n k t. e_limits env n tid = Inr t \<and>
        fst (allowed (e_clock env k) (RateLimit t) defaultWindow (ring_of w tid)))"

definition refused :: "world \<Rightarrow> response \<Rightarrow> world \<times> response \<Rightarrow> bool" where
  "refused w rs s' \<longleftrightarrow>
     g_forwarded (fst s') = g_forwarded w \<and>
     (\<exists>st \<in> {401, 403, 429, 500}. rs_status (snd s') = Some st \<and>
        rs_recorders (snd s') = map (\<lambda>_. st) (rs_recorders rs))"

definition same_request :: "request \<Rightarrow> request \<Rightarrow> bool" where
  "same_request r r' \<longleftrightarrow>
     rq_Method r' = rq_Method r \<and> rq_Path r' = rq_Path r \<and> rq_Header r' = rq_Header r \<and>
     rq_RemoteAddr r' = rq_RemoteAddr r"

lemma requiredPermission_cong:
  "rq_Method r' = rq_Method r \<Longrightarrow> rq_Path r' = rq_Path r \<Longrightarrow> requiredPermission r' = requiredPermission r"
proof -
  assume "rq_Method r' = rq_Method r" "rq_Path r' = rq_Path r"
  then have "best_rule rules r' b = best_rule rules r b" for rules b
    by (induction rules r b rule: best_rule.induct) auto
  then show ?thesis by (simp add: requiredPermission_def)
qed

lemma requiredPermission_ctx [simp]: "requiredPermission (r\<lparr>rq_ctx := ctx\<rparr>) = requiredPermission r"
  by (rule requiredPermission_cong) simp_all

lemma authorised_ctx [simp]: "authorised env c (r\<lparr>rq_ctx := ctx\<rparr>) = authorised env c r"
  by (simp add: authorised_def)

section \<open>Layer by layer\<close>

lemma refused_error:
  assumes "rs_status rs = None" and "st \<in> {401, 403, 429, 500}" and "g_forwarded w1 = g_forwarded w"
    and "rs_status rs1 = rs_status rs" and "rs_recorders rs1 = rs_recorders rs"
  shows "refused w rs (writeError clock st code msg (w1, rs1))"
  using assms by (auto simp: refused_def)

definition authz_post :: "env \<Rightarrow> request \<Rightarrow> world \<Rightarrow> response \<Rightarrow> world \<times> response \<Rightarrow> bool" where
  "authz_post env r w rs s' \<longleftrightarrow>
     g_buckets (fst s') = g_buckets w \<and> g_metrics (fst s') = g_metrics w \<and> g_log (fst s') = g_log w \<and>
     (refused w rs s' \<or>
      g_forwarded (fst s') = g_forwarded w @ [r] \<and>
        (\<exists>c. rq_ctx r ctxClaims = Some (CClaims c) \<and> authorised env c r))"

lemma authz_layer:
  assumes "rs_status rs = None"
  shows "authz_post env r w rs (AuthZ_Middleware env (upstream up) r (w, rs))"
proof (cases "ClaimsFromCtx (rq_ctx r)")
  case None
  then show ?thesis
    using refused_error [OF assms, of 403 w w rs] by (simp add: authz_post_def AuthZ_Middleware_def)
next
  case (Some c)
  then have c: "rq_ctx r ctxClaims = Some (CClaims c)"
    by (auto simp: ClaimsFromCtx_def split: option.splits ctx_value.splits)
  obtain g k where h: "hasPermission (e_policies env) (cl_TenantID c) (cl_Roles c) (requiredPermission r) w =
      (g, w\<lparr>g_tick := g_tick w + k\<rparr>)"
    using hasPermission_world by (metis prod.collapse)
  let ?w = "w\<lparr>g_tick := g_tick w + k\<rparr>"
  have "refused w rs (writeError (e_clock env) 403 code msg (?w, rs))" for code msg
    using assms by (intro refused_error) simp_all
  moreover have "g \<Longrightarrow> authorised env c r"
    using hasPermission_grant [of "e_policies env" "cl_TenantID c" "cl_Roles c" "requiredPermission r" w] h
    by (auto simp: authorised_def)
  ultimately show ?thesis
    using Some c h by (auto simp: authz_post_def AuthZ_Middleware_def upstream_def authorised_def Let_def)
qed

definition limiter_post :: "env \<Rightarrow> request \<Rightarrow> world \<Rightarrow> response \<Rightarrow> world \<times> response \<Rightarrow> bool" where
  "limiter_post env r w rs s' \<longleftrightarrow>
     (\<forall>tid. tid \<noteq> TenantFromCtx (rq_ctx r) \<longrightarrow> g_buckets (fst s') tid = g_buckets w tid) \<and>
     g_metrics (fst s') = g_metrics w \<and> g_log (fst s') = g_log w \<and>
     (refused w rs s' \<or>
      g_forwarded (fst s') = g_forwarded w @ [r] \<and> within_quota env w (TenantFromCtx (rq_ctx r)) \<and>
        (\<exists>c. rq_ctx r ctxClaims = Some (CClaims c) \<and> authorised env c r))"

lemma bucket_ring: "bucket tid (g_buckets w) = (ring_of w tid, (g_buckets w)(tid \<mapsto> ring_of w tid))"
  by (auto simp: bucket_def ring_of_def split: option.splits)

lemma limiter_layer:
  assumes rs: "rs_status rs = None"
  shows "limiter_post env r w rs (Limiter_Middleware env (AuthZ_Middleware env (upstream up)) r (w, rs))"
proof -
  let ?tid = "TenantFromCtx (rq_ctx r)" and ?next = "AuthZ_Middleware env (upstream up)"
  let ?store = "e_limits env (g_tick w) ?tid"
  consider (none) "?tid = []" | (err) e where "?tid \<noteq> []" "?store = Inl e"
    | (ok) t where "?tid \<noteq> []" "?store = Inr t" by (cases ?store) auto
  then show ?thesis
  proof cases
    case none
    then show ?thesis
      using refused_error [OF rs, of 401 w w rs] by (simp add: limiter_post_def Limiter_Middleware_def Let_def)
  next
    case err
    then show ?thesis
      using refused_error [OF rs, of 500 "w\<lparr>g_tick := Suc (g_tick w)\<rparr>" w rs]
      by (simp add: limiter_post_def Limiter_Middleware_def sense_def Let_def)
  next
    case ok
    let ?now = "e_clock env (Suc (g_tick w))"
    obtain q ring where a: "allowed ?now (RateLimit t) defaultWindow (ring_of w ?tid) = (q, ring)" by fastforce
    let ?w = "w\<lparr>g_tick := Suc (Suc (g_tick w)), g_buckets := (g_buckets w)(?tid \<mapsto> ring)\<rparr>"
    let ?rs1 = "set_header ''X-RateLimit-Window'' ''60s'' (set_header ''X-RateLimit-Remaining''
      (itoa (i64 (RateLimit t - int (length ring)))) (set_header ''X-RateLimit-Limit'' (itoa (RateLimit t)) rs))"
    let ?rs2 = "set_header ''Retry-After'' ''60'' (set_header ''X-RateLimit-Limit'' (itoa (RateLimit t)) rs)"
    have w: "w\<lparr>g_tick := Suc (g_tick w), g_buckets := (g_buckets w)(?tid \<mapsto> ring_of w ?tid),
        g_tick := Suc (Suc (g_tick w)), g_buckets := (g_buckets w)(?tid \<mapsto> ring)\<rparr> = ?w"
      by (rule world.equality) simp_all
    have L: "Limiter_Middleware env ?next r (w, rs) =
        (if q then ?next r (?w, ?rs1)
         else writeError (e_clock env) 429 ''RATE_LIMITED'' ''quota exceeded; see X-RateLimit-Limit header'' (?w, ?rs2))"
      using ok a w by (simp add: Limiter_Middleware_def sense_def bucket_ring Let_def)
    show ?thesis
    proof (cases q)
      case True
      have "within_quota env w ?tid" using ok a True unfolding within_quota_def by (metis fst_conv)
      moreover have "authz_post env r ?w ?rs1 (?next r (?w, ?rs1))" using rs by (intro authz_layer) simp
      ultimately show ?thesis
        using True by (auto simp: L limiter_post_def authz_post_def refused_def)
    next
      case False
      have "refused w rs (writeError (e_clock env) 429 code msg (?w, ?rs2))" for code msg
        using rs by (intro refused_error) simp_all
      with False show ?thesis by (auto simp: L limiter_post_def)
    qed
  qed
qed

text \<open>The request as the checked tenant's layers see it.\<close>

definition tenant_post :: "env \<Rightarrow> request \<Rightarrow> world \<Rightarrow> response \<Rightarrow> world \<times> response \<Rightarrow> bool" where
  "tenant_post env r w rs s' \<longleftrightarrow>
     g_metrics (fst s') = g_metrics w \<and> g_log (fst s') = g_log w \<and>
     (g_buckets (fst s') = g_buckets w \<and> refused w rs s' \<or>
      (\<exists>n t. e_tenants env n (TenantFromCtx (rq_ctx r)) = Inr t \<and>
         (\<forall>tid. tid \<noteq> t_ID t \<longrightarrow> g_buckets (fst s') tid = g_buckets w tid) \<and>
         (refused w rs s' \<or>
          g_forwarded (fst s') = g_forwarded w @ [r\<lparr>rq_ctx := (rq_ctx r)(ctxTenantID \<mapsto> CString (t_ID t))\<rparr>] \<and>
            within_quota env w (t_ID t) \<and>
            (\<exists>c. rq_ctx r ctxClaims = Some (CClaims c) \<and> authorised env c r))))"

lemma TenantFromCtx_upd [simp]: "TenantFromCtx (ctx(ctxTenantID \<mapsto> CString v)) = v"
  by (simp add: TenantFromCtx_def ctx_string_def)

lemma tenant_layer:
  assumes rs: "rs_status rs = None"
  shows "tenant_post env r w rs (tenantMiddleware (gateway_of env up) (Limiter_Middleware env (AuthZ_Middleware env (upstream up))) r (w, rs))"
proof (cases "e_tenants env (g_tick w) (TenantFromCtx (rq_ctx r))")
  case (Inl e)
  then show ?thesis
    using rs by (simp add: tenant_post_def tenantMiddleware_def sense_def Let_def refused_def)
next
  case (Inr t)
  let ?w = "w\<lparr>g_tick := Suc (g_tick w)\<rparr>" and ?r = "r\<lparr>rq_ctx := (rq_ctx r)(ctxTenantID \<mapsto> CString (t_ID t))\<rparr>"
  let ?s = "Limiter_Middleware env (AuthZ_Middleware env (upstream up)) ?r (?w, rs)"
  have eq: "tenantMiddleware (gateway_of env up) (Limiter_Middleware env (AuthZ_Middleware env (upstream up))) r (w, rs) = ?s"
    using Inr by (simp add: tenantMiddleware_def sense_def Let_def)
  have q: "within_quota env ?w (t_ID t) \<longleftrightarrow> within_quota env w (t_ID t)" by (simp add: within_quota_def ring_of_def)
  have a: "authorised env c ?r \<longleftrightarrow> authorised env c r" for c
    by simp
  have "limiter_post env ?r ?w rs ?s" by (rule limiter_layer [OF rs])
  then have "(\<forall>tid. tid \<noteq> t_ID t \<longrightarrow> g_buckets (fst ?s) tid = g_buckets w tid) \<and> g_metrics (fst ?s) = g_metrics w \<and>
    g_log (fst ?s) = g_log w \<and> (refused w rs ?s \<or> g_forwarded (fst ?s) = g_forwarded w @ [?r] \<and>
      within_quota env w (t_ID t) \<and> (\<exists>c. rq_ctx r ctxClaims = Some (CClaims c) \<and> authorised env c r))"
    by (simp add: limiter_post_def refused_def q a)
  with Inr show ?thesis unfolding eq tenant_post_def by blast
qed

definition admitted :: "env \<Rightarrow> world \<Rightarrow> request \<Rightarrow> request \<Rightarrow> bool" where
  "admitted env w r r' \<longleftrightarrow>
     (\<exists>c t k n. credential env k r c \<and> e_tenants env n (cl_TenantID c) = Inr t \<and>
        within_quota env w (t_ID t) \<and> authorised env c r \<and> same_request r r' \<and>
        TenantFromCtx (rq_ctx r') = t_ID t \<and> UserFromCtx (rq_ctx r') = cl_Subject c \<and>
        ClaimsFromCtx (rq_ctx r') = Some c)"

definition chain_post :: "env \<Rightarrow> request \<Rightarrow> world \<Rightarrow> response \<Rightarrow> world \<times> response \<Rightarrow> bool" where
  "chain_post env r w rs s' \<longleftrightarrow>
     g_metrics (fst s') = g_metrics w \<and> g_log (fst s') = g_log w \<and>
     (g_buckets (fst s') = g_buckets w \<or>
      (\<exists>c t k n. credential env k r c \<and> e_tenants env n (cl_TenantID c) = Inr t \<and>
         (\<forall>tid. tid \<noteq> t_ID t \<longrightarrow> g_buckets (fst s') tid = g_buckets w tid))) \<and>
     (refused w rs s' \<or> (\<exists>r'. g_forwarded (fst s') = g_forwarded w @ [r'] \<and> admitted env w r r'))"

definition inner_chain :: "env \<Rightarrow> (request \<Rightarrow> response \<Rightarrow> response) \<Rightarrow> handler" where
  "inner_chain env up =
     AuthN_Middleware env (tenantMiddleware (gateway_of env up) (Limiter_Middleware env (AuthZ_Middleware env (upstream up))))"

lemma identified_ctx [simp]:
  "TenantFromCtx (identified ctx c) = cl_TenantID c"
  "identified ctx c ctxClaims = Some (CClaims c)"
  by (simp_all add: identified_def TenantFromCtx_def ctx_string_def)

lemma chain_layer:
  assumes rs: "rs_status rs = None"
  shows "chain_post env r w rs (inner_chain env up r (w, rs))"
proof -
  obtain res w1 where au: "authenticate env r w = (res, w1)" by fastforce
  then obtain j where w1: "w1 = w\<lparr>g_tick := g_tick w + j\<rparr>" using authenticate_world [of env r w] by auto
  show ?thesis
  proof (cases res)
    case (Inl e)
    with au have "inner_chain env up r (w, rs) = writeError (e_clock env) 401 ''UNAUTHENTICATED'' e (w1, rs)"
      by (simp add: inner_chain_def AuthN_Middleware_def)
    then show ?thesis
      using refused_error [OF rs, of 401 w1 w rs] w1 by (simp add: chain_post_def)
  next
    case (Inr ctx)
    then obtain c where c: "credential env (g_tick w) r c" and ctx: "ctx = identified (rq_ctx r) c"
      using authenticate_Inr [of env r w ctx] au by auto
    let ?r = "r\<lparr>rq_ctx := ctx\<rparr>"
    let ?s = "tenantMiddleware (gateway_of env up) (Limiter_Middleware env (AuthZ_Middleware env (upstream up))) ?r (w1, rs)"
    have eq: "inner_chain env up r (w, rs) = ?s"
      using au Inr by (simp add: inner_chain_def AuthN_Middleware_def)
    have q: "within_quota env w1 tid \<longleftrightarrow> within_quota env w tid" for tid by (simp add: within_quota_def ring_of_def w1)
    have a: "authorised env c ?r \<longleftrightarrow> authorised env c r" by simp
    have ref: "refused w1 rs s' \<longleftrightarrow> refused w rs s'" for s' by (simp add: refused_def w1)
    have post: "tenant_post env ?r w1 rs ?s" by (rule tenant_layer [OF rs])
    have fields: "g_metrics w1 = g_metrics w" "g_log w1 = g_log w" "g_buckets w1 = g_buckets w" "g_forwarded w1 = g_forwarded w"
      by (simp_all add: w1)
    have tid: "TenantFromCtx (rq_ctx ?r) = cl_TenantID c" and cl: "rq_ctx ?r ctxClaims = Some (CClaims c)"
      by (simp_all add: ctx)
    have cls: "(\<exists>d. Some (CClaims c) = Some (CClaims d) \<and> authorised env d ?r) \<longleftrightarrow> authorised env c r" by simp
    note post' = post [unfolded tenant_post_def fields ref q tid cl cls]
    then have ml: "g_metrics (fst ?s) = g_metrics w \<and> g_log (fst ?s) = g_log w" by blast
    from post' consider (ref) "g_buckets (fst ?s) = g_buckets w" "refused w rs ?s"
      | (ten) n t where "e_tenants env n (cl_TenantID c) = Inr t"
          "\<forall>tid. tid \<noteq> t_ID t \<longrightarrow> g_buckets (fst ?s) tid = g_buckets w tid"
          "refused w rs ?s \<or> g_forwarded (fst ?s) = g_forwarded w @ [?r\<lparr>rq_ctx := (rq_ctx ?r)(ctxTenantID \<mapsto> CString (t_ID t))\<rparr>] \<and>
             within_quota env w (t_ID t) \<and> authorised env c r"
      by blast
    then show ?thesis
    proof cases
      case ref
      with ml show ?thesis by (simp add: eq chain_post_def)
    next
      case ten
      let ?r' = "?r\<lparr>rq_ctx := (rq_ctx ?r)(ctxTenantID \<mapsto> CString (t_ID t))\<rparr>"
      have "admitted env w r ?r'" if "within_quota env w (t_ID t)" and "authorised env c r"
        unfolding admitted_def
        using c ten(1) that
        by (intro exI conjI) (auto simp: ctx identified_def same_request_def UserFromCtx_def ctx_string_def ClaimsFromCtx_def)
      with ten c ml show ?thesis unfolding eq chain_post_def by blast
    qed
  qed
qed

section \<open>The whole handler\<close>

lemma Handler_unfold: "Handler env up = Observability_Middleware env (inner_chain env up)"
  by (simp add: Handler_def Gateway_Handler_def inner_chain_def)

text \<open>What the outermost layer adds: a trace in the context, one log entry, the metrics of the tenant
  in its own context.\<close>

lemma generateTraceID_world: "\<exists>k. snd (generateTraceID env w) = w\<lparr>g_tick := g_tick w + k\<rparr>"
proof -
  have "snd (generateTraceID env w) = w\<lparr>g_tick := g_tick w + 1\<rparr> \<or> snd (generateTraceID env w) = w\<lparr>g_tick := g_tick w + 2\<rparr>"
    by (simp add: generateTraceID_def sense_def Let_def split: option.splits)
  then show ?thesis by blast
qed

lemma credential_ctx [simp]: "credential env n (r\<lparr>rq_ctx := ctx\<rparr>) c = credential env n r c"
  by (simp add: credential_def Let_def)

lemma admitted_ctx [simp]: "admitted env w (r\<lparr>rq_ctx := ctx\<rparr>) r' = admitted env w r r'"
  by (simp add: admitted_def same_request_def)

lemma observe:
  "\<exists>k traceID rs0 w1 rs1 entry.
     inner_chain env up (r\<lparr>rq_ctx := (rq_ctx r)(ctxTraceID \<mapsto> CString traceID)\<rparr>) (w\<lparr>g_tick := k\<rparr>, rs0) = (w1, rs1) \<and>
     rs_status rs0 = rs_status rs \<and> rs_recorders rs0 = 200 # rs_recorders rs \<and>
     rs_status (snd (Handler env up r (w, rs))) = rs_status rs1 \<and>
     g_forwarded (fst (Handler env up r (w, rs))) = g_forwarded w1 \<and>
     g_buckets (fst (Handler env up r (w, rs))) = g_buckets w1 \<and>
     (TenantFromCtx (rq_ctx r) = [] \<longrightarrow> g_metrics (fst (Handler env up r (w, rs))) = g_metrics w1) \<and>
     g_log (fst (Handler env up r (w, rs))) = g_log w1 @ [entry] \<and>
     lg_tenant_id entry = TenantFromCtx (rq_ctx r) \<and> lg_user_id entry = UserFromCtx (rq_ctx r) \<and>
     lg_status entry = hd (rs_recorders rs1) \<and> lg_method entry = rq_Method r \<and> lg_path entry = rq_Path r"
proof -
  let ?w0 = "w\<lparr>g_tick := Suc (g_tick w)\<rparr>" and ?given = "header_Get (rq_Header r) ''X-Trace-Id''"
  obtain traceID w' where tr: "(if ?given = [] then generateTraceID env ?w0 else (?given, ?w0)) = (traceID, w')" by fastforce
  then obtain k where w': "w' = w\<lparr>g_tick := k\<rparr>"
    using generateTraceID_world [of env ?w0] by (auto split: if_splits)
  let ?ctx = "(rq_ctx r)(ctxTraceID \<mapsto> CString traceID)" and ?rs = "push_recorder (set_header ''X-Trace-Id'' traceID rs)"
  obtain w1 rs1 where n: "inner_chain env up (r\<lparr>rq_ctx := ?ctx\<rparr>) (w\<lparr>g_tick := k\<rparr>, ?rs) = (w1, rs1)" by fastforce
  have ids: "TenantFromCtx ?ctx = TenantFromCtx (rq_ctx r)" "UserFromCtx ?ctx = UserFromCtx (rq_ctx r)"
    by (simp_all add: TenantFromCtx_def UserFromCtx_def ctx_string_def)
  let ?e = "\<lparr>lg_trace_id = traceID, lg_tenant_id = TenantFromCtx ?ctx, lg_user_id = UserFromCtx ?ctx,
    lg_method = rq_Method r, lg_path = rq_Path r, lg_status = hd (rs_recorders rs1),
    lg_latency_ms = duration_Milliseconds (time_sub (e_clock env (g_tick w1)) (e_clock env (g_tick w))),
    lg_user_agent = header_Get (rq_Header r) ''User-Agent'', lg_remote_ip = remoteIP r\<rparr>"
  let ?w1 = "w1\<lparr>g_tick := Suc (g_tick w1)\<rparr>"
  let ?w2 = "if TenantFromCtx ?ctx \<noteq> [] then ?w1\<lparr>g_metrics := record_for (TenantFromCtx ?ctx) (hd (rs_recorders rs1))
    (lg_latency_ms ?e) (g_metrics ?w1)\<rparr> else ?w1"
  have H: "Handler env up r (w, rs) = (?w2\<lparr>g_log := g_log ?w2 @ [?e]\<rparr>, pop_recorder rs1)"
    by (simp only: Handler_unfold Observability_Middleware_def sense_def Let_def prod.case tr w' n log_entry.simps)
  have "g_forwarded ?w2 = g_forwarded w1" "g_buckets ?w2 = g_buckets w1" "g_log ?w2 = g_log w1"
    "TenantFromCtx (rq_ctx r) = [] \<longrightarrow> g_metrics ?w2 = g_metrics w1"
    by (simp_all add: ids)
  then show ?thesis
    by (intro exI [of _ k] exI [of _ traceID] exI [of _ ?rs] exI [of _ w1] exI [of _ rs1] exI [of _ ?e] conjI)
      (simp_all only: n H fst_conv snd_conv, simp_all add: ids push_recorder_def pop_recorder_def)
qed

end
