(* ===== verification/GatewayProperties.thy ===== *)
theory GatewayProperties
  imports GatewayChain
begin

text \<open>
  The properties of the API gateway: what reaches the upstream, what one tenant's requests can
  touch, what the credentials and permissions mean, the quota, and what is observed.
\<close>

section \<open>A gateway to try\<close>

definition sample_tenants :: mem_tenants where
  "sample_tenants = NewMemTenantStore
     [\<lparr>t_ID = ''t1'', t_Slug = ''acme'', t_Plan = PlanFree, t_Enabled = True, t_CreatedAt = 0, t_RateLimitOverride = 2\<rparr>]"

text \<open>The hash is the identity and the decoder knows no token: enough for API keys.\<close>

definition sample_clock :: "nat \<Rightarrow> time" where
  "sample_clock n = 70000000000000000000 + int n * second"

definition sample_random :: "nat \<Rightarrow> nat list option" where
  "sample_random n = Some [n, 255]"

definition sample_hash :: "string \<Rightarrow> nat list" where
  "sample_hash s = map of_char s"

definition sample_hmac :: "string \<Rightarrow> string \<Rightarrow> nat list" where
  "sample_hmac key s = map of_char s"

definition sample_unmarshal :: "string \<Rightarrow> claims option" where
  "sample_unmarshal s = None"

definition sample_keys :: "nat \<Rightarrow> api_keys" where
  "sample_keys n = key_Register sample_hash ''sk_v'' \<lparr>ak_TenantID = ''t1'', ak_UserID = ''u1'', ak_Roles = [''viewer'']\<rparr>
     (key_Register sample_hash ''sk_n'' \<lparr>ak_TenantID = ''t1'', ak_UserID = ''u2'', ak_Roles = []\<rparr> NewAPIKeyStore)"

definition sample_Get :: "nat \<Rightarrow> string \<Rightarrow> string + tenant" where
  "sample_Get n = tenant_Get sample_tenants"

definition sample_policies :: "nat \<Rightarrow> string \<Rightarrow> string \<Rightarrow> permission list" where
  "sample_policies n = RolePermissions NewMemPolicyStore"

definition sample_env :: env where
  "sample_env =
     \<lparr>e_clock = sample_clock, e_rand = sample_random, e_sha256 = sample_hash, e_hmac = sample_hmac,
      e_unmarshal = sample_unmarshal, e_jwt = NewJWTVerifier ''secret'' ''idp'' ''gateway'',
      e_keys = sample_keys, e_tenants = sample_Get, e_limits = sample_Get, e_policies = sample_policies\<rparr>"

definition empty_world :: world where
  "empty_world = \<lparr>g_buckets = (\<lambda>_. None), g_metrics = NewMetricsRegistry, g_log = [], g_tick = 0, g_forwarded = []\<rparr>"

definition fresh_response :: response where
  "fresh_response = \<lparr>rs_Header = (\<lambda>_. None), rs_status = None, rs_body = [], rs_recorders = []\<rparr>"

definition sample_request :: "string \<Rightarrow> string \<Rightarrow> request" where
  "sample_request method key =
     \<lparr>rq_Method = method, rq_Path = ''/api/invoices'', rq_Header = [''Authorization'' \<mapsto> [''ApiKey '' @ key]],
      rq_RemoteAddr = ''10.0.0.1:9'', rq_ctx = (\<lambda>_. None)\<rparr>"

definition sample_answer :: "request \<Rightarrow> world \<times> response" where
  "sample_answer r = Handler sample_env (\<lambda>r rs. Write ''ok'' rs) r (empty_world, fresh_response)"

section \<open>Properties\<close>

text \<open>C20. Whatever the upstream, the stores and the clock do, a request either gets 401, 403, 429 or
  500 and never reaches the upstream, or reaches it exactly once after all checks passed: its
  credential proved claims, the tenant they name was found, the tenant's ring had room, and a role
  in the claims is granted what the route requires; and the upstream sees that tenant, that user and
  those claims in the context.\<close>

theorem gateway_forwards_only_admitted:
  assumes "rs_status rs = None" and "Handler env up r (w, rs) = (w', rs')"
  shows "(g_forwarded w' = g_forwarded w \<and> rs_status rs' \<in> {Some 401, Some 403, Some 429, Some 500}) \<or>
    (\<exists>r'. g_forwarded w' = g_forwarded w @ [r'] \<and> admitted env w r r')"
proof -
  obtain k traceID rs0 w1 rs1 where
    n: "inner_chain env up (r\<lparr>rq_ctx := (rq_ctx r)(ctxTraceID \<mapsto> CString traceID)\<rparr>) (w\<lparr>g_tick := k\<rparr>, rs0) = (w1, rs1)"
    and rs0: "rs_status rs0 = rs_status rs" and st: "rs_status rs' = rs_status rs1"
    and fw: "g_forwarded w' = g_forwarded w1"
    using observe [of env up r w rs] assms(2) by auto
  have q: "within_quota env (w\<lparr>g_tick := k\<rparr>) tid \<longleftrightarrow> within_quota env w tid" for tid
    by (simp add: within_quota_def ring_of_def)
  have "admitted env (w\<lparr>g_tick := k\<rparr>) r r' \<longleftrightarrow> admitted env w r r'" for r' by (simp add: admitted_def q)
  with chain_layer [of rs0 env "r\<lparr>rq_ctx := (rq_ctx r)(ctxTraceID \<mapsto> CString traceID)\<rparr>" "w\<lparr>g_tick := k\<rparr>" up] n rs0 assms(1) st fw
  show ?thesis by (auto simp: chain_post_def refused_def)
qed

theorem gateway_forwards_only_admitted_witness:
  "length (g_forwarded (fst (sample_answer (sample_request ''GET'' ''sk_v'')))) = 1 \<and>
   (\<exists>r'. admitted sample_env empty_world (sample_request ''GET'' ''sk_v'') r') \<and>
   rs_status (snd (sample_answer (sample_request ''DELETE'' ''sk_v''))) = Some 403"
proof -
  have 1: "length (g_forwarded (fst (sample_answer (sample_request ''GET'' ''sk_v'')))) = 1" by code_simp
  have 2: "rs_status (snd (sample_answer (sample_request ''DELETE'' ''sk_v''))) = Some 403" by code_simp
  obtain w' rs' where s: "sample_answer (sample_request ''GET'' ''sk_v'') = (w', rs')" by fastforce
  have "\<exists>r'. admitted sample_env empty_world (sample_request ''GET'' ''sk_v'') r'"
    using gateway_forwards_only_admitted [OF _ s [unfolded sample_answer_def]] 1 s
    by (auto simp: fresh_response_def empty_world_def)
  with 1 2 show ?thesis by blast
qed

text \<open>C21. Tenants are isolated: with the in-memory store, however it is updated meanwhile, the only ring
  a request can change is that of the tenant its own credential proves.  Nobody can use up, or
  free, the quota of another tenant.\<close>

theorem requests_touch_own_tenant_only:
  assumes "rs_status rs = None" and "Handler env up r (w, rs) = (w', rs')"
    and "e_tenants env = (\<lambda>n. tenant_Get (h n))" and "h 0 = NewMemTenantStore seeds"
    and "\<And>n. h (Suc n) = h n \<or> (\<exists>t. h (Suc n) = Upsert t (h n))"
    and "g_buckets w' tid \<noteq> g_buckets w tid"
  shows "\<exists>c k. credential env k r c \<and> tid = cl_TenantID c"
proof -
  obtain k traceID rs0 w1 rs1 where
    n: "inner_chain env up (r\<lparr>rq_ctx := (rq_ctx r)(ctxTraceID \<mapsto> CString traceID)\<rparr>) (w\<lparr>g_tick := k\<rparr>, rs0) = (w1, rs1)"
    and rs0: "rs_status rs0 = rs_status rs" and b: "g_buckets w' = g_buckets w1"
    using observe [of env up r w rs] assms(2) by auto
  from chain_layer [of rs0 env "r\<lparr>rq_ctx := (rq_ctx r)(ctxTraceID \<mapsto> CString traceID)\<rparr>" "w\<lparr>g_tick := k\<rparr>" up] n rs0 assms(1)
  have "g_buckets w1 = g_buckets w \<or>
    (\<exists>c t k n. credential env k r c \<and> e_tenants env n (cl_TenantID c) = Inr t \<and>
       (\<forall>tid. tid \<noteq> t_ID t \<longrightarrow> g_buckets w1 tid = g_buckets w tid))"
    by (simp add: chain_post_def)
  then obtain c t k n where c: "credential env k r c" and t: "tenant_Get (h n) (cl_TenantID c) = Inr t"
    and "\<forall>tid. tid \<noteq> t_ID t \<longrightarrow> g_buckets w1 tid = g_buckets w tid"
    using assms(3,6) b by auto
  then have "tid = t_ID t" using assms(6) b by auto
  moreover have "mem_tenants_inv (h 0)" using NewMemTenantStore_inv assms(4) by simp
  then have "t_ID t = cl_TenantID c" using mem_store.Get_history_ok [of h, OF _ assms(5) t] by simp
  ultimately show ?thesis using c by blast
qed

theorem requests_touch_own_tenant_only_witness:
  "g_buckets (fst (sample_answer (sample_request ''GET'' ''sk_v''))) ''t1'' \<noteq> None \<and>
   (\<exists>c k. credential sample_env k (sample_request ''GET'' ''sk_v'') c \<and> ''t1'' = cl_TenantID c)"
proof -
  have 1: "g_buckets (fst (sample_answer (sample_request ''GET'' ''sk_v''))) ''t1'' \<noteq> None" by code_simp
  obtain w' rs' where s: "sample_answer (sample_request ''GET'' ''sk_v'') = (w', rs')" by fastforce
  have "\<exists>c k. credential sample_env k (sample_request ''GET'' ''sk_v'') c \<and> ''t1'' = cl_TenantID c"
  proof (rule requests_touch_own_tenant_only [OF _ s [unfolded sample_answer_def]])
    show "rs_status fresh_response = None" by (simp add: fresh_response_def)
    show "e_tenants sample_env = (\<lambda>n. tenant_Get ((\<lambda>_. sample_tenants) n))"
      by (simp add: sample_env_def sample_Get_def fun_eq_iff)
    show "(\<lambda>_ :: nat. sample_tenants) 0 = NewMemTenantStore
      [\<lparr>t_ID = ''t1'', t_Slug = ''acme'', t_Plan = PlanFree, t_Enabled = True, t_CreatedAt = 0, t_RateLimitOverride = 2\<rparr>]"
      by (simp add: sample_tenants_def)
    show "g_buckets w' ''t1'' \<noteq> g_buckets empty_world ''t1''" using 1 s by (simp add: empty_world_def)
  qed simp
  with 1 show ?thesis by blast
qed

text \<open>What each route requires and which grants satisfy it.  Below \<open>/api/\<close> the listed methods need
  a wildcard permission, and only a POST below \<open>/api/billing/\<close> needs the billing permission; every
  other method and path needs none.  A grant on a single resource, such as \<open>invoices:read\<close>,
  satisfies no route.\<close>

theorem route_permissions:
  "requiredPermission r =
     (if \<not> go_HasPrefix (rq_Path r) ''/api/'' then []
      else if rq_Method r = ''GET'' then ''*:read''
      else if rq_Method r = ''POST'' then (if go_HasPrefix (rq_Path r) ''/api/billing/'' then ''billing:admin'' else ''*:write'')
      else if rq_Method r \<in> {''PUT'', ''PATCH''} then ''*:write''
      else if rq_Method r = ''DELETE'' then ''*:delete''
      else []) \<and>
   (matchPermission g ''*:read'' \<longleftrightarrow> g \<in> {''*:read'', ''*:*''}) \<and>
   (matchPermission g ''*:write'' \<longleftrightarrow> g \<in> {''*:write'', ''*:*''}) \<and>
   (matchPermission g ''*:delete'' \<longleftrightarrow> g \<in> {''*:delete'', ''*:*''}) \<and>
   (matchPermission g ''billing:admin'' \<longleftrightarrow> g \<in> {''billing:admin'', ''billing:*'', ''*:admin'', ''*:*''})"
proof -
  have b: "go_HasPrefix s ''/api/''" if "go_HasPrefix s ''/api/billing/''" for s
  proof -
    have "take (length ''/api/'') s = take (length ''/api/'') (take (length ''/api/billing/'') s)"
      by (simp add: take_take)
    also have "take (length ''/api/billing/'') s = ''/api/billing/''" using that by (simp only: go_HasPrefix_def)
    finally show ?thesis by (simp add: go_HasPrefix_def)
  qed
  have 1: "requiredPermission r =
     (if \<not> go_HasPrefix (rq_Path r) ''/api/'' then []
      else if rq_Method r = ''GET'' then ''*:read''
      else if rq_Method r = ''POST'' then (if go_HasPrefix (rq_Path r) ''/api/billing/'' then ''billing:admin'' else ''*:write'')
      else if rq_Method r \<in> {''PUT'', ''PATCH''} then ''*:write''
      else if rq_Method r = ''DELETE'' then ''*:delete''
      else [])"
    using b [of "rq_Path r"]
    by (auto simp: requiredPermission_def routePermissions_def PermRead_def PermWrite_def PermDelete_def PermBilling_def)
  show ?thesis
    using 1 matchPermission_colon [of "''*''" g "''read''"] matchPermission_colon [of "''*''" g "''write''"]
      matchPermission_colon [of "''*''" g "''delete''"] matchPermission_colon [of "''billing''" g "''admin''"]
    by simp blast
qed

text \<open>A method the table does not list needs no permission even below \<open>/api/\<close>: a user without
  any role is refused a GET with 403, but a HEAD (or any other method) of the same path is
  forwarded to the upstream.\<close>

theorem unlisted_method_unprotected:
  "rs_status (snd (sample_answer (sample_request ''GET'' ''sk_n''))) = Some 403 \<and>
   g_forwarded (fst (sample_answer (sample_request ''GET'' ''sk_n''))) = [] \<and>
   map rq_Method (g_forwarded (fst (sample_answer (sample_request ''HEAD'' ''sk_n'')))) = [''HEAD''] \<and>
   map rq_Method (g_forwarded (fst (sample_answer (sample_request ''get'' ''sk_n'')))) = [''get'']"
proof (intro conjI)
  show "rs_status (snd (sample_answer (sample_request ''GET'' ''sk_n''))) = Some 403" by code_simp
  have "length (g_forwarded (fst (sample_answer (sample_request ''GET'' ''sk_n'')))) = 0" by code_simp
  then show "g_forwarded (fst (sample_answer (sample_request ''GET'' ''sk_n''))) = []" by simp
  show "map rq_Method (g_forwarded (fst (sample_answer (sample_request ''HEAD'' ''sk_n'')))) = [''HEAD'']" by code_simp
  show "map rq_Method (g_forwarded (fst (sample_answer (sample_request ''get'' ''sk_n'')))) = [''get'']" by code_simp
qed

text \<open>Roles are scoped: whatever roles are added or replaced for other tenants, and in whatever
  order, what a tenant's roles permit stays the same.\<close>

theorem roles_are_scoped:
  assumes "tenantID \<notin> fst ` set changes"
  shows "fst (hasPermission (\<lambda>_. RolePermissions (fold (\<lambda>(tid, role). AddRole tid role) changes s)) tenantID roles required w) =
    fst (hasPermission (\<lambda>_. RolePermissions s) tenantID roles required w)"
proof -
  have "fold (\<lambda>(tid, role). AddRole tid role) changes s = mem_policy.add_all changes s"
    by (induction changes s rule: mem_policy.add_all.induct) auto
  then show ?thesis
    by (simp add: hasPermission_const mem_policy.add_all_other [OF assms])
qed

theorem roles_are_scoped_witness:
  "\<not> fst (hasPermission (\<lambda>_. RolePermissions (fold (\<lambda>(tid, role). AddRole tid role)
      [(''b'', \<lparr>ro_Name = ''viewer'', ro_Permissions = [''*:*'']\<rparr>)] NewMemPolicyStore)) ''a'' [''viewer''] ''*:delete'' empty_world)"
  using roles_are_scoped [of "''a''" "[(''b'', \<lparr>ro_Name = ''viewer'', ro_Permissions = [''*:*'']\<rparr>)]" NewMemPolicyStore "[''viewer'']" "''*:delete''" empty_world]
  by (simp del: hasPermission.simps add: hasPermission_const RolePermissions_def NewMemPolicyStore_def BuiltinRoles_def PermRead_def matchPermission_def
      go_SplitN2_def)

text \<open>The quota: however a tenant's requests arrive, with a fixed quota the limiter lets at most
  that many through in any closed minute.\<close>

theorem tenant_quota_bound:
  assumes "sorted ts" and "0 \<le> RateLimit tenant"
  shows "\<exists>grants ring. serve (ring_Allow (RateLimit tenant) defaultWindow) ts [] = Some (grants, ring) \<and>
    (\<forall>a. int (between a (a + defaultWindow) grants) \<le> RateLimit tenant)"
proof -
  let ?now = "case ts of [] \<Rightarrow> 0 | t # _ \<Rightarrow> t"
  have "sorted (?now # ts)" using assms(1) by (cases ts) auto
  moreover have "ring_inv (RateLimit tenant) defaultWindow ?now [] []"
    using NewSlidingWindow_inv [OF assms(2), of defaultWindow ?now]
    by (simp add: ring_inv_def ring_window_def NewSlidingWindow_def defaultWindow_def second_def in_i64_def)
  ultimately show ?thesis
    using ring_limit.serve_bounded [of "RateLimit tenant" defaultWindow ?now "[]" ts]
    by (auto simp: sw_bounded_def list_all_iff)
qed

theorem tenant_quota_bound_witness:
  "\<exists>grants ring. serve (ring_Allow (RateLimit \<lparr>t_ID = ''t'', t_Slug = [], t_Plan = PlanFree, t_Enabled = True, t_CreatedAt = 0, t_RateLimitOverride = 2\<rparr>) defaultWindow) [1, 2, 3] [] = Some (grants, ring) \<and>
    int (between 0 (0 + defaultWindow) grants) \<le> 2"
proof -
  let ?t = "\<lparr>t_ID = ''t'', t_Slug = [], t_Plan = PlanFree, t_Enabled = True, t_CreatedAt = 0, t_RateLimitOverride = 2\<rparr>"
  have q: "RateLimit ?t = 2" by (simp add: RateLimit_def)
  have "sorted [1, 2, 3 :: int]" and "0 \<le> RateLimit ?t" by (simp_all add: q)
  from tenant_quota_bound [OF this] obtain grants ring where
    "serve (ring_Allow (RateLimit ?t) defaultWindow) [1, 2, 3] [] = Some (grants, ring)"
    and "\<forall>a. int (between a (a + defaultWindow) grants) \<le> RateLimit ?t" by blast
  then show ?thesis using q by metis
qed

text \<open>C25. The metrics are never recorded: the outermost middleware looks for the tenant in the context
  it created itself, where authentication, which runs inside, has put nothing.  Every request
  adds one log line, with an empty tenant and user, and leaves the registry as it was.\<close>

theorem metrics_never_recorded:
  assumes "rs_status rs = None" and "TenantFromCtx (rq_ctx r) = []" and "UserFromCtx (rq_ctx r) = []"
    and "Handler env up r (w, rs) = (w', rs')"
  shows "g_metrics w' = g_metrics w \<and>
    (\<exists>entry. g_log w' = g_log w @ [entry] \<and> lg_tenant_id entry = [] \<and> lg_user_id entry = [] \<and>
       lg_method entry = rq_Method r \<and> lg_path entry = rq_Path r \<and>
       (g_forwarded w' \<noteq> g_forwarded w \<or> rs_status rs' = Some (lg_status entry)))"
proof -
  obtain k traceID rs0 w1 rs1 entry where
    n: "inner_chain env up (r\<lparr>rq_ctx := (rq_ctx r)(ctxTraceID \<mapsto> CString traceID)\<rparr>) (w\<lparr>g_tick := k\<rparr>, rs0) = (w1, rs1)"
    and rs0: "rs_status rs0 = rs_status rs" "rs_recorders rs0 = 200 # rs_recorders rs"
    and out: "rs_status rs' = rs_status rs1" "g_forwarded w' = g_forwarded w1" "g_metrics w' = g_metrics w1"
      "g_log w' = g_log w1 @ [entry]" "lg_tenant_id entry = []" "lg_user_id entry = []"
      "lg_status entry = hd (rs_recorders rs1)" "lg_method entry = rq_Method r" "lg_path entry = rq_Path r"
    using observe [of env up r w rs] assms(2-4) by auto
  from chain_layer [of rs0 env "r\<lparr>rq_ctx := (rq_ctx r)(ctxTraceID \<mapsto> CString traceID)\<rparr>" "w\<lparr>g_tick := k\<rparr>" up] n rs0(1) assms(1)
  have post: "chain_post env (r\<lparr>rq_ctx := (rq_ctx r)(ctxTraceID \<mapsto> CString traceID)\<rparr>) (w\<lparr>g_tick := k\<rparr>) rs0 (w1, rs1)" by simp
  then have "g_metrics w1 = g_metrics w" "g_log w1 = g_log w" by (simp_all add: chain_post_def)
  moreover have "g_forwarded w1 \<noteq> g_forwarded w \<or> rs_status rs1 = Some (hd (rs_recorders rs1))"
    using post rs0(2) by (auto simp: chain_post_def refused_def)
  ultimately show ?thesis using out by auto
qed

theorem metrics_never_recorded_witness:
  "g_metrics (fst (sample_answer (sample_request ''GET'' ''sk_v''))) = NewMetricsRegistry \<and>
   length (g_log (fst (sample_answer (sample_request ''GET'' ''sk_v'')))) = 1"
proof -
  obtain w' rs' where s: "sample_answer (sample_request ''GET'' ''sk_v'') = (w', rs')" by fastforce
  show ?thesis
    using metrics_never_recorded [OF _ _ _ s [unfolded sample_answer_def]] s
    by (auto simp: fresh_response_def sample_request_def TenantFromCtx_def UserFromCtx_def ctx_string_def empty_world_def)
qed

section \<open>Samples\<close>

definition record_samples :: "(int \<times> int) list \<Rightarrow> request_metrics \<Rightarrow> request_metrics" where
  "record_samples xs m = fold (\<lambda>(status, ms) m. Record status ms m) xs m"

lemma record_samples_latency:
  "rm_latency (record_samples xs m) = (if length (rm_latency m) \<le> 1000 then take 1000 (rm_latency m @ map snd xs) else rm_latency m)"
proof (induction xs arbitrary: m)
  case (Cons x xs)
  obtain st ms where x: "x = (st, ms)" by fastforce
  have "rm_latency (Record st ms m) = (if length (rm_latency m) < 1000 then rm_latency m @ [ms] else rm_latency m)"
    by (simp add: Record_def Let_def)
  then show ?case using Cons [of "Record st ms m"] x by (auto simp: record_samples_def take_Cons')
qed (simp add: record_samples_def)

text \<open>C27. \<open>P99\<close> is the sample of rank \<open>n * 99 div 100\<close> in the sorted samples, exactly, although the rank is
  computed in floating point; but the samples are the first 1000 ever recorded, not the
  last: once 1000 requests are recorded no later latency changes the percentile.\<close>

theorem P99_of_first_1000:
  assumes "xs \<noteq> []"
  shows "P99 (record_samples xs new_metrics) =
      sort (take 1000 (map snd xs)) ! (min 1000 (length xs) * 99 div 100) \<and>
    P99 (record_samples xs new_metrics) = P99 (record_samples (take 1000 xs) new_metrics)"
proof -
  let ?l = "take 1000 (map snd xs)"
  have lat: "rm_latency (record_samples zs new_metrics) = take 1000 (map snd zs)" for zs
    by (simp add: record_samples_latency new_metrics_def)
  have len: "length ?l = min 1000 (length xs)" by simp
  then have "0 < length ?l" "length ?l \<le> 1000" using assms by auto
  then have "p99_index (length ?l) = length ?l * 99 div 100" by (intro p99_index_exact)
  moreover have "length ?l * 99 div 100 < length ?l"
    using \<open>0 < length ?l\<close> by (intro less_mult_imp_div_less) simp
  ultimately have "p99_index (length ?l) = length ?l * 99 div 100" "length ?l * 99 div 100 < length ?l" .
  then have "P99 (record_samples xs new_metrics) = sort ?l ! (length ?l * 99 div 100)"
    using \<open>0 < length ?l\<close> by (simp add: P99_def lat Let_def sort_loop_sort [unfolded One_nat_def])
  moreover have "P99 (record_samples xs new_metrics) = P99 (record_samples (take 1000 xs) new_metrics)"
    by (simp add: P99_def lat take_map)
  ultimately show ?thesis by (simp add: len min.commute)
qed

theorem P99_of_first_1000_witness:
  "P99 (record_samples [(200, 30), (200, 10), (500, 20)] new_metrics) = 30"
  using P99_of_first_1000 [of "[(200, 30), (200, 10), (500, 20)]"] by simp

text \<open>\<open>itoa\<close> writes every 64-bit integer in decimal, except the smallest: negating it overflows, the
  loop does not run, and only the sign is left.\<close>

theorem itoa_decimal:
  assumes "- (2 ^ 63) < n" and "n < 2 ^ 63"
  shows "itoa n = int_dec n \<and> itoa (- (2 ^ 63)) = ''-''"
proof
  show "itoa n = int_dec n" using assms by (rule itoa_int_dec)
  have "i64 (- (- (2 ^ 63))) = - (2 ^ 63)" by (simp add: i64_def)
  then show "itoa (- (2 ^ 63)) = ''-''" by (simp add: itoa_def Let_def itoa_loop.simps)
qed

theorem itoa_decimal_witness: "itoa (- 1050) = int_dec (- 1050)"
  using itoa_decimal [of "- 1050"] by simp

end
