(* ===== verification/GatewayTokens.thy ===== *)
theory GatewayTokens
  imports GatewayProperties
begin

text \<open>
  Which tokens \<open>Verify\<close> (\<open>authn.go\<close>) accepts, seen from the side of the issuer that shares the secret:
  a token is sealed over a header and a payload, and verified again.  Rests on the round trip of
  \<open>base64.RawURLEncoding\<close>.
\<close>

section \<open>base64 round trip\<close>

lemma index_of_b64_char [simp]: "index_of (b64_char n) b64_alphabet = Some (n mod 64)"
proof -
  have "list_all (\<lambda>k. index_of (b64_alphabet ! k) b64_alphabet = Some k) [0..<64]" by code_simp
  then show ?thesis by (simp add: list_all_iff b64_char_def)
qed

lemma b64_encode_alphabet: "set (b64_encode bs) \<subseteq> set b64_alphabet"
  by (induction bs rule: b64_encode.induct) (auto simp: b64_char_alphabet)

lemma b64_alphabet_no_break: "CHR 0x0A \<notin> set b64_alphabet \<and> CHR 0x0D \<notin> set b64_alphabet"
  by code_simp

lemma b64_encode_no_break:
  "filter (\<lambda>c. c \<noteq> CHR 0x0A \<and> c \<noteq> CHR 0x0D) (b64_encode bs) = b64_encode bs"
  using b64_encode_alphabet [of bs] b64_alphabet_no_break by (intro filter_True) auto

lemma index_of_alphabet: "c \<in> set b64_alphabet \<Longrightarrow> index_of c b64_alphabet \<noteq> None"
proof -
  have "list_all (\<lambda>c. index_of c b64_alphabet \<noteq> None) b64_alphabet" by code_simp
  then show "c \<in> set b64_alphabet \<Longrightarrow> index_of c b64_alphabet \<noteq> None" by (simp add: list_all_iff)
qed

text \<open>The sextets of three bytes, put together again.\<close>

lemma b64_sextet [simp]:
  fixes a b :: nat
  assumes "b < 256"
  shows "b div 4 mod 64 = b div 4"
    and "(a mod 4 * 16 + b div 16) mod 64 = a mod 4 * 16 + b div 16"
    and "(a mod 16 * 4 + b div 64) mod 64 = a mod 16 * 4 + b div 64"
    and "(a mod 4 * 16 + b div 16) div 16 = a mod 4"
    and "(a mod 4 * 16 + b div 16) mod 16 = b div 16"
    and "(a mod 16 * 4 + b div 64) div 4 = a mod 16"
    and "(a mod 16 * 4 + b div 64) mod 4 = b div 64"
    and "b div 16 div 16 = 0" "b div 16 mod 16 = b div 16" "b div 64 div 4 = 0" "b div 64 mod 4 = b div 64"
proof -
  have b: "b div 4 < 64" "b div 16 < 16" "b div 64 < 4" using assms by (simp_all add: less_mult_imp_div_less)
  have a: "a mod 4 < 4" "a mod 16 < 16" by simp_all
  show "b div 4 mod 64 = b div 4" using b by simp
  show "(a mod 4 * 16 + b div 16) mod 64 = a mod 4 * 16 + b div 16" using a b by (intro mod_less) linarith
  show "(a mod 16 * 4 + b div 64) mod 64 = a mod 16 * 4 + b div 64" using a b by (intro mod_less) linarith
  show "(a mod 4 * 16 + b div 16) div 16 = a mod 4" "(a mod 4 * 16 + b div 16) mod 16 = b div 16"
    "(a mod 16 * 4 + b div 64) div 4 = a mod 16" "(a mod 16 * 4 + b div 64) mod 4 = b div 64"
    using b by (simp_all add: div_add1_eq)
  show "b div 16 div 16 = 0" "b div 16 mod 16 = b div 16" "b div 64 div 4 = 0" "b div 64 mod 4 = b div 64"
    using b by simp_all
qed

lemma b64_sextet_last [simp]: "(a mod 4 * 16) mod 64 = a mod 4 * (16 :: nat)" "(a mod 16 * 4) mod 64 = a mod 16 * (4 :: nat)"
  by (auto intro!: mod_less simp: less_mult_imp_div_less)

lemma b64_values_round_trip:
  "\<forall>b \<in> set bs. b < 256 \<Longrightarrow>
   b64_decode_values (map (\<lambda>c. the (index_of c b64_alphabet)) (b64_encode bs)) = Some bs"
  by (induction bs rule: b64_encode.induct) (simp_all add: div_mult_mod_eq)

lemma b64_round_trip:
  assumes "\<forall>b \<in> set bs. b < 256"
  shows "b64_decode (b64_encode bs) = Some bs"
proof -
  have "None \<notin> (\<lambda>c. index_of c b64_alphabet) ` set (b64_encode bs)"
    using index_of_alphabet b64_encode_alphabet [of bs] by (metis image_iff subsetD)
  then show ?thesis
    using b64_values_round_trip [OF assms] by (simp add: b64_decode_def Let_def b64_encode_no_break comp_def)
qed

section \<open>Tokens\<close>

text \<open>Sealing a header and a payload with the shared secret, and issuing a token for a JSON text.\<close>

definition sealed :: "env \<Rightarrow> string \<Rightarrow> string \<Rightarrow> string" where
  "sealed env header payload =
     header @ ''.'' @ payload @ ''.'' @ b64_encode (e_hmac env (jv_secret (e_jwt env)) (header @ ''.'' @ payload))"

definition issue_token :: "env \<Rightarrow> string \<Rightarrow> string \<Rightarrow> string" where
  "issue_token env header json = sealed env header (b64_encode (map of_char json))"

lemma go_Split_sealed:
  assumes "CHR ''.'' \<notin> set header" and "CHR ''.'' \<notin> set payload"
  shows "go_Split (sealed env header payload) (CHR ''.'') =
    [header, payload, b64_encode (e_hmac env (jv_secret (e_jwt env)) (header @ ''.'' @ payload))]"
  using assms b64_encode_no_dot by (simp add: sealed_def go_Split_three)

lemma bytes_of_string: "\<forall>b \<in> set (map of_char s). b < (256 :: nat)"
  by (auto simp: of_char_def)

text \<open>The header takes part in the signature only.\<close>

lemma Verify_issued:
  assumes "CHR ''.'' \<notin> set header"
  shows "Verify env (issue_token env header json) w =
    (case e_unmarshal env json of
       None \<Rightarrow> (Inl ''malformed jwt claims'', w)
     | Some c \<Rightarrow>
         (if Expired (e_clock env (g_tick w)) c then Inl ''jwt expired''
          else if cl_Issuer c \<noteq> jv_issuer (e_jwt env) then Inl ''jwt issuer mismatch''
          else if cl_Audience c \<noteq> jv_aud (e_jwt env) then Inl ''jwt audience mismatch''
          else if cl_TenantID c = [] then Inl ''jwt missing tid claim'' else Inr c,
          w\<lparr>g_tick := Suc (g_tick w)\<rparr>))"
  using go_Split_sealed [OF assms b64_encode_no_dot, of env "map of_char json"] b64_round_trip [OF bytes_of_string]
  by (simp add: Verify_def issue_token_def Let_def sense_def comp_def split: option.split)

section \<open>Property\<close>

text \<open>C24. Round trip of tokens.  A token issued under the shared secret for a JSON text is accepted with
  the claims \<open>c\<close> exactly when the text decodes to \<open>c\<close>, \<open>c\<close> has not expired, names the gateway's
  issuer and audience, and has a tenant.  Its header is covered by the signature but never looked at:
  any header without a dot, whatever algorithm or key it names and whether it decodes at all, gives the
  same result.  And nothing else is accepted: a token that is accepted with claims \<open>c\<close> is sealed under
  the secret over a payload that decodes to \<open>c\<close>.\<close>

theorem tokens_round_trip:
  assumes "CHR ''.'' \<notin> set header" and "CHR ''.'' \<notin> set header'"
  shows "(fst (Verify env (issue_token env header json) w) = Inr c \<longleftrightarrow>
      e_unmarshal env json = Some c \<and> time_Unix (e_clock env (g_tick w)) \<le> cl_Expiry c \<and>
      cl_Issuer c = jv_issuer (e_jwt env) \<and> cl_Audience c = jv_aud (e_jwt env) \<and> cl_TenantID c \<noteq> []) \<and>
    Verify env (issue_token env header' json) w = Verify env (issue_token env header json) w \<and>
    (fst (Verify env token w) = Inr c \<longrightarrow>
      (\<exists>h p bytes. token = sealed env h p \<and> b64_decode p = Some bytes \<and> e_unmarshal env (map char_of bytes) = Some c))"
proof (intro conjI)
  show "fst (Verify env (issue_token env header json) w) = Inr c \<longleftrightarrow>
      e_unmarshal env json = Some c \<and> time_Unix (e_clock env (g_tick w)) \<le> cl_Expiry c \<and>
      cl_Issuer c = jv_issuer (e_jwt env) \<and> cl_Audience c = jv_aud (e_jwt env) \<and> cl_TenantID c \<noteq> []"
    using assms(1) by (auto simp: Verify_issued Expired_def split: option.split)
  show "Verify env (issue_token env header' json) w = Verify env (issue_token env header json) w"
    using assms by (simp add: Verify_issued)
  show "fst (Verify env token w) = Inr c \<longrightarrow>
      (\<exists>h p bytes. token = sealed env h p \<and> b64_decode p = Some bytes \<and> e_unmarshal env (map char_of bytes) = Some c)"
    unfolding Verify_Inr by (auto simp: jwt_valid_def sealed_def)
qed

text \<open>A gateway whose decoder knows one text; the second header is \<open>{"alg":"none"}\<close>.\<close>

definition sample_claims :: claims where
  "sample_claims = \<lparr>cl_Subject = ''u1'', cl_TenantID = ''t1'', cl_Roles = [''viewer''], cl_Expiry = 2 ^ 40,
     cl_Issuer = ''idp'', cl_Audience = ''gateway''\<rparr>"

definition token_env :: env where
  "token_env = sample_env\<lparr>e_unmarshal := (\<lambda>s. if s = ''claims'' then Some sample_claims else None)\<rparr>"

theorem tokens_round_trip_witness:
  "fst (Verify token_env (issue_token token_env ''eyJhbGciOiJIUzI1NiJ9'' ''claims'') empty_world) = Inr sample_claims \<and>
   fst (Verify token_env (issue_token token_env ''eyJhbGciOiJub25lIn0'' ''claims'') empty_world) = Inr sample_claims"
proof -
  have "CHR ''.'' \<notin> set ''eyJhbGciOiJIUzI1NiJ9''" "CHR ''.'' \<notin> set ''eyJhbGciOiJub25lIn0''" by simp_all
  note rt = tokens_round_trip [OF this, of token_env "''claims''" empty_world sample_claims "[]"]
  have "time_Unix (e_clock token_env (g_tick empty_world)) \<le> cl_Expiry sample_claims" by code_simp
  moreover have "e_unmarshal token_env ''claims'' = Some sample_claims" "cl_TenantID sample_claims \<noteq> []"
    "cl_Issuer sample_claims = jv_issuer (e_jwt token_env)" "cl_Audience sample_claims = jv_aud (e_jwt token_env)"
    by (simp_all add: token_env_def sample_env_def sample_claims_def NewJWTVerifier_def)
  ultimately show ?thesis using rt by simp
qed

end
