(* ===== verification/LimiterConcurrent.thy ===== *)
theory LimiterConcurrent
  imports GatewayProperties
begin

text \<open>
  The gateway's limiter (\<open>system-design/api-gateway/rate_limiter.go\<close>) under concurrent requests.
  Every request is a goroutine; the tenant store, the map of rings and the rings are shared, each
  behind its own mutex.  One step of a goroutine is one critical section: reading the tenant,
  \<open>bucket\<close> (the address of the tenant's ring), \<open>allowed\<close> (with the clock reading inside the lock),
  and reading the length of the ring for the header.  In between, other requests and \<open>Upsert\<close> run.
\<close>

section \<open>The shared objects\<close>

text \<open>\<open>RateLimiter\<close>: the map from tenants to rings, by address; \<open>requestTimestamps\<close> objects hold
  the ring, addresses from \<open>rl_next\<close> on are free.\<close>

type_synonym ring_addr = nat

record rate_limiter_state =
  rl_buckets :: "string \<Rightarrow> ring_addr option"
  rl_rings :: "ring_addr \<Rightarrow> time list"
  rl_next :: ring_addr

definition NewRateLimiter :: rate_limiter_state where
  "NewRateLimiter = \<lparr>rl_buckets = (\<lambda>_. None), rl_rings = (\<lambda>_. []), rl_next = 0\<rparr>"

definition rl_bucket :: "string \<Rightarrow> rate_limiter_state \<Rightarrow> ring_addr \<times> rate_limiter_state" where
  "rl_bucket tenantID rl =
     (case rl_buckets rl tenantID of
        Some b \<Rightarrow> (b, rl)
      | None \<Rightarrow>
          let b = rl_next rl
          in (b, rl\<lparr>rl_rings := (rl_rings rl)(b := []), rl_next := Suc b,
                 rl_buckets := (rl_buckets rl)(tenantID \<mapsto> b)\<rparr>))"

definition rl_allowed :: "ring_addr \<Rightarrow> time \<Rightarrow> int \<Rightarrow> rate_limiter_state \<Rightarrow> bool \<times> rate_limiter_state" where
  "rl_allowed b now limit rl =
     (let (ok, ring) = allowed now limit defaultWindow (rl_rings rl b)
      in (ok, rl\<lparr>rl_rings := (rl_rings rl)(b := ring)\<rparr>))"

section \<open>The goroutines\<close>

text \<open>What the limiter decides for a request: no tenant in the context, an error of the store, the
  quota exhausted (with the limit of the header), or forwarded (with limit and remaining).\<close>

datatype lim_answer = LimMissing | LimStoreError | LimRefused int | LimForwarded int int

datatype lim_pc =
    LimNew
  | LimTenant string tenant
  | LimRing string tenant ring_addr
  | LimAdmitted string tenant ring_addr
  | LimAnswered lim_answer

text \<open>\<open>ls_grants\<close> is a ghost: the times at which requests of a tenant were granted.\<close>

record lim_sys =
  ls_tenants :: mem_tenants
  ls_limiter :: rate_limiter_state
  ls_now :: time
  ls_procs :: "nat \<Rightarrow> lim_pc"
  ls_grants :: "string \<Rightarrow> time list"

datatype lim_label =
    CUpsert tenant
  | CTick time
  | CArrive nat string
  | CBucket nat
  | CAllowed nat time
  | CRemaining nat

definition set_proc :: "nat \<Rightarrow> lim_pc \<Rightarrow> lim_sys \<Rightarrow> lim_sys" where
  "set_proc g pc s = s\<lparr>ls_procs := (ls_procs s)(g := pc)\<rparr>"

fun lim_fire :: "lim_label \<Rightarrow> lim_sys \<Rightarrow> lim_sys option" where
  "lim_fire (CUpsert t) s = Some (s\<lparr>ls_tenants := Upsert t (ls_tenants s)\<rparr>)"
| "lim_fire (CTick t) s = (if ls_now s \<le> t then Some (s\<lparr>ls_now := t\<rparr>) else None)"
| "lim_fire (CArrive g tenantID) s =
     (case ls_procs s g of
        LimNew \<Rightarrow>
          Some (if tenantID = [] then set_proc g (LimAnswered LimMissing) s
            else case tenant_Get (ls_tenants s) tenantID of
                Inl err \<Rightarrow> set_proc g (LimAnswered LimStoreError) s
              | Inr tenant \<Rightarrow> set_proc g (LimTenant tenantID tenant) s)
      | _ \<Rightarrow> None)"
| "lim_fire (CBucket g) s =
     (case ls_procs s g of
        LimTenant tenantID tenant \<Rightarrow>
          (let (b, rl) = rl_bucket tenantID (ls_limiter s)
           in Some (set_proc g (LimRing tenantID tenant b) (s\<lparr>ls_limiter := rl\<rparr>)))
      | _ \<Rightarrow> None)"
| "lim_fire (CAllowed g now) s =
     (case ls_procs s g of
        LimRing tenantID tenant b \<Rightarrow>
          if ls_now s \<le> now then
            (case rl_allowed b now (RateLimit tenant) (ls_limiter s) of
               (True, rl) \<Rightarrow> Some (set_proc g (LimAdmitted tenantID tenant b)
                 (s\<lparr>ls_limiter := rl, ls_now := now,
                    ls_grants := (ls_grants s)(tenantID := ls_grants s tenantID @ [now])\<rparr>))
             | (False, rl) \<Rightarrow> Some (set_proc g (LimAnswered (LimRefused (RateLimit tenant)))
                 (s\<lparr>ls_limiter := rl, ls_now := now\<rparr>)))
          else None
      | _ \<Rightarrow> None)"
| "lim_fire (CRemaining g) s =
     (case ls_procs s g of
        LimAdmitted tenantID tenant b \<Rightarrow>
          Some (set_proc g (LimAnswered (LimForwarded (RateLimit tenant)
            (i64 (RateLimit tenant - int (length (rl_rings (ls_limiter s) b)))))) s)
      | _ \<Rightarrow> None)"

definition lim_init :: "tenant list \<Rightarrow> time \<Rightarrow> lim_sys" where
  "lim_init seeds t0 =
     \<lparr>ls_tenants = NewMemTenantStore seeds, ls_limiter = NewRateLimiter, ls_now = t0,
      ls_procs = (\<lambda>_. LimNew), ls_grants = (\<lambda>_. [])\<rparr>"

abbreviation lim_run :: "lim_label list \<Rightarrow> lim_sys \<Rightarrow> lim_sys option" where
  "lim_run \<equiv> run_steps lim_fire"

section \<open>One ring per tenant\<close>

text \<open>
  The rings registered are allocated and belong to one tenant each; a goroutine that works on a
  ring works on the one registered for its tenant, with a record of that tenant.
\<close>

fun pc_typed :: "rate_limiter_state \<Rightarrow> lim_pc \<Rightarrow> bool" where
  "pc_typed rl (LimTenant tid t) = (t_ID t = tid \<and> t_Enabled t)"
| "pc_typed rl (LimRing tid t b) = (t_ID t = tid \<and> t_Enabled t \<and> rl_buckets rl tid = Some b)"
| "pc_typed rl (LimAdmitted tid t b) = (t_ID t = tid \<and> t_Enabled t \<and> rl_buckets rl tid = Some b)"
| "pc_typed rl _ = True"

definition rl_typed :: "rate_limiter_state \<Rightarrow> bool" where
  "rl_typed rl \<longleftrightarrow>
     (\<forall>tid b. rl_buckets rl tid = Some b \<longrightarrow> b < rl_next rl) \<and>
     (\<forall>tid tid' b. rl_buckets rl tid = Some b \<longrightarrow> rl_buckets rl tid' = Some b \<longrightarrow> tid = tid')"

definition lim_typed :: "lim_sys \<Rightarrow> bool" where
  "lim_typed s \<longleftrightarrow>
     mem_tenants_inv (ls_tenants s) \<and>
     rl_typed (ls_limiter s) \<and>
     (\<forall>g. pc_typed (ls_limiter s) (ls_procs s g))"

lemma lim_typedD:
  "lim_typed s \<Longrightarrow> mem_tenants_inv (ls_tenants s)" "lim_typed s \<Longrightarrow> rl_typed (ls_limiter s)"
  "lim_typed s \<Longrightarrow> pc_typed (ls_limiter s) (ls_procs s g)"
  by (simp_all add: lim_typed_def)

lemma set_proc_fields [simp]:
  "ls_tenants (set_proc g pc s) = ls_tenants s" "ls_limiter (set_proc g pc s) = ls_limiter s"
  "ls_now (set_proc g pc s) = ls_now s" "ls_procs (set_proc g pc s) = (ls_procs s)(g := pc)"
  "ls_grants (set_proc g pc s) = ls_grants s"
  by (simp_all add: set_proc_def)

lemma lim_typed_proc:
  "lim_typed s \<Longrightarrow> pc_typed (ls_limiter s) pc \<Longrightarrow> lim_typed (set_proc g pc s)"
  by (simp add: lim_typed_def)

lemma rl_bucket_registers:
  assumes "rl_bucket tid rl = (b, rl')"
  shows "rl_buckets rl' tid = Some b"
    and "rl_buckets rl tid' = Some b' \<Longrightarrow> rl_buckets rl' tid' = Some b'"
  using assms by (auto simp: rl_bucket_def Let_def split: option.splits)

lemma rl_bucket_typed:
  assumes "rl_typed rl" and "rl_bucket tid rl = (b, rl')"
  shows "rl_typed rl'"
proof (cases "rl_buckets rl tid")
  case None
  have "b' < rl_next rl" if "rl_buckets rl tid' = Some b'" for tid' b'
    using assms(1) that by (simp add: rl_typed_def)
  with assms None show ?thesis
    by (fastforce simp: rl_typed_def rl_bucket_def Let_def split: if_splits)
qed (use assms in \<open>simp add: rl_bucket_def\<close>)

lemma pc_typed_mono:
  "pc_typed rl pc \<Longrightarrow> (\<And>tid b. rl_buckets rl tid = Some b \<Longrightarrow> rl_buckets rl' tid = Some b) \<Longrightarrow> pc_typed rl' pc"
  by (cases pc) auto

lemma rl_allowed_fields [simp]:
  "rl_buckets (snd (rl_allowed b now limit rl)) = rl_buckets rl"
  "rl_next (snd (rl_allowed b now limit rl)) = rl_next rl"
  by (simp_all add: rl_allowed_def split: prod.split)

lemma lim_fire_typed:
  assumes ty: "lim_typed s" and st: "lim_fire l s = Some s'"
  shows "lim_typed s'"
proof (cases l)
  case (CArrive g tid)
  then show ?thesis
    using st ty by (auto simp: tenant_Get_Inr intro!: lim_typed_proc
        split: lim_pc.splits sum.splits if_splits) (auto simp: lim_typed_def mem_tenants_inv_def)
next
  case (CBucket g)
  then obtain tid t b rl where pc: "ls_procs s g = LimTenant tid t"
    and rb: "rl_bucket tid (ls_limiter s) = (b, rl)"
    and s': "s' = set_proc g (LimRing tid t b) (s\<lparr>ls_limiter := rl\<rparr>)"
    using st by (auto split: lim_pc.splits prod.splits)
  have t: "t_ID t = tid \<and> t_Enabled t" using ty pc by (metis lim_typed_def pc_typed.simps(1))
  have new: "rl_typed rl" using ty rl_bucket_typed [OF _ rb] by (simp add: lim_typed_def)
  have "pc_typed rl (ls_procs s g')" for g'
    by (rule pc_typed_mono [OF _ rl_bucket_registers(2) [OF rb]]) (rule lim_typedD(3) [OF ty])
  with ty new t rl_bucket_registers(1) [OF rb] show ?thesis by (simp add: lim_typed_def s')
next
  case (CAllowed g now)
  then obtain tid t b ok rl where pc: "ls_procs s g = LimRing tid t b"
    and al: "rl_allowed b now (RateLimit t) (ls_limiter s) = (ok, rl)"
    and s': "ls_limiter s' = rl" "ls_tenants s' = ls_tenants s"
      "ls_procs s' = (ls_procs s)(g := if ok then LimAdmitted tid t b else LimAnswered (LimRefused (RateLimit t)))"
    using st by (auto split: lim_pc.splits prod.splits if_splits bool.splits)
  have rl: "rl_buckets rl = rl_buckets (ls_limiter s)" "rl_next rl = rl_next (ls_limiter s)"
    using rl_allowed_fields [of b now "RateLimit t" "ls_limiter s"] al by simp_all
  have "pc_typed rl (ls_procs s g')" for g'
    by (rule pc_typed_mono [OF lim_typedD(3) [OF ty]]) (simp add: rl)
  moreover have "rl_typed rl" using lim_typedD(2) [OF ty] by (simp add: rl_typed_def rl)
  moreover have "pc_typed rl (if ok then LimAdmitted tid t b else LimAnswered (LimRefused (RateLimit t)))"
    using lim_typedD(3) [OF ty, of g] pc rl by simp
  ultimately show ?thesis
    using lim_typedD(1) [OF ty] by (cases ok) (simp_all add: lim_typed_def s')
next
  case (CRemaining g)
  then show ?thesis using st ty by (auto intro!: lim_typed_proc split: lim_pc.splits)
next
  case (CUpsert t)
  then show ?thesis using st ty by (auto simp: lim_typed_def mem_tenants_inv_Upsert)
next
  case (CTick t)
  then show ?thesis using st ty by (auto simp: lim_typed_def split: if_splits)
qed

lemma lim_init_typed: "lim_typed (lim_init seeds t0)"
  by (simp add: lim_typed_def rl_typed_def lim_init_def NewRateLimiter_def NewMemTenantStore_inv)

interpretation lim_types: invariant_steps lim_fire "\<lambda>_. True" lim_typed
  by unfold_locales (rule lim_fire_typed)

lemma lim_run_typed: "lim_run ls (lim_init seeds t0) = Some s \<Longrightarrow> lim_typed s"
  by (rule lim_types.run_inv [OF lim_init_typed]) simp_all

section \<open>The ring remembers the grants of the last minute\<close>

definition ring_log :: "time \<Rightarrow> time list \<Rightarrow> time list \<Rightarrow> bool" where
  "ring_log now gs ring \<longleftrightarrow>
     sorted gs \<and> (\<forall>g \<in> set gs. g \<le> now) \<and>
     (\<exists>c. c \<le> now - defaultWindow \<and> ring = filter (\<lambda>g. c \<le> g) gs)"

lemma ring_log_later: "ring_log now gs ring \<Longrightarrow> now \<le> t \<Longrightarrow> ring_log t gs ring"
proof -
  assume r: "ring_log now gs ring" and t: "now \<le> t"
  then obtain c where "c \<le> now - defaultWindow" "ring = filter (\<lambda>g. c \<le> g) gs"
    by (auto simp: ring_log_def)
  with t have "c \<le> t - defaultWindow \<and> ring = filter (\<lambda>g. c \<le> g) gs" by simp
  moreover have "sorted gs" "\<forall>g \<in> set gs. g \<le> t" using r t by (auto simp: ring_log_def)
  ultimately show "ring_log t gs ring" unfolding ring_log_def by blast
qed

lemma ring_log_allowed:
  assumes log: "ring_log now gs ring" and t: "now \<le> t"
    and al: "allowed t limit defaultWindow ring = (ok, ring')"
  shows "ok \<longleftrightarrow> int (between (t - defaultWindow) t gs) < limit"
    and "ring' = filter (\<lambda>g. t - defaultWindow \<le> g) (if ok then gs @ [t] else gs)"
    and "ring_log t (if ok then gs @ [t] else gs) ring'"
    and "length ring' = between (t - defaultWindow) t gs + (if ok then 1 else 0)"
proof -
  let ?W = defaultWindow
  obtain c where c: "c \<le> now - ?W" "ring = filter (\<lambda>g. c \<le> g) gs" and srt: "sorted gs"
    and le: "\<forall>g \<in> set gs. g \<le> now"
    using log by (auto simp: ring_log_def)
  have le': "\<forall>g \<in> set gs. g \<le> t" and ct: "c \<le> t - ?W" using le c t by auto
  have W: "i64 (- ?W) = - ?W" and W0: "0 \<le> ?W" by (simp_all add: defaultWindow_def second_def i64_def)
  note ev = evict_log(1) [OF srt le' ct] and len = evict_log(2) [OF srt le' order_refl, of ?W]
  have A: "allowed t limit ?W ring =
      (if int (between (t - ?W) t gs) < limit then (True, filter (\<lambda>g. t - ?W \<le> g) gs @ [t])
       else (False, filter (\<lambda>g. t - ?W \<le> g) gs))"
    using ev len by (simp add: allowed_def Let_def W time_add_def c(2))
  show "ok \<longleftrightarrow> int (between (t - ?W) t gs) < limit" using al A by (auto split: if_splits)
  show r: "ring' = filter (\<lambda>g. t - ?W \<le> g) (if ok then gs @ [t] else gs)"
    using al A W0 by (auto split: if_splits)
  show "ring_log t (if ok then gs @ [t] else gs) ring'"
    unfolding ring_log_def r using srt le' by (auto simp: sorted_append intro: exI [of _ "t - ?W"])
  show "length ring' = between (t - ?W) t gs + (if ok then 1 else 0)"
    using al A len by (auto split: if_splits)
qed

definition lim_logs :: "lim_sys \<Rightarrow> bool" where
  "lim_logs s \<longleftrightarrow> lim_typed s \<and>
     (\<forall>tid. case rl_buckets (ls_limiter s) tid of
        None \<Rightarrow> ls_grants s tid = []
      | Some b \<Rightarrow> ring_log (ls_now s) (ls_grants s tid) (rl_rings (ls_limiter s) b))"

lemma lim_logsD:
  "lim_logs s \<Longrightarrow> lim_typed s"
  "lim_logs s \<Longrightarrow> rl_buckets (ls_limiter s) tid = None \<Longrightarrow> ls_grants s tid = []"
  "lim_logs s \<Longrightarrow> rl_buckets (ls_limiter s) tid = Some b \<Longrightarrow>
     ring_log (ls_now s) (ls_grants s tid) (rl_rings (ls_limiter s) b)"
  by (auto simp: lim_logs_def dest: spec [of _ tid])

text \<open>What the two steps on the rings do, for the proofs below.\<close>

lemma CBucket_step:
  assumes "lim_fire (CBucket g) s = Some s'"
  obtains tid t b rl where "ls_procs s g = LimTenant tid t" "rl_bucket tid (ls_limiter s) = (b, rl)"
    "s' = set_proc g (LimRing tid t b) (s\<lparr>ls_limiter := rl\<rparr>)"
  using assms by (auto split: lim_pc.splits prod.splits)

lemma CAllowed_step:
  assumes "lim_fire (CAllowed g now) s = Some s'"
  obtains tid t b ok ring where "ls_procs s g = LimRing tid t b" "ls_now s \<le> now"
    "allowed now (RateLimit t) defaultWindow (rl_rings (ls_limiter s) b) = (ok, ring)"
    "s' = set_proc g (if ok then LimAdmitted tid t b else LimAnswered (LimRefused (RateLimit t)))
      (s\<lparr>ls_limiter := (ls_limiter s)\<lparr>rl_rings := (rl_rings (ls_limiter s))(b := ring)\<rparr>, ls_now := now,
         ls_grants := (ls_grants s)(tid := ls_grants s tid @ (if ok then [now] else []))\<rparr>)"
  using assms by (auto simp: rl_allowed_def split: lim_pc.splits prod.splits if_splits bool.splits)

lemma lim_fire_logs:
  assumes lg: "lim_logs s" and st: "lim_fire l s = Some s'"
  shows "lim_logs s'"
proof -
  note ty = lim_logsD(1) [OF lg]
  have ty': "lim_typed s'" by (rule lim_fire_typed [OF ty st])
  have frame: "lim_logs s'" if "ls_limiter s' = ls_limiter s" "ls_grants s' = ls_grants s" "ls_now s \<le> ls_now s'"
    using ty' lim_logsD(2,3) [OF lg] ring_log_later [OF _ that(3)]
    by (auto simp: lim_logs_def that(1,2) split: option.split)
  show ?thesis
  proof (cases l)
    case (CBucket g)
    from st [unfolded CBucket] obtain tid t b rl where rb: "rl_bucket tid (ls_limiter s) = (b, rl)"
      and s': "s' = set_proc g (LimRing tid t b) (s\<lparr>ls_limiter := rl\<rparr>)" by (rule CBucket_step)
    show ?thesis
    proof (cases "rl_buckets (ls_limiter s) tid")
      case None
      have fresh: "rl_buckets (ls_limiter s) tid' \<noteq> Some (rl_next (ls_limiter s))" for tid'
        using lim_typedD(2) [OF ty] by (auto simp: rl_typed_def)
      have "ring_log (ls_now s) [] []" by (auto simp: ring_log_def)
      with None rb ty' lim_logsD(2,3) [OF lg] fresh show ?thesis
        by (auto simp: lim_logs_def s' rl_bucket_def Let_def split: option.split if_splits)
    next
      case (Some b')
      with rb have "rl = ls_limiter s" by (simp add: rl_bucket_def)
      then show ?thesis using frame s' by simp
    qed
  next
    case (CAllowed g now)
    from st [unfolded CAllowed] obtain tid t b ok ring where pc: "ls_procs s g = LimRing tid t b"
      and now: "ls_now s \<le> now"
      and al: "allowed now (RateLimit t) defaultWindow (rl_rings (ls_limiter s) b) = (ok, ring)"
      and s': "s' = set_proc g (if ok then LimAdmitted tid t b else LimAnswered (LimRefused (RateLimit t)))
        (s\<lparr>ls_limiter := (ls_limiter s)\<lparr>rl_rings := (rl_rings (ls_limiter s))(b := ring)\<rparr>, ls_now := now,
          ls_grants := (ls_grants s)(tid := ls_grants s tid @ (if ok then [now] else []))\<rparr>)"
      by (rule CAllowed_step)
    have b: "rl_buckets (ls_limiter s) tid = Some b" using lim_typedD(3) [OF ty, of g] pc by simp
    have other: "tid' = tid" if "rl_buckets (ls_limiter s) tid' = Some b" for tid'
      using lim_typedD(2) [OF ty] b that by (auto simp: rl_typed_def)
    from ring_log_allowed(3) [OF lim_logsD(3) [OF lg b] now al]
    have new: "ring_log now (ls_grants s tid @ (if ok then [now] else [])) ring" by (cases ok) simp_all
    have old: "case rl_buckets (ls_limiter s) tid' of None \<Rightarrow> ls_grants s tid' = []
        | Some b' \<Rightarrow> b' \<noteq> b \<and> ring_log now (ls_grants s tid') (rl_rings (ls_limiter s) b')"
      if "tid' \<noteq> tid" for tid'
      using lim_logsD(2,3) [OF lg, of tid'] ring_log_later [OF _ now] other [of tid'] that
      by (auto split: option.split)
    have "case rl_buckets (ls_limiter s') tid' of None \<Rightarrow> ls_grants s' tid' = []
        | Some b' \<Rightarrow> ring_log (ls_now s') (ls_grants s' tid') (rl_rings (ls_limiter s') b')" for tid'
    proof (cases "tid' = tid")
      case True
      then show ?thesis using new b by (simp add: s')
    next
      case False
      then show ?thesis using old [OF False] by (simp add: s' split: option.splits)
    qed
    with ty' show ?thesis unfolding lim_logs_def by blast
  next
    case (CArrive g tid)
    then show ?thesis using st by (intro frame) (auto split: lim_pc.splits sum.splits if_splits)
  next
    case (CRemaining g)
    then show ?thesis using st by (intro frame) (auto split: lim_pc.splits)
  next
    case (CUpsert t)
    then show ?thesis using st by (intro frame) auto
  next
    case (CTick t)
    then show ?thesis using st by (intro frame) (auto split: if_splits)
  qed
qed

lemma lim_init_logs: "lim_logs (lim_init seeds t0)"
  by (simp add: lim_logs_def lim_init_typed) (simp add: lim_init_def NewRateLimiter_def)

section \<open>The quota\<close>

text \<open>
  Every record of the tenant (stored, or read by a request in flight) has its quota in \<open>Q\<close>, whose
  largest element is \<open>L\<close>.
\<close>

fun pc_tenant :: "lim_pc \<Rightarrow> tenant option" where
  "pc_tenant (LimTenant tid t) = Some t"
| "pc_tenant (LimRing tid t b) = Some t"
| "pc_tenant (LimAdmitted tid t b) = Some t"
| "pc_tenant _ = None"

definition quotas_in :: "int set \<Rightarrow> string \<Rightarrow> lim_sys \<Rightarrow> bool" where
  "quotas_in Q tid s \<longleftrightarrow>
     (\<forall>t. ls_tenants s tid = Some t \<longrightarrow> RateLimit t \<in> Q) \<and>
     (\<forall>g t. pc_tenant (ls_procs s g) = Some t \<longrightarrow> t_ID t = tid \<longrightarrow> RateLimit t \<in> Q)"

fun upsert_ok :: "int set \<Rightarrow> string \<Rightarrow> lim_label \<Rightarrow> bool" where
  "upsert_ok Q tid (CUpsert t) = (t_ID t = tid \<longrightarrow> RateLimit t \<in> Q)"
| "upsert_ok Q tid _ = True"

definition quota_kept :: "int set \<Rightarrow> int \<Rightarrow> string \<Rightarrow> lim_sys \<Rightarrow> bool" where
  "quota_kept Q L tid s \<longleftrightarrow> lim_logs s \<and> quotas_in Q tid s \<and>
     sw_bounded L defaultWindow (ls_grants s tid) \<and>
     (\<forall>b. rl_buckets (ls_limiter s) tid = Some b \<longrightarrow>
        int (length (rl_rings (ls_limiter s) b)) \<le> L \<and>
        (ls_grants s tid \<noteq> [] \<longrightarrow> rl_rings (ls_limiter s) b \<noteq> [])) \<and>
     (\<forall>g t b. ls_procs s g = LimAdmitted tid t b \<longrightarrow> ls_grants s tid \<noteq> [])"

lemma RateLimit_pos: "1 \<le> RateLimit t"
  by (simp add: RateLimit_def)

lemma quotas_inD:
  "quotas_in Q tid s \<Longrightarrow> pc_tenant (ls_procs s g) = Some t \<Longrightarrow> t_ID t = tid \<Longrightarrow> RateLimit t \<in> Q"
  by (auto simp: quotas_in_def)

lemma lim_fire_quotas:
  assumes q: "quotas_in Q tid s" and ty: "lim_typed s" and ok: "upsert_ok Q tid l" and st: "lim_fire l s = Some s'"
  shows "quotas_in Q tid s'"
proof (cases l)
  case (CUpsert t)
  then show ?thesis using q ok st by (auto simp: quotas_in_def Upsert_def split: if_splits)
next
  case (CTick t)
  then show ?thesis using q st by (auto simp: quotas_in_def split: if_splits)
next
  case (CArrive g tid')
  have "t_ID t = tid'" if "ls_tenants s tid' = Some t" for t
    using lim_typedD(1) [OF ty] that by (auto simp: mem_tenants_inv_def)
  with CArrive q st show ?thesis
    by (auto simp: quotas_in_def tenant_Get_Inr split: lim_pc.splits sum.splits if_splits)
next
  case (CBucket g)
  from st [unfolded CBucket] show ?thesis
    by (rule CBucket_step) (use q quotas_inD [OF q, of g] in \<open>auto simp: quotas_in_def split: if_splits\<close>)
next
  case (CAllowed g now)
  from st [unfolded CAllowed] show ?thesis
    by (rule CAllowed_step) (use q quotas_inD [OF q, of g] in \<open>auto simp: quotas_in_def split: if_splits\<close>)
next
  case (CRemaining g)
  then show ?thesis using q st by (auto simp: quotas_in_def split: lim_pc.splits if_splits)
qed

lemma quota_step:
  assumes k: "quota_kept Q L tid s" and Q: "\<forall>n \<in> Q. n \<le> L" and ok: "upsert_ok Q tid l"
    and st: "lim_fire l s = Some s'"
  shows "quota_kept Q L tid s'"
proof -
  have lg: "lim_logs s" and q: "quotas_in Q tid s" and bnd: "sw_bounded L defaultWindow (ls_grants s tid)"
    and ring: "\<And>b. rl_buckets (ls_limiter s) tid = Some b \<Longrightarrow> int (length (rl_rings (ls_limiter s) b)) \<le> L \<and>
        (ls_grants s tid \<noteq> [] \<longrightarrow> rl_rings (ls_limiter s) b \<noteq> [])"
    and adm: "\<And>g t b. ls_procs s g = LimAdmitted tid t b \<Longrightarrow> ls_grants s tid \<noteq> []"
    using k by (auto simp: quota_kept_def)
  note ty = lim_logsD(1) [OF lg]
  have lg': "lim_logs s'" by (rule lim_fire_logs [OF lg st])
  have q': "quotas_in Q tid s'" by (rule lim_fire_quotas [OF q ty ok st])
  have frame: "quota_kept Q L tid s'" if "ls_limiter s' = ls_limiter s" "ls_grants s' = ls_grants s"
    "\<And>g t b. ls_procs s' g = LimAdmitted tid t b \<Longrightarrow> ls_procs s g = LimAdmitted tid t b"
  proof -
    have "\<forall>g t b. ls_procs s' g = LimAdmitted tid t b \<longrightarrow> ls_grants s' tid \<noteq> []"
      using adm that(2,3) by metis
    then show ?thesis using lg' q' bnd ring that(1,2) by (simp add: quota_kept_def)
  qed
  show ?thesis
  proof (cases l)
    case (CBucket g)
    from st [unfolded CBucket] obtain tid' t b rl where pc: "ls_procs s g = LimTenant tid' t"
      and rb: "rl_bucket tid' (ls_limiter s) = (b, rl)"
      and s': "s' = set_proc g (LimRing tid' t b) (s\<lparr>ls_limiter := rl\<rparr>)" by (rule CBucket_step)
    show ?thesis
    proof (cases "rl_buckets (ls_limiter s) tid'")
      case None
      have fresh: "rl_buckets (ls_limiter s) tid \<noteq> Some (rl_next (ls_limiter s))"
        using lim_typedD(2) [OF ty] by (auto simp: rl_typed_def)
      have "0 \<le> L"
        using quotas_inD [OF q, of g t] lim_typedD(3) [OF ty, of g] pc Q bnd RateLimit_pos [of t]
        by (auto simp: sw_bounded_def between_def dest!: spec [of _ 0])
      moreover have "ls_grants s tid' = []" by (rule lim_logsD(2) [OF lg None])
      ultimately show ?thesis
        using lg' q' bnd ring adm fresh None rb
        by (auto simp: quota_kept_def s' rl_bucket_def Let_def split: if_splits)
    next
      case (Some b')
      with rb have "rl = ls_limiter s" by (simp add: rl_bucket_def)
      then show ?thesis using s' by (intro frame) (auto split: if_splits)
    qed
  next
    case (CAllowed g now)
    from st [unfolded CAllowed] obtain tid' t b ok ring' where pc: "ls_procs s g = LimRing tid' t b"
      and now: "ls_now s \<le> now"
      and al: "allowed now (RateLimit t) defaultWindow (rl_rings (ls_limiter s) b) = (ok, ring')"
      and s': "s' = set_proc g (if ok then LimAdmitted tid' t b else LimAnswered (LimRefused (RateLimit t)))
        (s\<lparr>ls_limiter := (ls_limiter s)\<lparr>rl_rings := (rl_rings (ls_limiter s))(b := ring')\<rparr>, ls_now := now,
          ls_grants := (ls_grants s)(tid' := ls_grants s tid' @ (if ok then [now] else []))\<rparr>)"
      by (rule CAllowed_step)
    have b: "rl_buckets (ls_limiter s) tid' = Some b" and t: "t_ID t = tid'"
      using lim_typedD(3) [OF ty, of g] pc by simp_all
    show ?thesis
    proof (cases "tid' = tid")
      case False
      then have "rl_buckets (ls_limiter s) tid \<noteq> Some b"
        using lim_typedD(2) [OF ty] b by (auto simp: rl_typed_def)
      then show ?thesis
        using False lg' q' bnd ring adm by (auto simp: quota_kept_def s' split: if_splits)
    next
      case True
      have le: "RateLimit t \<le> L" using quotas_inD [OF q, of g t] pc t True Q by simp
      note R = ring_log_allowed [OF lim_logsD(3) [OF lg b] now al]
      have past: "\<forall>x \<in> set (ls_grants s tid). x \<le> now"
        using lim_logsD(3) [OF lg b] now True by (auto simp: ring_log_def)
      have bnd': "sw_bounded L defaultWindow (ls_grants s tid @ (if ok then [now] else []))"
        using bnd sw_bounded_snoc [OF bnd past] R(1) le True by auto
      have "int (between (now - defaultWindow) now (ls_grants s tid)) \<le> L"
        using bnd by (auto simp: sw_bounded_def dest: spec [of _ "now - defaultWindow"])
      then have len: "int (length ring') \<le> L" using R(1,4) le True by auto
      have ne: "ring' \<noteq> []" using R(1,4) RateLimit_pos [of t] by (cases ok) auto
      show ?thesis
        using lg' q' bnd' len ne adm True b by (auto simp: quota_kept_def s' split: if_splits)
    qed
  next
    case (CArrive g tid')
    then show ?thesis using st by (intro frame) (auto split: lim_pc.splits sum.splits if_splits)
  next
    case (CRemaining g)
    then show ?thesis using st by (intro frame) (auto split: lim_pc.splits if_splits)
  next
    case (CUpsert t)
    then show ?thesis using st by (intro frame) auto
  next
    case (CTick t)
    then show ?thesis using st by (intro frame) (auto split: if_splits)
  qed
qed

text \<open>The step lemma for every bound, as the interface of the runs.\<close>

interpretation lim_quota: invariant_steps lim_fire "upsert_ok {n \<in> Q. n \<le> L} tid"
    "quota_kept {n \<in> Q. n \<le> L} L tid" for Q L tid
  by unfold_locales (rule quota_step, auto)

lemma seeds_stored:
  "NewMemTenantStore_loop ts m tid = Some t \<Longrightarrow> t \<in> set ts \<and> t_ID t = tid \<or> m tid = Some t"
proof (induction ts arbitrary: m)
  case (Cons a ts)
  have "t \<in> set ts \<and> t_ID t = tid \<or> (m(t_ID a \<mapsto> a)) tid = Some t"
    using Cons.IH [of "m(t_ID a \<mapsto> a)"] Cons.prems by (simp only: NewMemTenantStore_loop.simps)
  then show ?case by (auto split: if_splits)
qed simp

lemma lim_init_quota:
  assumes "0 \<le> L" and "\<forall>t \<in> set seeds. t_ID t = tid \<longrightarrow> RateLimit t \<in> Q"
  shows "quota_kept Q L tid (lim_init seeds t0)"
proof -
  have "quotas_in Q tid (lim_init seeds t0)"
    using assms(2) seeds_stored [of seeds "\<lambda>_. None" tid]
    by (auto simp: quotas_in_def lim_init_def NewMemTenantStore_def)
  then show ?thesis
    using assms(1) lim_init_logs [of seeds t0]
    by (simp add: quota_kept_def lim_init_def NewRateLimiter_def sw_bounded_def)
qed

section \<open>Properties\<close>

text \<open>
  C23. Under every interleaving of concurrent requests and tenant updates each tenant has one
  ring: two tenants never share one, and a request that has obtained a ring works on the ring
  registered for its own tenant, with an enabled record of that tenant.
\<close>

theorem one_ring_per_tenant:
  assumes "lim_run ls (lim_init seeds t0) = Some s"
  shows "(rl_buckets (ls_limiter s) tid = Some b \<longrightarrow> rl_buckets (ls_limiter s) tid' = Some b \<longrightarrow> tid = tid') \<and>
    (ls_procs s g = LimRing tid t b \<or> ls_procs s g = LimAdmitted tid t b \<longrightarrow>
       rl_buckets (ls_limiter s) tid = Some b \<and> t_ID t = tid \<and> t_Enabled t)"
proof -
  have ty: "lim_typed s" by (rule lim_run_typed [OF assms])
  show ?thesis
    using lim_typedD(2) [OF ty] lim_typedD(3) [OF ty, of g] by (auto simp: rl_typed_def)
qed

definition quota_tenant :: "int \<Rightarrow> tenant" where
  "quota_tenant n = \<lparr>t_ID = ''t'', t_Slug = [], t_Plan = PlanFree, t_Enabled = True, t_CreatedAt = 0,
     t_RateLimitOverride = n\<rparr>"

text \<open>Two requests that find no ring, one after the other, hold the same one.\<close>

definition two_requests :: lim_sys where
  "two_requests = the (lim_run [CArrive 0 ''t'', CArrive 1 ''t'', CBucket 1, CBucket 0, CAllowed 0 5]
     (lim_init [quota_tenant 1] 0))"

lemma two_requests_run:
  "lim_run [CArrive 0 ''t'', CArrive 1 ''t'', CBucket 1, CBucket 0, CAllowed 0 5]
     (lim_init [quota_tenant 1] 0) = Some two_requests"
proof -
  have "lim_run [CArrive 0 ''t'', CArrive 1 ''t'', CBucket 1, CBucket 0, CAllowed 0 5]
     (lim_init [quota_tenant 1] 0) \<noteq> None" by code_simp
  then show ?thesis by (simp add: two_requests_def)
qed

theorem one_ring_per_tenant_witness:
  "rl_buckets (ls_limiter two_requests) ''t'' = Some 0 \<and>
   ls_procs two_requests 0 = LimAdmitted ''t'' (quota_tenant 1) 0 \<and> ls_procs two_requests 1 = LimRing ''t'' (quota_tenant 1) 0"
proof -
  have "ls_procs two_requests 0 = LimAdmitted ''t'' (quota_tenant 1) 0"
    and "ls_procs two_requests 1 = LimRing ''t'' (quota_tenant 1) 0" by code_simp+
  with one_ring_per_tenant [OF two_requests_run, of "''t''" 0 "''t''" 1 "quota_tenant 1"] show ?thesis by simp
qed

text \<open>
  C22. The quota under concurrency: if no record of the tenant, at the start or put in while the
  requests run, has a quota above \<open>L\<close>, then whatever the interleaving at most \<open>L\<close> requests of
  the tenant are granted in any closed minute.
\<close>

theorem concurrent_quota_bound:
  assumes "lim_run ls (lim_init seeds t0) = Some s" and "0 \<le> L"
    and "\<forall>t \<in> set seeds. t_ID t = tid \<longrightarrow> RateLimit t \<le> L"
    and "\<forall>t. CUpsert t \<in> set ls \<longrightarrow> t_ID t = tid \<longrightarrow> RateLimit t \<le> L"
  shows "int (between a (a + defaultWindow) (ls_grants s tid)) \<le> L"
proof -
  let ?Q = "{n \<in> UNIV. n \<le> L}"
  have "upsert_ok ?Q tid k" if "k \<in> set ls" for k
    using assms(4) that by (cases k) auto
  then have "quota_kept ?Q L tid s"
    using lim_quota.run_inv [OF lim_init_quota [OF assms(2)] _ assms(1), of tid UNIV] assms(3) by auto
  then show ?thesis by (simp add: quota_kept_def sw_bounded_def)
qed

theorem concurrent_quota_bound_witness:
  "ls_grants two_requests ''t'' = [5] \<and> int (between 0 (0 + defaultWindow) (ls_grants two_requests ''t'')) \<le> 1"
proof -
  have "RateLimit (quota_tenant 1) \<le> 1" by code_simp
  moreover have "ls_grants two_requests ''t'' = [5]" by code_simp
  ultimately show ?thesis
    using concurrent_quota_bound [OF two_requests_run, of 1 "''t''" 0] by simp
qed

text \<open>
  With a quota that does not change, the header \<open>X-RateLimit-Remaining\<close> is between 0 and the
  quota less one, although the length of the ring is read after its lock was given up.
\<close>

theorem remaining_in_range:
  assumes "lim_run ls (lim_init seeds t0) = Some s" and "0 \<le> L" and "in_i64 L"
    and "\<forall>t \<in> set seeds. t_ID t = tid \<longrightarrow> RateLimit t = L"
    and "\<forall>t. CUpsert t \<in> set ls \<longrightarrow> t_ID t = tid \<longrightarrow> RateLimit t = L"
    and "ls_procs s g = LimAdmitted tid t b" and "lim_fire (CRemaining g) s = Some s'"
  shows "\<exists>remaining. ls_procs s' g = LimAnswered (LimForwarded L remaining) \<and> 0 \<le> remaining \<and> remaining < L"
proof -
  let ?Q = "{n \<in> {L}. n \<le> L}"
  have "upsert_ok ?Q tid k" if "k \<in> set ls" for k
    using assms(5) that by (cases k) auto
  then have k: "quota_kept ?Q L tid s"
    using lim_quota.run_inv [OF lim_init_quota [OF assms(2)] _ assms(1), of tid "{L}"] assms(4) by auto
  have "pc_typed (ls_limiter s) (LimAdmitted tid t b)"
    using lim_typedD(3) [OF lim_run_typed [OF assms(1)], of g] assms(6) by simp
  then have b: "rl_buckets (ls_limiter s) tid = Some b" and t: "t_ID t = tid" by simp_all
  from k b assms(6) have len: "int (length (rl_rings (ls_limiter s) b)) \<le> L" "rl_rings (ls_limiter s) b \<noteq> []"
    by (auto simp: quota_kept_def)
  have "quotas_in ?Q tid s" using k by (simp add: quota_kept_def)
  from quotas_inD [OF this, of g t] have l: "RateLimit t = L" using assms(6) t by simp
  have "in_i64 (L - int (length (rl_rings (ls_limiter s) b)))"
    using len assms(3) by (auto simp: in_i64_def)
  then show ?thesis
    using assms(6,7) len by (auto simp: l i64_id)
qed

theorem remaining_in_range_witness:
  "\<exists>s'. lim_fire (CRemaining 0) two_requests = Some s' \<and> ls_procs s' 0 = LimAnswered (LimForwarded 1 0)"
proof -
  have p: "ls_procs two_requests 0 = LimAdmitted ''t'' (quota_tenant 1) 0" by code_simp
  have q: "RateLimit (quota_tenant 1) = 1" by code_simp
  obtain s' where s': "lim_fire (CRemaining 0) two_requests = Some s'" using p by simp
  show ?thesis
    using remaining_in_range [OF two_requests_run _ _ _ _ p s', of 1] q s' by (auto simp: in_i64_def)
qed

definition upgrade_race :: "lim_label list" where
  "upgrade_race =
     [CArrive 0 ''t'', CBucket 0, CAllowed 0 1, CUpsert (quota_tenant 3), CArrive 1 ''t'', CBucket 1,
      CAllowed 1 2, CArrive 2 ''t'', CBucket 2, CAllowed 2 3, CRemaining 0]"

text \<open>
  An upgrade while a request is between its grant and the reading of the length makes the header
  negative: the request was granted under a quota of 1, two others under a quota of 3.
\<close>

theorem remaining_negative:
  "\<exists>s. lim_run upgrade_race (lim_init [quota_tenant 1] 0) = Some s \<and>
     ls_procs s 0 = LimAnswered (LimForwarded 1 (- 2))"
  by (rule run_checked) code_simp

end
