(* ===== verification/MetricsConcurrent.thy ===== *)
theory MetricsConcurrent
  imports GatewayMetrics
begin

text \<open>
  The metrics registry of \<open>system-design/api-gateway/observability.go\<close> under concurrent calls of
  \<open>For(tenant).Record(status, latency)\<close>.  The steps are the atomic accesses of the code: the lookup
  under the read lock, the second lookup (and the insertion) under the write lock, the two atomic
  additions of \<open>Record\<close>, and the append under \<open>latMu\<close>.
\<close>

section \<open>The atomic parts of Record\<close>

definition add_total :: "request_metrics \<Rightarrow> request_metrics" where
  "add_total m = m\<lparr>rm_Total := i64 (rm_Total m + 1)\<rparr>"

definition add_class :: "int \<Rightarrow> request_metrics \<Rightarrow> request_metrics" where
  "add_class statusCode m =
     (if statusCode \<ge> 500 then m\<lparr>rm_Errors := i64 (rm_Errors m + 1)\<rparr>
      else if statusCode \<ge> 400 then m\<lparr>rm_ClientErr := i64 (rm_ClientErr m + 1)\<rparr> else m)"

definition add_sample :: "int \<Rightarrow> request_metrics \<Rightarrow> request_metrics" where
  "add_sample latencyMs m =
     (if length (rm_latency m) < 1000 then m\<lparr>rm_latency := rm_latency m @ [latencyMs]\<rparr> else m)"

lemma Record_parts: "Record st lat m = add_sample lat (add_class st (add_total m))"
  by (simp add: Record_def add_total_def add_class_def add_sample_def Let_def)

section \<open>The goroutines\<close>

type_synonym met_addr = nat

datatype met_pc = MetFor | MetLock | MetTotal met_addr | MetClass met_addr | MetLat met_addr | MetDone

type_synonym met_call = "string \<times> int \<times> int"

record met_sys =
  ms_buckets :: "string \<Rightarrow> met_addr option"
  ms_objs :: "met_addr \<Rightarrow> request_metrics"
  ms_next :: met_addr
  ms_calls :: "met_call list"
  ms_procs :: "met_pc list"

definition set_mproc :: "nat \<Rightarrow> met_pc \<Rightarrow> met_sys \<Rightarrow> met_sys" where
  "set_mproc i pc s = s\<lparr>ms_procs := (ms_procs s)[i := pc]\<rparr>"

definition upd_obj :: "met_addr \<Rightarrow> (request_metrics \<Rightarrow> request_metrics) \<Rightarrow> met_sys \<Rightarrow> met_sys" where
  "upd_obj b f s = s\<lparr>ms_objs := (ms_objs s)(b := f (ms_objs s b))\<rparr>"

definition For_locked :: "string \<Rightarrow> met_sys \<Rightarrow> met_addr \<times> met_sys" where
  "For_locked tenantID s =
     (case ms_buckets s tenantID of
        Some b \<Rightarrow> (b, s)
      | None \<Rightarrow>
          let b = ms_next s
          in (b, s\<lparr>ms_objs := (ms_objs s)(b := new_metrics), ms_next := Suc b,
                 ms_buckets := (ms_buckets s)(tenantID \<mapsto> b)\<rparr>))"

definition met_fire :: "nat \<Rightarrow> met_sys \<Rightarrow> met_sys option" where
  "met_fire i s =
     (if i < length (ms_procs s) then
        (case ms_calls s ! i of (tenantID, statusCode, latencyMs) \<Rightarrow>
          (case ms_procs s ! i of
             MetFor \<Rightarrow> Some (set_mproc i (case ms_buckets s tenantID of Some b \<Rightarrow> MetTotal b | None \<Rightarrow> MetLock) s)
           | MetLock \<Rightarrow> (case For_locked tenantID s of (b, s) \<Rightarrow> Some (set_mproc i (MetTotal b) s))
           | MetTotal b \<Rightarrow> Some (set_mproc i (MetClass b) (upd_obj b add_total s))
           | MetClass b \<Rightarrow> Some (set_mproc i (MetLat b) (upd_obj b (add_class statusCode) s))
           | MetLat b \<Rightarrow> Some (set_mproc i MetDone (upd_obj b (add_sample latencyMs) s))
           | MetDone \<Rightarrow> None))
      else None)"

definition met_init :: "met_call list \<Rightarrow> met_sys" where
  "met_init calls =
     \<lparr>ms_buckets = (\<lambda>_. None), ms_objs = (\<lambda>_. new_metrics), ms_next = 0, ms_calls = calls,
      ms_procs = replicate (length calls) MetFor\<rparr>"

section \<open>What the counters count\<close>

fun m_stage :: "met_pc \<Rightarrow> nat" where
  "m_stage MetFor = 0"
| "m_stage MetLock = 0"
| "m_stage (MetTotal b) = 1"
| "m_stage (MetClass b) = 2"
| "m_stage (MetLat b) = 3"
| "m_stage MetDone = 4"

fun m_holds :: "met_pc \<Rightarrow> met_addr option" where
  "m_holds (MetTotal b) = Some b"
| "m_holds (MetClass b) = Some b"
| "m_holds (MetLat b) = Some b"
| "m_holds _ = None"

text \<open>The calls for a tenant, of a class of status codes, that have got past a stage.\<close>

definition past :: "met_sys \<Rightarrow> string \<Rightarrow> nat \<Rightarrow> (int \<Rightarrow> bool) \<Rightarrow> nat set" where
  "past s tid k P =
     {i. i < length (ms_procs s) \<and> fst (ms_calls s ! i) = tid \<and> k \<le> m_stage (ms_procs s ! i) \<and>
         P (fst (snd (ms_calls s ! i)))}"

abbreviation any_status :: "int \<Rightarrow> bool" where "any_status \<equiv> (\<lambda>_. True)"
abbreviation server_error :: "int \<Rightarrow> bool" where "server_error \<equiv> (\<lambda>st. 500 \<le> st)"
abbreviation client_error :: "int \<Rightarrow> bool" where "client_error \<equiv> (\<lambda>st. 400 \<le> st \<and> st < 500)"

definition samples :: "met_sys \<Rightarrow> string \<Rightarrow> int multiset" where
  "samples s tid = image_mset (\<lambda>i. snd (snd (ms_calls s ! i))) (mset_set (past s tid 4 any_status))"

definition counts :: "met_sys \<Rightarrow> string \<Rightarrow> request_metrics \<Rightarrow> bool" where
  "counts s tid m \<longleftrightarrow>
     rm_Total m = i64 (int (card (past s tid 2 any_status))) \<and>
     rm_Errors m = i64 (int (card (past s tid 3 server_error))) \<and>
     rm_ClientErr m = i64 (int (card (past s tid 3 client_error))) \<and>
     length (rm_latency m) = min 1000 (size (samples s tid)) \<and>
     mset (rm_latency m) \<subseteq># samples s tid"

definition met_inv :: "met_sys \<Rightarrow> bool" where
  "met_inv s \<longleftrightarrow>
     (\<forall>tid b. ms_buckets s tid = Some b \<longrightarrow> b < ms_next s) \<and>
     (\<forall>tid tid' b. ms_buckets s tid = Some b \<longrightarrow> ms_buckets s tid' = Some b \<longrightarrow> tid = tid') \<and>
     (\<forall>i < length (ms_procs s). \<forall>b. m_holds (ms_procs s ! i) = Some b \<longrightarrow>
        ms_buckets s (fst (ms_calls s ! i)) = Some b) \<and>
     (\<forall>i < length (ms_procs s). ms_procs s ! i = MetDone \<longrightarrow> ms_buckets s (fst (ms_calls s ! i)) \<noteq> None) \<and>
     (\<forall>tid b. ms_buckets s tid = Some b \<longrightarrow> counts s tid (ms_objs s b))"

lemma finite_past [simp]: "finite (past s tid k P)"
  by (simp add: past_def)

lemma set_mproc_fields [simp]:
  "ms_buckets (set_mproc i pc s) = ms_buckets s" "ms_objs (set_mproc i pc s) = ms_objs s"
  "ms_next (set_mproc i pc s) = ms_next s" "ms_calls (set_mproc i pc s) = ms_calls s"
  "ms_procs (set_mproc i pc s) = (ms_procs s)[i := pc]"
  by (simp_all add: set_mproc_def)

lemma upd_obj_fields [simp]:
  "ms_buckets (upd_obj b f s) = ms_buckets s" "ms_objs (upd_obj b f s) = (ms_objs s)(b := f (ms_objs s b))"
  "ms_next (upd_obj b f s) = ms_next s" "ms_calls (upd_obj b f s) = ms_calls s"
  "ms_procs (upd_obj b f s) = ms_procs s"
  by (simp_all add: upd_obj_def)

text \<open>A goroutine that moves on joins the sets of the stages it gets past.\<close>

lemma past_step:
  assumes "i < length (ms_procs s)" and "ms_calls s' = ms_calls s" and "ms_procs s' = (ms_procs s)[i := pc]"
    and "m_stage (ms_procs s ! i) \<le> m_stage pc"
  shows "past s' tid k P =
    (if fst (ms_calls s ! i) = tid \<and> m_stage (ms_procs s ! i) < k \<and> k \<le> m_stage pc \<and> P (fst (snd (ms_calls s ! i)))
     then insert i (past s tid k P) else past s tid k P)"
  using assms by (auto simp: past_def nth_list_update)

lemma past_not: "m_stage (ms_procs s ! i) < k \<Longrightarrow> i \<notin> past s tid k P"
  by (simp add: past_def)

lemma i64_zero [simp]: "i64 0 = 0"
  by (simp add: in_i64_def)

lemma samples_step:
  assumes "i < length (ms_procs s)" and "ms_calls s' = ms_calls s" and "ms_procs s' = (ms_procs s)[i := pc]"
    and "m_stage (ms_procs s ! i) \<le> m_stage pc" and "m_stage (ms_procs s ! i) < 4"
  shows "samples s' tid =
    (if fst (ms_calls s ! i) = tid \<and> pc = MetDone then add_mset (snd (snd (ms_calls s ! i))) (samples s tid)
     else samples s tid)"
proof -
  have "4 \<le> m_stage pc \<longleftrightarrow> pc = MetDone" by (cases pc) auto
  with past_step [OF assms(1-4), of tid 4 any_status] assms(2,5) past_not [OF assms(5)] show ?thesis
    by (auto simp: samples_def)
qed

lemma counts_other:
  assumes "i < length (ms_procs s)" and "ms_calls s' = ms_calls s" and "ms_procs s' = (ms_procs s)[i := pc]"
    and "m_stage (ms_procs s ! i) \<le> m_stage pc" and "m_stage (ms_procs s ! i) < 4"
    and "fst (ms_calls s ! i) \<noteq> tid \<or> m_stage pc \<le> 1"
  shows "counts s' tid m = counts s tid m"
proof -
  have p: "past s' tid k P = past s tid k P" if "1 < k" for k P
    using past_step [OF assms(1-4)] assms(6) that by auto
  have "samples s' tid = samples s tid"
    using p [of 4 any_status] assms(2) by (simp add: samples_def)
  with p show ?thesis by (simp add: counts_def)
qed

lemma counts_total:
  assumes "i < length (ms_procs s)" and "ms_calls s' = ms_calls s" and "ms_procs s' = (ms_procs s)[i := MetClass b]"
    and "ms_procs s ! i = MetTotal b" and "fst (ms_calls s ! i) = tid" and "counts s tid m"
  shows "counts s' tid (add_total m)"
proof -
  have le: "m_stage (ms_procs s ! i) \<le> m_stage (MetClass b)" and lt: "m_stage (ms_procs s ! i) < 4"
    using assms(4) by simp_all
  note P = past_step [OF assms(1-3) le] and S = samples_step [OF assms(1-3) le lt]
  have "i \<notin> past s tid 2 any_status" by (rule past_not) (simp add: assms(4))
  then show ?thesis
    using assms(4-6) P S by (simp add: counts_def add_total_def add.commute)
qed

lemma counts_class:
  assumes "i < length (ms_procs s)" and "ms_calls s' = ms_calls s" and "ms_procs s' = (ms_procs s)[i := MetLat b]"
    and "ms_procs s ! i = MetClass b" and "ms_calls s ! i = (tid, st, lat)" and "counts s tid m"
  shows "counts s' tid (add_class st m)"
proof -
  have le: "m_stage (ms_procs s ! i) \<le> m_stage (MetLat b)" and lt: "m_stage (ms_procs s ! i) < 4"
    using assms(4) by simp_all
  note P = past_step [OF assms(1-3) le] and S = samples_step [OF assms(1-3) le lt]
  have "i \<notin> past s tid 3 Q" for Q by (rule past_not) (simp add: assms(4))
  then show ?thesis
    using assms(4-6) P S by (auto simp: counts_def add_class_def add.commute)
qed

lemma counts_sample:
  assumes "i < length (ms_procs s)" and "ms_calls s' = ms_calls s" and "ms_procs s' = (ms_procs s)[i := MetDone]"
    and "ms_procs s ! i = MetLat b" and "ms_calls s ! i = (tid, st, lat)" and "counts s tid m"
  shows "counts s' tid (add_sample lat m)"
proof -
  have le: "m_stage (ms_procs s ! i) \<le> m_stage MetDone" and lt: "m_stage (ms_procs s ! i) < 4"
    using assms(4) by simp_all
  note P = past_step [OF assms(1-3) le] and S = samples_step [OF assms(1-3) le lt]
  have "mset (rm_latency m) \<subseteq># add_mset lat (samples s tid)" if "mset (rm_latency m) \<subseteq># samples s tid"
    using that by (metis add_mset_add_single mset_subset_eq_add_left subset_mset.order_trans)
  then show ?thesis
    using assms(4-6) P S by (auto simp: counts_def add_sample_def)
qed

section \<open>The invariant\<close>

lemma met_invD:
  assumes "met_inv s"
  shows "ms_buckets s tid = Some b \<Longrightarrow> b < ms_next s"
    and "ms_buckets s tid = Some b \<Longrightarrow> ms_buckets s tid' = Some b \<Longrightarrow> tid = tid'"
    and "i < length (ms_procs s) \<Longrightarrow> m_holds (ms_procs s ! i) = Some b \<Longrightarrow> ms_buckets s (fst (ms_calls s ! i)) = Some b"
    and "i < length (ms_procs s) \<Longrightarrow> ms_procs s ! i = MetDone \<Longrightarrow> ms_buckets s (fst (ms_calls s ! i)) \<noteq> None"
    and "ms_buckets s tid = Some b \<Longrightarrow> counts s tid (ms_objs s b)"
  using assms by (auto simp: met_inv_def)

lemma met_invI:
  assumes "\<And>tid b. ms_buckets s tid = Some b \<Longrightarrow> b < ms_next s"
    and "\<And>tid tid' b. ms_buckets s tid = Some b \<Longrightarrow> ms_buckets s tid' = Some b \<Longrightarrow> tid = tid'"
    and "\<And>i b. i < length (ms_procs s) \<Longrightarrow> m_holds (ms_procs s ! i) = Some b \<Longrightarrow> ms_buckets s (fst (ms_calls s ! i)) = Some b"
    and "\<And>i. i < length (ms_procs s) \<Longrightarrow> ms_procs s ! i = MetDone \<Longrightarrow> ms_buckets s (fst (ms_calls s ! i)) \<noteq> None"
    and "\<And>tid b. ms_buckets s tid = Some b \<Longrightarrow> counts s tid (ms_objs s b)"
  shows "met_inv s"
  unfolding met_inv_def by (intro conjI allI impI) (rule assms, assumption+)+

text \<open>A step of a goroutine that works on the object of its tenant.\<close>

lemma obj_step_inv:
  assumes inv: "met_inv s" and i: "i < length (ms_procs s)" "fst (ms_calls s ! i) = tid"
    and h: "m_holds (ms_procs s ! i) = Some b" and pc: "m_holds pc = Some b \<or> pc = MetDone"
    and stage: "m_stage (ms_procs s ! i) \<le> m_stage pc"
    and c: "\<And>m. counts s tid m \<Longrightarrow> counts (set_mproc i pc (upd_obj b f s)) tid (f m)"
  shows "met_inv (set_mproc i pc (upd_obj b f s))" (is "met_inv ?s")
proof -
  have b: "ms_buckets s tid = Some b" using met_invD(3) [OF inv i(1) h] i(2) by simp
  have lt: "m_stage (ms_procs s ! i) < 4" using h by (cases "ms_procs s ! i") auto
  have other: "counts ?s tid' m = counts s tid' m" if "tid' \<noteq> tid" for tid' m
    using that i(2) by (intro counts_other [OF i(1) _ _ stage lt]) auto
  have "counts ?s tid' (ms_objs ?s b')" if "ms_buckets s tid' = Some b'" for tid' b'
  proof (cases "tid' = tid")
    case True
    then show ?thesis using that b c met_invD(5) [OF inv b] by simp
  next
    case False
    then have "b' \<noteq> b" using met_invD(2) [OF inv that] b by auto
    then show ?thesis using other [OF False] met_invD(5) [OF inv that] by simp
  qed
  moreover have "ms_buckets s (fst (ms_calls s ! j)) = Some b'"
    if "j < length (ms_procs s)" "m_holds ((ms_procs s)[i := pc] ! j) = Some b'" for j b'
    using that met_invD(3) [OF inv that(1)] b i pc by (cases "j = i") auto
  moreover have "ms_buckets s (fst (ms_calls s ! j)) \<noteq> None"
    if "j < length (ms_procs s)" "(ms_procs s)[i := pc] ! j = MetDone" for j
    using that met_invD(4) [OF inv that(1)] b i by (cases "j = i") auto
  ultimately show ?thesis
    using met_invD(1,2) [OF inv] unfolding met_inv_def by simp
qed

text \<open>A lookup: the goroutine moves to its object, or on to the write lock.\<close>

lemma lookup_inv:
  assumes inv: "met_inv s" and i: "i < length (ms_procs s)" "m_stage (ms_procs s ! i) = 0"
    and pc: "pc = MetLock \<or> (\<exists>b. pc = MetTotal b \<and> ms_buckets s (fst (ms_calls s ! i)) = Some b)"
  shows "met_inv (set_mproc i pc s)"
proof -
  have stage: "m_stage (ms_procs s ! i) \<le> m_stage pc" "m_stage (ms_procs s ! i) < 4" "m_stage pc \<le> 1"
    using i pc by auto
  have "counts (set_mproc i pc s) tid m = counts s tid m" for tid m
    using stage by (intro counts_other [OF i(1)]) auto
  moreover have "ms_buckets s (fst (ms_calls s ! j)) = Some b'"
    if "j < length (ms_procs s)" "m_holds ((ms_procs s)[i := pc] ! j) = Some b'" for j b'
    using that met_invD(3) [OF inv that(1)] i pc by (cases "j = i") auto
  moreover have "ms_buckets s (fst (ms_calls s ! j)) \<noteq> None"
    if "j < length (ms_procs s)" "(ms_procs s)[i := pc] ! j = MetDone" for j
    using that met_invD(4) [OF inv that(1)] i pc by (cases "j = i") auto
  ultimately show ?thesis
    using met_invD(1,2,5) [OF inv] unfolding met_inv_def by simp
qed

lemma unregistered_past:
  assumes "met_inv s" and "ms_buckets s tid = None" and "0 < k"
  shows "past s tid k P = {}"
proof -
  have False if i: "i < length (ms_procs s)" "fst (ms_calls s ! i) = tid" "k \<le> m_stage (ms_procs s ! i)" for i
    using met_invD(3,4) [OF assms(1) i(1)] i(2,3) assms(2,3) by (cases "ms_procs s ! i") auto
  then show ?thesis by (auto simp: past_def)
qed

lemma For_locked_inv:
  assumes inv: "met_inv s" and F: "For_locked tid s = (b, s')"
  shows "met_inv s'" and "ms_buckets s' tid = Some b" and "ms_procs s' = ms_procs s" and "ms_calls s' = ms_calls s"
proof -
  show "ms_buckets s' tid = Some b" "ms_procs s' = ms_procs s" "ms_calls s' = ms_calls s"
    using F by (auto simp: For_locked_def Let_def split: option.splits)
  show "met_inv s'"
  proof (cases "ms_buckets s tid")
    case None
    let ?b = "ms_next s"
    have s': "s' = s\<lparr>ms_objs := (ms_objs s)(?b := new_metrics), ms_next := Suc ?b,
        ms_buckets := (ms_buckets s)(tid \<mapsto> ?b)\<rparr>"
      using F None by (auto simp: For_locked_def Let_def)
    have fresh: "b' < ?b" if "ms_buckets s tid' = Some b'" for tid' b' using met_invD(1) [OF inv that] .
    have c: "counts s' tid' m = counts s tid' m" for tid' m
      by (simp add: s' counts_def samples_def past_def)
    have new: "counts s tid new_metrics"
      using unregistered_past [OF inv None] by (simp add: counts_def samples_def new_metrics_def)
    have keep: "ms_buckets s tid' = Some b' \<Longrightarrow> ms_buckets s' tid' = Some b'" for tid' b'
      using None by (auto simp: s')
    show ?thesis
    proof (rule met_invI)
      fix tid' b' assume b': "ms_buckets s' tid' = Some b'"
      then show "b' < ms_next s'" using fresh [of tid' b'] by (auto simp: s' split: if_splits)
      show "counts s' tid' (ms_objs s' b')"
        using b' new met_invD(5) [OF inv, of tid' b'] fresh [of tid' b']
        by (cases "tid' = tid") (auto simp: c, auto simp: s')
      show "tid' = tid''" if "ms_buckets s' tid'' = Some b'" for tid''
        using b' that fresh [of tid' b'] fresh [of tid'' b'] met_invD(2) [OF inv, of tid' b' tid'']
        by (auto simp: s' split: if_splits)
    next
      fix j assume j: "j < length (ms_procs s')"
      show "ms_buckets s' (fst (ms_calls s' ! j)) = Some b'" if "m_holds (ms_procs s' ! j) = Some b'" for b'
        using keep met_invD(3) [OF inv, of j b'] j that by (simp add: s')
      show "ms_buckets s' (fst (ms_calls s' ! j)) \<noteq> None" if "ms_procs s' ! j = MetDone"
        using keep met_invD(4) [OF inv, of j] j that by (auto simp: s')
    qed
  qed (use F inv in \<open>simp add: For_locked_def\<close>)
qed

lemma met_fire_inv:
  assumes inv: "met_inv s" and st: "met_fire i s = Some s'"
  shows "met_inv s'"
proof -
  obtain tid c lat where call: "ms_calls s ! i = (tid, c, lat)" by (cases "ms_calls s ! i")
  have i: "i < length (ms_procs s)" using st by (simp add: met_fire_def split: if_splits)
  show ?thesis
  proof (cases "ms_procs s ! i")
    case MetFor
    then show ?thesis
      using st i call lookup_inv [OF inv i] by (auto simp: met_fire_def split: option.splits)
  next
    case MetLock
    obtain b s1 where F: "For_locked tid s = (b, s1)" by fastforce
    note L = For_locked_inv [OF inv F]
    have "s' = set_mproc i (MetTotal b) s1" using st i call MetLock F by (simp add: met_fire_def)
    moreover have "met_inv (set_mproc i (MetTotal b) s1)"
      using i call MetLock L by (intro lookup_inv) auto
    ultimately show ?thesis by simp
  next
    case (MetTotal b)
    then show ?thesis
      using st i call
      by (auto simp: met_fire_def intro!: obj_step_inv [OF inv i] counts_total [OF i])
  next
    case (MetClass b)
    then show ?thesis
      using st i call
      by (auto simp: met_fire_def intro!: obj_step_inv [OF inv i] counts_class [OF i])
  next
    case (MetLat b)
    then show ?thesis
      using st i call
      by (auto simp: met_fire_def intro!: obj_step_inv [OF inv i] counts_sample [OF i])
  next
    case MetDone
    then show ?thesis using st i call by (simp add: met_fire_def)
  qed
qed

lemma met_init_inv: "met_inv (met_init calls)"
  by (simp add: met_inv_def met_init_def)

interpretation met_steps: invariant_steps met_fire "\<lambda>_. True" met_inv
  by unfold_locales (rule met_fire_inv)

text \<open>The calls stay, and only tenants that were called have an object.\<close>

definition met_frame :: "met_call list \<Rightarrow> met_sys \<Rightarrow> bool" where
  "met_frame calls s \<longleftrightarrow>
     ms_calls s = calls \<and> length (ms_procs s) = length calls \<and> dom (ms_buckets s) \<subseteq> fst ` set calls"

lemma met_fire_frame:
  assumes fr: "met_frame calls s" and st: "met_fire i s = Some s'"
  shows "met_frame calls s'"
proof -
  have i: "i < length calls" using fr st by (simp add: met_fire_def met_frame_def split: if_splits)
  then have "fst (calls ! i) \<in> fst ` set calls" by simp
  moreover have "ms_calls s' = ms_calls s" "length (ms_procs s') = length (ms_procs s)"
    and "dom (ms_buckets s') \<subseteq> insert (fst (ms_calls s ! i)) (dom (ms_buckets s))"
    using st by (auto simp: met_fire_def For_locked_def Let_def
        split: if_splits prod.splits met_pc.splits option.splits)
  ultimately show ?thesis using fr by (auto simp: met_frame_def)
qed

interpretation met_frames: invariant_steps met_fire "\<lambda>_. True" "met_frame calls" for calls
  by unfold_locales (rule met_fire_frame)

section \<open>The sequential registry\<close>

definition tally :: "met_call list \<Rightarrow> string \<Rightarrow> (int \<Rightarrow> bool) \<Rightarrow> nat" where
  "tally calls tid P = length (filter (\<lambda>c. fst c = tid \<and> P (fst (snd c))) calls)"

definition latencies :: "met_call list \<Rightarrow> string \<Rightarrow> int list" where
  "latencies calls tid = map (\<lambda>c. snd (snd c)) (filter (\<lambda>c. fst c = tid) calls)"

definition tallies :: "met_call list \<Rightarrow> string \<Rightarrow> request_metrics \<Rightarrow> bool" where
  "tallies calls tid m \<longleftrightarrow>
     rm_Total m = i64 (int (tally calls tid any_status)) \<and>
     rm_Errors m = i64 (int (tally calls tid server_error)) \<and>
     rm_ClientErr m = i64 (int (tally calls tid client_error)) \<and>
     length (rm_latency m) = min 1000 (length (latencies calls tid)) \<and>
     mset (rm_latency m) \<subseteq># mset (latencies calls tid)"

definition record_all :: "met_call list \<Rightarrow> registry" where
  "record_all calls = fold (\<lambda>(tid, st, lat). record_for tid st lat) calls NewMetricsRegistry"

lemma tallies_Record:
  "tallies calls tid m \<Longrightarrow> tallies (calls @ [(tid, st, lat)]) tid (Record st lat m)"
proof -
  assume t: "tallies calls tid m"
  have "mset (rm_latency m) \<subseteq># add_mset lat (mset (latencies calls tid))"
    using t by (metis add_mset_add_single mset_subset_eq_add_left subset_mset.order_trans tallies_def)
  then show ?thesis
    using t by (auto simp: tallies_def tally_def latencies_def Record_parts add_total_def add_class_def add_sample_def add.commute)
qed

lemma record_all_tallies:
  "case record_all calls tid of None \<Rightarrow> tid \<notin> fst ` set calls | Some m \<Rightarrow> tid \<in> fst ` set calls \<and> tallies calls tid m"
proof (induction calls rule: rev_induct)
  case Nil
  then show ?case by (simp add: record_all_def NewMetricsRegistry_def)
next
  case (snoc c calls)
  obtain tid' st lat where c: "c = (tid', st, lat)" by (cases c)
  have step: "record_all (calls @ [c]) = record_for tid' st lat (record_all calls)"
    by (simp add: record_all_def c)
  show ?case
  proof (cases "tid' = tid")
    case True
    have "tallies [] tid new_metrics" by (simp add: tallies_def tally_def latencies_def new_metrics_def)
    moreover have "tallies calls tid new_metrics" if "tid \<notin> fst ` set calls"
    proof -
      have "tally calls tid P = 0" for P using that by (auto simp: tally_def filter_empty_conv)
      moreover have "latencies calls tid = []" using that by (auto simp: latencies_def filter_empty_conv)
      ultimately show ?thesis by (simp add: tallies_def new_metrics_def)
    qed
    ultimately show ?thesis
      using snoc.IH tallies_Record [of calls tid] True
      by (auto simp: step [unfolded c True] record_for_def For_def c Let_def split: option.splits)
  next
    case False
    then have "record_all (calls @ [c]) tid = record_all calls tid"
      by (simp add: step record_for_def For_def Let_def split: option.split prod.split)
    moreover have "tallies (calls @ [c]) tid m = tallies calls tid m" for m
      using False by (simp add: tallies_def tally_def latencies_def c)
    ultimately show ?thesis using snoc.IH False by (auto simp: c split: option.splits)
  qed
qed

section \<open>When all calls are done\<close>

lemma filter_indices: "mset (filter P xs) = image_mset ((!) xs) (mset_set {i. i < length xs \<and> P (xs ! i)})"
proof -
  have "filter P xs = filter P (map ((!) xs) [0..<length xs])" by (simp only: map_nth)
  also have "\<dots> = map ((!) xs) (filter (\<lambda>i. P (xs ! i)) [0..<length xs])" by (simp add: filter_map comp_def)
  finally have "mset (filter P xs) = image_mset ((!) xs) (mset (filter (\<lambda>i. P (xs ! i)) [0..<length xs]))" by simp
  moreover have "set (filter (\<lambda>i. P (xs ! i)) [0..<length xs]) = {i. i < length xs \<and> P (xs ! i)}" by auto
  ultimately show ?thesis by (metis distinct_filter distinct_upt mset_set_set)
qed

lemma done_tallies:
  assumes inv: "met_inv s" and calls: "ms_calls s = calls" "length (ms_procs s) = length calls"
    and fin: "\<forall>pc \<in> set (ms_procs s). pc = MetDone" and b: "ms_buckets s tid = Some b"
  shows "tallies calls tid (ms_objs s b)"
proof -
  have st: "m_stage (ms_procs s ! i) = 4" if "i < length calls" for i
    using fin that calls(2) by (metis m_stage.simps(6) nth_mem)
  have p: "past s tid k P = {i. i < length calls \<and> fst (calls ! i) = tid \<and> P (fst (snd (calls ! i)))}" if "k \<le> 4" for k P
    using st that by (auto simp: past_def calls)
  have "card (past s tid k P) = tally calls tid P" if "k \<le> 4" for k P
    by (simp add: p [OF that] tally_def length_filter_conv_card)
  moreover have "samples s tid = mset (latencies calls tid)"
    unfolding samples_def latencies_def mset_map filter_indices
    by (simp add: p calls image_mset.compositionality comp_def)
  moreover from this have "size (samples s tid) = length (latencies calls tid)" by simp
  ultimately show ?thesis
    using met_invD(5) [OF inv b] by (simp add: counts_def tallies_def)
qed

text \<open>Every step brings a goroutine closer to its end, and one that has not returned can move.\<close>

fun steps_to_go :: "met_pc \<Rightarrow> nat" where
  "steps_to_go MetFor = 5"
| "steps_to_go MetLock = 4"
| "steps_to_go (MetTotal b) = 3"
| "steps_to_go (MetClass b) = 2"
| "steps_to_go (MetLat b) = 1"
| "steps_to_go MetDone = 0"

lemma met_fire_closer:
  assumes "met_fire i s = Some s'"
  shows "sum_list (map steps_to_go (ms_procs s')) < sum_list (map steps_to_go (ms_procs s))"
proof -
  have i: "i < length (ms_procs s)" using assms by (simp add: met_fire_def split: if_splits)
  have "steps_to_go (ms_procs s ! i) \<le> sum_list (map steps_to_go (ms_procs s))"
    using i elem_le_sum_list [of i "map steps_to_go (ms_procs s)"] by simp
  moreover have "\<exists>pc. ms_procs s' = (ms_procs s)[i := pc] \<and> steps_to_go pc < steps_to_go (ms_procs s ! i)"
    using assms by (auto simp: met_fire_def For_locked_def Let_def
        split: if_splits prod.splits met_pc.splits option.splits)
  ultimately show ?thesis using i by (auto simp: map_update sum_list_update)
qed

lemma met_run_bounded:
  "run_steps met_fire sched s = Some s' \<Longrightarrow>
   length sched + sum_list (map steps_to_go (ms_procs s')) \<le> sum_list (map steps_to_go (ms_procs s))"
proof (induction sched arbitrary: s)
  case (Cons i sched)
  then obtain s1 where "met_fire i s = Some s1" "run_steps met_fire sched s1 = Some s'"
    by (auto simp: bind_eq_Some_conv)
  with Cons.IH [OF this(2)] met_fire_closer [OF this(1)] show ?case by simp
qed simp

lemma met_stuck:
  assumes "\<forall>i. met_fire i s = None" and "pc \<in> set (ms_procs s)"
  shows "pc = MetDone"
proof -
  from assms(2) obtain i where "i < length (ms_procs s)" "ms_procs s ! i = pc" by (metis in_set_conv_nth)
  with spec [OF assms(1), of i] show ?thesis
    by (cases pc) (auto simp: met_fire_def split: prod.splits)
qed

lemma done_records:
  assumes "run_steps met_fire sched (met_init calls) = Some s" and "\<forall>pc \<in> set (ms_procs s). pc = MetDone"
  shows "case record_all calls tid of
      None \<Rightarrow> ms_buckets s tid = None
    | Some m \<Rightarrow> \<exists>b. ms_buckets s tid = Some b \<and> rm_Total (ms_objs s b) = rm_Total m \<and>
        rm_Errors (ms_objs s b) = rm_Errors m \<and> rm_ClientErr (ms_objs s b) = rm_ClientErr m \<and>
        length (rm_latency (ms_objs s b)) = length (rm_latency m) \<and>
        mset (rm_latency (ms_objs s b)) \<subseteq># mset (latencies calls tid) \<and>
        (length (latencies calls tid) \<le> 1000 \<longrightarrow> mset (rm_latency (ms_objs s b)) = mset (rm_latency m))"
proof -
  have inv: "met_inv s" using met_steps.run_inv [OF met_init_inv _ assms(1)] by simp
  have "met_frame calls (met_init calls)" by (simp add: met_frame_def met_init_def)
  from met_frames.run_inv [OF this _ assms(1)]
  have fr: "ms_calls s = calls" "length (ms_procs s) = length calls" "dom (ms_buckets s) \<subseteq> fst ` set calls"
    by (simp_all add: met_frame_def)
  have called: "ms_buckets s tid \<noteq> None" if "tid \<in> fst ` set calls"
  proof -
    from that obtain i where "i < length calls" "fst (calls ! i) = tid" by (metis imageE in_set_conv_nth)
    then show ?thesis using met_invD(4) [OF inv, of i] fr(1,2) assms(2) by auto
  qed
  have full: "mset (rm_latency m) = mset (latencies calls tid)"
    if "tallies calls tid m" "length (latencies calls tid) \<le> 1000" for m
    using that mset_subset_size [of "mset (rm_latency m)" "mset (latencies calls tid)"]
    by (auto simp: tallies_def subset_mset.le_less)
  show ?thesis
  proof (cases "record_all calls tid")
    case None
    then show ?thesis using record_all_tallies [of tid calls] fr(3) by auto
  next
    case (Some m)
    then have m: "tid \<in> fst ` set calls" "tallies calls tid m" using record_all_tallies [of tid calls] by simp_all
    from called [OF m(1)] obtain b where b: "ms_buckets s tid = Some b" by blast
    note t = done_tallies [OF inv fr(1,2) assms(2) b]
    from full [OF t] full [OF m(2)]
    have "length (latencies calls tid) \<le> 1000 \<Longrightarrow> mset (rm_latency (ms_objs s b)) = mset (rm_latency m)" by simp
    with t m(2) b Some show ?thesis by (auto simp: tallies_def)
  qed
qed

text \<open>
  C26. No update is lost.  Whatever the interleaving of concurrent \<open>For(tenant).Record\<close> calls, after
  at most five steps of each nobody can move, all have returned, and the registry has an object for exactly the tenants that were called, with the
  counters and the number of samples that recording the calls one after the other gives; the
  samples are latencies of the tenant's calls, and all of them if there are at most 1000.
\<close>

theorem concurrent_records_counted:
  assumes "run_steps met_fire sched (met_init calls) = Some s"
  shows "length sched \<le> 5 * length calls \<and>
    ((\<forall>i. met_fire i s = None) \<longrightarrow> (\<forall>pc \<in> set (ms_procs s). pc = MetDone) \<and>
    (case record_all calls tid of
      None \<Rightarrow> ms_buckets s tid = None
    | Some m \<Rightarrow> \<exists>b. ms_buckets s tid = Some b \<and> rm_Total (ms_objs s b) = rm_Total m \<and>
        rm_Errors (ms_objs s b) = rm_Errors m \<and> rm_ClientErr (ms_objs s b) = rm_ClientErr m \<and>
        length (rm_latency (ms_objs s b)) = length (rm_latency m) \<and>
        mset (rm_latency (ms_objs s b)) \<subseteq># mset (latencies calls tid) \<and>
        (length (latencies calls tid) \<le> 1000 \<longrightarrow> mset (rm_latency (ms_objs s b)) = mset (rm_latency m))))"
proof (intro conjI impI)
  show "length sched \<le> 5 * length calls"
    using met_run_bounded [OF assms] by (simp add: met_init_def sum_list_replicate)
next
  assume "\<forall>i. met_fire i s = None"
  then show "\<forall>pc \<in> set (ms_procs s). pc = MetDone" using met_stuck by blast
next
  assume "\<forall>i. met_fire i s = None"
  then have "\<forall>pc \<in> set (ms_procs s). pc = MetDone" using met_stuck by blast
  from done_records [OF assms this] show "case record_all calls tid of
      None \<Rightarrow> ms_buckets s tid = None
    | Some m \<Rightarrow> \<exists>b. ms_buckets s tid = Some b \<and> rm_Total (ms_objs s b) = rm_Total m \<and>
        rm_Errors (ms_objs s b) = rm_Errors m \<and> rm_ClientErr (ms_objs s b) = rm_ClientErr m \<and>
        length (rm_latency (ms_objs s b)) = length (rm_latency m) \<and>
        mset (rm_latency (ms_objs s b)) \<subseteq># mset (latencies calls tid) \<and>
        (length (latencies calls tid) \<le> 1000 \<longrightarrow> mset (rm_latency (ms_objs s b)) = mset (rm_latency m))" .
qed

definition met_calls :: "met_call list" where
  "met_calls = [(''a'', 200, 5), (''a'', 503, 7), (''b'', 404, 9)]"

text \<open>Both calls for the same tenant miss the registry; one of them creates the object.\<close>

definition met_sched :: "nat list" where
  "met_sched = [0, 1, 1, 0, 2, 1, 0, 0, 2, 1, 2, 0, 1, 2, 2]"

theorem concurrent_records_counted_witness:
  "\<exists>s b. run_steps met_fire met_sched (met_init met_calls) = Some s \<and> ms_buckets s ''a'' = Some b \<and>
     rm_Total (ms_objs s b) = 2 \<and> rm_Errors (ms_objs s b) = 1"
proof -
  have "case run_steps met_fire met_sched (met_init met_calls) of None \<Rightarrow> False
    | Some s \<Rightarrow> ms_procs s = replicate 3 MetDone" by code_simp
  from run_checked [OF this] obtain s where s: "run_steps met_fire met_sched (met_init met_calls) = Some s"
    "ms_procs s = replicate 3 MetDone" by blast
  have stuck: "\<forall>i. met_fire i s = None" using s(2) by (auto simp: met_fire_def split: prod.split)
  have "case record_all met_calls ''a'' of None \<Rightarrow> False | Some m \<Rightarrow> rm_Total m = 2 \<and> rm_Errors m = 1" by code_simp
  from run_checked [OF this] obtain m where "record_all met_calls ''a'' = Some m" "rm_Total m = 2" "rm_Errors m = 1"
    by blast
  with concurrent_records_counted [OF s(1), of "''a''"] stuck s(1) show ?thesis by auto
qed

end
