(* ===== verification/PubSub.thy ===== *)
theory PubSub
  imports GoPrelude
begin

text \<open>
  The broker of \<open>system-design/pub-sub/pubsub.go\<close>.  A channel is an address in a store of channels;
  a subscriber is the address of its channel.  The critical sections of \<open>Subscribe\<close>, \<open>Unsubscribe\<close>
  and \<open>Close\<close> are one step each.  \<open>Publish\<close> copies the subscribers under the read lock and sends
  afterwards without it, so it is a step that starts a publisher and one step per send, in any
  interleaving with the others.  Sending on a closed channel, and closing one twice, panics.
\<close>

section \<open>Data\<close>

record 'p message =
  ms_Topic :: string
  ms_Payload :: 'p
  ms_Timestamp :: time

type_synonym chan_addr = nat

record 'p channel =
  ch_buf :: "'p message list"
  ch_closed :: bool

record 'p broker =
  ps_subscribers :: "string \<Rightarrow> chan_addr list"
  ps_bufSize :: nat
  ps_chans :: "chan_addr \<Rightarrow> 'p channel"
  ps_next :: chan_addr

definition NewPubSub :: "int \<Rightarrow> 'p broker" where
  "NewPubSub bufSize =
     \<lparr>ps_subscribers = (\<lambda>_. []), ps_bufSize = nat (if bufSize \<le> 0 then 64 else bufSize),
      ps_chans = (\<lambda>_. \<lparr>ch_buf = [], ch_closed = False\<rparr>), ps_next = 0\<rparr>"

section \<open>Operations\<close>

definition close_chan :: "chan_addr \<Rightarrow> 'p broker \<Rightarrow> 'p broker step_result" where
  "close_chan c ps =
     (if ch_closed (ps_chans ps c) then Panics
      else Steps (ps\<lparr>ps_chans := (ps_chans ps)(c := (ps_chans ps c)\<lparr>ch_closed := True\<rparr>)\<rparr>))"

definition Subscribe :: "string \<Rightarrow> 'p broker \<Rightarrow> chan_addr \<times> 'p broker" where
  "Subscribe topic ps =
     (let c = ps_next ps in
      (c, ps\<lparr>ps_next := Suc c,
             ps_chans := (ps_chans ps)(c := \<lparr>ch_buf = [], ch_closed = False\<rparr>),
             ps_subscribers := (ps_subscribers ps)(topic := ps_subscribers ps topic @ [c])\<rparr>))"

text \<open>The search for the channel; the slot found is overwritten by the last one, which is cut off.\<close>

fun find_sub :: "chan_addr \<Rightarrow> chan_addr list \<Rightarrow> nat \<Rightarrow> nat option" where
  "find_sub ch [] i = None"
| "find_sub ch (sub # subs) i = (if sub = ch then Some i else find_sub ch subs (i + 1))"

definition swap_remove :: "nat \<Rightarrow> chan_addr list \<Rightarrow> chan_addr list" where
  "swap_remove i subs = take (length subs - 1) (subs[i := subs ! (length subs - 1)])"

definition Unsubscribe :: "string \<Rightarrow> chan_addr \<Rightarrow> 'p broker \<Rightarrow> 'p broker step_result" where
  "Unsubscribe topic ch ps =
     (let subs = ps_subscribers ps topic in
      case find_sub ch subs 0 of
        None \<Rightarrow> Steps ps
      | Some i \<Rightarrow>
          close_chan (subs ! i) (ps\<lparr>ps_subscribers := (ps_subscribers ps)(topic := swap_remove i subs)\<rparr>))"

text \<open>\<open>Publish\<close> up to the end of the read lock: the message and the copy of the subscribers.\<close>

definition publish_begin :: "string \<Rightarrow> 'p \<Rightarrow> time \<Rightarrow> 'p broker \<Rightarrow> 'p message \<times> chan_addr list" where
  "publish_begin topic payload now ps =
     (\<lparr>ms_Topic = topic, ms_Payload = payload, ms_Timestamp = now\<rparr>, ps_subscribers ps topic)"

text \<open>The \<open>select\<close> with a default.\<close>

definition try_send :: "'p message \<Rightarrow> chan_addr \<Rightarrow> 'p broker \<Rightarrow> 'p broker step_result" where
  "try_send msg c ps =
     (if ch_closed (ps_chans ps c) then Panics
      else if length (ch_buf (ps_chans ps c)) < ps_bufSize ps
      then Steps (ps\<lparr>ps_chans := (ps_chans ps)(c := (ps_chans ps c)\<lparr>ch_buf := ch_buf (ps_chans ps c) @ [msg]\<rparr>)\<rparr>)
      else Steps ps)"

fun send_all :: "'p message \<Rightarrow> chan_addr list \<Rightarrow> 'p broker \<Rightarrow> 'p broker step_result" where
  "send_all msg [] ps = Steps ps"
| "send_all msg (c # cs) ps =
     (case try_send msg c ps of Steps ps' \<Rightarrow> send_all msg cs ps' | Panics \<Rightarrow> Panics | Blocked \<Rightarrow> Blocked)"

text \<open>\<open>Publish\<close> with nobody in between.\<close>

definition Publish :: "string \<Rightarrow> 'p \<Rightarrow> time \<Rightarrow> 'p broker \<Rightarrow> 'p broker step_result" where
  "Publish topic payload now ps =
     (let (msg, subs) = publish_begin topic payload now ps in send_all msg subs ps)"

text \<open>\<open>Close\<close> visits the topics in the order \<open>topics\<close>, which must hold every key of the map.\<close>

fun close_subs :: "chan_addr list \<Rightarrow> 'p broker \<Rightarrow> 'p broker step_result" where
  "close_subs [] ps = Steps ps"
| "close_subs (c # cs) ps =
     (case close_chan c ps of Steps ps' \<Rightarrow> close_subs cs ps' | Panics \<Rightarrow> Panics | Blocked \<Rightarrow> Blocked)"

fun broker_Close :: "string list \<Rightarrow> 'p broker \<Rightarrow> 'p broker step_result" where
  "broker_Close [] ps = Steps ps"
| "broker_Close (topic # topics) ps =
     (case close_subs (ps_subscribers ps topic) ps of
        Steps ps' \<Rightarrow> broker_Close topics (ps'\<lparr>ps_subscribers := (ps_subscribers ps')(topic := [])\<rparr>)
      | Panics \<Rightarrow> Panics | Blocked \<Rightarrow> Blocked)"

section \<open>Interleavings\<close>

record 'p pubsub_sys =
  y_broker :: "'p broker"
  y_publishers :: "('p message \<times> chan_addr list) list"

datatype 'p pubsub_event =
  EvSubscribe string | EvUnsubscribe string chan_addr | EvClose "string list"
| EvPublish string 'p time | EvSend nat | EvReceive chan_addr

definition on_broker :: "'p pubsub_sys \<Rightarrow> 'p broker step_result \<Rightarrow> 'p pubsub_sys step_result" where
  "on_broker s r = (case r of Steps ps \<Rightarrow> Steps (s\<lparr>y_broker := ps\<rparr>) | Panics \<Rightarrow> Panics | Blocked \<Rightarrow> Blocked)"

definition all_topics :: "string list \<Rightarrow> 'p broker \<Rightarrow> bool" where
  "all_topics topics ps \<longleftrightarrow> distinct topics \<and> (\<forall>t. t \<notin> set topics \<longrightarrow> ps_subscribers ps t = [])"

text \<open>A receive takes the oldest message; on an empty channel it blocks, or reports the close.\<close>

inductive pubsub_step :: "'p pubsub_event \<Rightarrow> 'p pubsub_sys \<Rightarrow> 'p pubsub_sys step_result \<Rightarrow> bool" where
  subscribe: "pubsub_step (EvSubscribe topic) s (Steps (s\<lparr>y_broker := snd (Subscribe topic (y_broker s))\<rparr>))"
| unsubscribe: "pubsub_step (EvUnsubscribe topic ch) s (on_broker s (Unsubscribe topic ch (y_broker s)))"
| close_all: "all_topics topics (y_broker s) \<Longrightarrow> pubsub_step (EvClose topics) s (on_broker s (broker_Close topics (y_broker s)))"
| publish: "pubsub_step (EvPublish topic payload now) s
    (Steps (s\<lparr>y_publishers := y_publishers s @ [publish_begin topic payload now (y_broker s)]\<rparr>))"
| send: "i < length (y_publishers s) \<Longrightarrow> y_publishers s ! i = (msg, c # cs) \<Longrightarrow>
    pubsub_step (EvSend i) s
      (on_broker (s\<lparr>y_publishers := (y_publishers s)[i := (msg, cs)]\<rparr>) (try_send msg c (y_broker s)))"
| receive: "ch_buf (ps_chans (y_broker s) c) = m # ms \<Longrightarrow>
    pubsub_step (EvReceive c) s (Steps (s\<lparr>y_broker := (y_broker s)\<lparr>ps_chans :=
      (ps_chans (y_broker s))(c := (ps_chans (y_broker s) c)\<lparr>ch_buf := ms\<rparr>)\<rparr>\<rparr>))"

inductive pubsub_reachable :: "int \<Rightarrow> 'p pubsub_sys \<Rightarrow> bool" for bufSize where
  pubsub_start: "pubsub_reachable bufSize \<lparr>y_broker = NewPubSub bufSize, y_publishers = []\<rparr>"
| pubsub_next: "pubsub_reachable bufSize s \<Longrightarrow> pubsub_step e s (Steps s') \<Longrightarrow> pubsub_reachable bufSize s'"

section \<open>The invariant of the broker\<close>

text \<open>Every subscription has its own channel, which is open and known, with a bounded buffer.\<close>

definition broker_inv :: "'p broker \<Rightarrow> bool" where
  "broker_inv ps \<longleftrightarrow>
     0 < ps_bufSize ps \<and>
     (\<forall>t. distinct (ps_subscribers ps t)) \<and>
     (\<forall>t u c. c \<in> set (ps_subscribers ps t) \<longrightarrow> c \<in> set (ps_subscribers ps u) \<longrightarrow> t = u) \<and>
     (\<forall>t c. c \<in> set (ps_subscribers ps t) \<longrightarrow> c < ps_next ps \<and> \<not> ch_closed (ps_chans ps c)) \<and>
     (\<forall>c. length (ch_buf (ps_chans ps c)) \<le> ps_bufSize ps)"

lemma broker_invI:
  assumes "0 < ps_bufSize ps" and "\<And>t. distinct (ps_subscribers ps t)"
    and "\<And>t u c. c \<in> set (ps_subscribers ps t) \<Longrightarrow> c \<in> set (ps_subscribers ps u) \<Longrightarrow> t = u"
    and "\<And>t c. c \<in> set (ps_subscribers ps t) \<Longrightarrow> c < ps_next ps \<and> \<not> ch_closed (ps_chans ps c)"
    and "\<And>c. length (ch_buf (ps_chans ps c)) \<le> ps_bufSize ps"
  shows "broker_inv ps"
  using assms unfolding broker_inv_def by blast

lemma broker_invD:
  assumes "broker_inv ps"
  shows "0 < ps_bufSize ps" and "distinct (ps_subscribers ps t)"
    and "c \<in> set (ps_subscribers ps t) \<Longrightarrow> c \<in> set (ps_subscribers ps u) \<Longrightarrow> t = u"
    and "c \<in> set (ps_subscribers ps t) \<Longrightarrow> c < ps_next ps"
    and "c \<in> set (ps_subscribers ps t) \<Longrightarrow> \<not> ch_closed (ps_chans ps c)"
    and "length (ch_buf (ps_chans ps c)) \<le> ps_bufSize ps"
  using assms unfolding broker_inv_def by blast+

lemma NewPubSub_inv: "broker_inv (NewPubSub bufSize)"
  by (rule broker_invI) (simp_all add: NewPubSub_def)

lemma Subscribe_inv:
  assumes "broker_inv ps"
  shows "broker_inv (snd (Subscribe topic ps))"
proof -
  note D = broker_invD [OF assms]
  have new: "ps_next ps \<notin> set (ps_subscribers ps t)" for t using D(4) by blast
  show ?thesis
  proof (rule broker_invI)
    show "distinct (ps_subscribers (snd (Subscribe topic ps)) t)" for t
      using D(2) new by (simp add: Subscribe_def Let_def)
    show "t = u" if "c \<in> set (ps_subscribers (snd (Subscribe topic ps)) t)"
      and "c \<in> set (ps_subscribers (snd (Subscribe topic ps)) u)" for t u c
      using that D(3) [of c t u] new by (auto simp: Subscribe_def Let_def split: if_splits)
    show "c < ps_next (snd (Subscribe topic ps)) \<and> \<not> ch_closed (ps_chans (snd (Subscribe topic ps)) c)"
      if "c \<in> set (ps_subscribers (snd (Subscribe topic ps)) t)" for t c
      using that D(4) [of c t] D(5) [of c t] new by (auto simp: Subscribe_def Let_def split: if_splits)
  qed (use D in \<open>simp_all add: Subscribe_def Let_def\<close>)
qed

lemma find_sub_Some:
  "find_sub ch subs i = Some j \<Longrightarrow> i \<le> j \<and> j < i + length subs \<and> subs ! (j - i) = ch"
proof (induction subs arbitrary: i)
  case (Cons c subs)
  show ?case
  proof (cases "c = ch")
    case True
    with Cons.prems show ?thesis by simp
  next
    case False
    with Cons.prems Cons.IH [of "i + 1"] have "i + 1 \<le> j" "j < i + 1 + length subs" "subs ! (j - (i + 1)) = ch" by auto
    moreover from this have "j - i = Suc (j - (i + 1))" by simp
    ultimately show ?thesis by simp
  qed
qed simp

lemma find_sub_None: "find_sub ch subs i = None \<longleftrightarrow> ch \<notin> set subs"
  by (induction subs arbitrary: i) auto

lemma swap_remove_mset:
  assumes "i < length subs"
  shows "mset (swap_remove i subs) = mset subs - {#subs ! i#}"
proof -
  obtain xs x where subs: "subs = xs @ [x]" using assms by (cases subs rule: rev_cases) auto
  show ?thesis
  proof (cases "i = length xs")
    case True
    then show ?thesis by (simp add: swap_remove_def subs)
  next
    case False
    then have "i < length xs" using assms subs by simp
    then show ?thesis by (simp add: swap_remove_def subs nth_append list_update_append mset_update)
  qed
qed

lemma swap_remove_set:
  assumes "i < length subs" and "distinct subs"
  shows "set (swap_remove i subs) = set subs - {subs ! i} \<and> distinct (swap_remove i subs)"
proof -
  have m: "mset (swap_remove i subs) = mset (remove1 (subs ! i) subs)"
    using swap_remove_mset [OF assms(1)] by simp
  then have "set (swap_remove i subs) = set (remove1 (subs ! i) subs)" by (metis set_mset_mset)
  moreover have "distinct (swap_remove i subs)" using m assms(2) by (metis distinct_remove1 mset_eq_imp_distinct_iff)
  ultimately show ?thesis using assms(2) by simp
qed

lemma broker_inv_shrink:
  assumes inv: "broker_inv ps" and "ps_bufSize ps' = ps_bufSize ps" and "ps_next ps' = ps_next ps"
    and subs: "\<And>t. set (ps_subscribers ps' t) \<subseteq> set (ps_subscribers ps t)" "\<And>t. distinct (ps_subscribers ps' t)"
    and "\<And>t c. c \<in> set (ps_subscribers ps' t) \<Longrightarrow> \<not> ch_closed (ps_chans ps' c)"
    and "\<And>c. length (ch_buf (ps_chans ps' c)) \<le> ps_bufSize ps"
  shows "broker_inv ps'"
proof (rule broker_invI)
  note D = broker_invD [OF inv]
  show "t = u" if "c \<in> set (ps_subscribers ps' t)" "c \<in> set (ps_subscribers ps' u)" for t u c
    using D(3) [of c t u] subs(1) that by blast
  show "c < ps_next ps' \<and> \<not> ch_closed (ps_chans ps' c)" if "c \<in> set (ps_subscribers ps' t)" for t c
    using D(4) [of c t] subs(1) [of t] that assms(3,6) by auto
qed (use assms broker_invD(1) [OF inv] in simp_all)

lemma Unsubscribe_inv:
  assumes inv: "broker_inv ps"
  shows "\<exists>ps'. Unsubscribe topic ch ps = Steps ps' \<and> broker_inv ps' \<and>
    (\<forall>t. set (ps_subscribers ps' t) = set (ps_subscribers ps t) - (if t = topic then {ch} else {})) \<and>
    (ch \<in> set (ps_subscribers ps topic) \<longrightarrow> ch_closed (ps_chans ps' ch))"
proof (cases "find_sub ch (ps_subscribers ps topic) 0")
  case None
  then have "ch \<notin> set (ps_subscribers ps topic)" by (simp add: find_sub_None)
  with None inv show ?thesis by (simp add: Unsubscribe_def)
next
  case (Some i)
  note D = broker_invD [OF inv]
  let ?subs = "ps_subscribers ps topic"
  have i: "i < length ?subs" "?subs ! i = ch" using find_sub_Some [OF Some] by auto
  then have ch: "ch \<in> set ?subs" by auto
  have rem: "set (swap_remove i ?subs) = set ?subs - {ch}" "distinct (swap_remove i ?subs)"
    using swap_remove_set [OF i(1) D(2)] i(2) by auto
  let ?ps = "ps\<lparr>ps_subscribers := (ps_subscribers ps)(topic := swap_remove i ?subs),
    ps_chans := (ps_chans ps)(ch := (ps_chans ps ch)\<lparr>ch_closed := True\<rparr>)\<rparr>"
  have "Unsubscribe topic ch ps = Steps ?ps"
    using Some i(2) D(5) [OF ch] by (simp add: Unsubscribe_def close_chan_def)
  moreover have "broker_inv ?ps"
  proof (rule broker_inv_shrink [OF inv])
    show "\<not> ch_closed (ps_chans ?ps c)" if "c \<in> set (ps_subscribers ?ps t)" for t c
    proof -
      have "c \<in> set (ps_subscribers ps t)" and "c \<noteq> ch"
        using that rem(1) D(3) [OF _ ch, of t] by (cases "t = topic"; force)+
      with D(5) show ?thesis by simp
    qed
    show "length (ch_buf (ps_chans ?ps c)) \<le> ps_bufSize ps" for c using D(6) by simp
  qed (use rem D(2) in \<open>auto split: if_splits\<close>)
  ultimately show ?thesis using rem(1) ch by auto
qed

definition closed_set :: "chan_addr set \<Rightarrow> 'p broker \<Rightarrow> 'p broker" where
  "closed_set C ps = ps\<lparr>ps_chans := \<lambda>c. if c \<in> C then (ps_chans ps c)\<lparr>ch_closed := True\<rparr> else ps_chans ps c\<rparr>"

lemma close_subs_Steps:
  "distinct cs \<Longrightarrow> (\<And>c. c \<in> set cs \<Longrightarrow> \<not> ch_closed (ps_chans ps c)) \<Longrightarrow> close_subs cs ps = Steps (closed_set (set cs) ps)"
proof (induction cs arbitrary: ps)
  case Nil
  show ?case by (simp add: closed_set_def)
next
  case (Cons c cs)
  let ?ps = "ps\<lparr>ps_chans := (ps_chans ps)(c := (ps_chans ps c)\<lparr>ch_closed := True\<rparr>)\<rparr>"
  have "close_subs cs ?ps = Steps (closed_set (set cs) ?ps)"
    using Cons.prems by (intro Cons.IH) auto
  moreover have "closed_set (set cs) ?ps = closed_set (set (c # cs)) ps"
    using Cons.prems(1) by (auto simp: closed_set_def fun_eq_iff)
  ultimately show ?case using Cons.prems by (simp add: close_chan_def)
qed

lemma broker_Close_inv:
  assumes "broker_inv ps" and "distinct topics"
  shows "\<exists>ps'. broker_Close topics ps = Steps ps' \<and> broker_inv ps' \<and>
    (\<forall>t. ps_subscribers ps' t = (if t \<in> set topics then [] else ps_subscribers ps t)) \<and>
    (\<forall>c. ch_closed (ps_chans ps' c) \<longleftrightarrow> ch_closed (ps_chans ps c) \<or> (\<exists>t \<in> set topics. c \<in> set (ps_subscribers ps t)))"
  using assms
proof (induction topics arbitrary: ps)
  case (Cons topic topics)
  note D = broker_invD [OF Cons.prems(1)]
  let ?C = "set (ps_subscribers ps topic)"
  let ?ps = "(closed_set ?C ps)\<lparr>ps_subscribers := (ps_subscribers ps)(topic := [])\<rparr>"
  have c: "close_subs (ps_subscribers ps topic) ps = Steps (closed_set ?C ps)"
    using D(2,5) by (rule close_subs_Steps)
  have "broker_inv ?ps"
  proof (rule broker_inv_shrink [OF Cons.prems(1)])
    show "\<not> ch_closed (ps_chans ?ps c)" if "c \<in> set (ps_subscribers ?ps t)" for t c
    proof -
      have t: "t \<noteq> topic" "c \<in> set (ps_subscribers ps t)" using that by (cases "t = topic"; simp)+
      then have "c \<notin> ?C" using D(3) by blast
      with t D(5) show ?thesis by (simp add: closed_set_def)
    qed
  qed (use D in \<open>auto simp: closed_set_def\<close>)
  from Cons.IH [OF this] Cons.prems(2) obtain ps' where "broker_Close topics ?ps = Steps ps'" "broker_inv ps'"
    "\<forall>t. ps_subscribers ps' t = (if t \<in> set topics then [] else ps_subscribers ?ps t)"
    "\<forall>c. ch_closed (ps_chans ps' c) \<longleftrightarrow> ch_closed (ps_chans ?ps c) \<or> (\<exists>t \<in> set topics. c \<in> set (ps_subscribers ?ps t))"
    by auto
  moreover have "(closed_set ?C ps)\<lparr>ps_subscribers := (ps_subscribers (closed_set ?C ps))(topic := [])\<rparr> = ?ps"
    by (simp add: closed_set_def)
  ultimately show ?case using c Cons.prems(2) by (auto simp: closed_set_def)
qed simp

lemma try_send_inv:
  assumes inv: "broker_inv ps" and "try_send msg c ps = Steps ps'"
  shows "broker_inv ps'"
proof -
  note D = broker_invD [OF inv]
  have "ps' = ps \<or> (length (ch_buf (ps_chans ps c)) < ps_bufSize ps \<and>
      ps' = ps\<lparr>ps_chans := (ps_chans ps)(c := (ps_chans ps c)\<lparr>ch_buf := ch_buf (ps_chans ps c) @ [msg]\<rparr>)\<rparr>)"
    using assms(2) by (auto simp: try_send_def split: if_splits)
  then show ?thesis
  proof
    assume "length (ch_buf (ps_chans ps c)) < ps_bufSize ps \<and>
      ps' = ps\<lparr>ps_chans := (ps_chans ps)(c := (ps_chans ps c)\<lparr>ch_buf := ch_buf (ps_chans ps c) @ [msg]\<rparr>)\<rparr>"
    then show ?thesis using D by (intro broker_inv_shrink [OF inv]) auto
  qed (use inv in simp)
qed

lemma receive_inv:
  assumes inv: "broker_inv ps" and "ch_buf (ps_chans ps c) = m # ms"
  shows "broker_inv (ps\<lparr>ps_chans := (ps_chans ps)(c := (ps_chans ps c)\<lparr>ch_buf := ms\<rparr>)\<rparr>)"
proof -
  note D = broker_invD [OF inv]
  have "length ms \<le> ps_bufSize ps" using D(6) [of c] assms(2) by simp
  then show ?thesis using D by (intro broker_inv_shrink [OF inv]) auto
qed

lemma pubsub_step_inv:
  assumes "pubsub_step e s (Steps s')" and "broker_inv (y_broker s)"
  shows "broker_inv (y_broker s')"
  using assms(1)
proof (cases rule: pubsub_step.cases)
  case (subscribe topic)
  then show ?thesis using Subscribe_inv [OF assms(2)] by simp
next
  case (unsubscribe topic ch)
  then show ?thesis using Unsubscribe_inv [OF assms(2), of topic ch] by (auto simp: on_broker_def)
next
  case (close_all topics)
  then show ?thesis using broker_Close_inv [OF assms(2), of topics] by (auto simp: on_broker_def all_topics_def)
next
  case (publish topic payload now)
  then show ?thesis using assms(2) by simp
next
  case (send i msg c cs)
  then show ?thesis using try_send_inv [OF assms(2), of msg c]
    by (auto simp: on_broker_def split: step_result.splits)
next
  case (receive c m ms)
  then show ?thesis using receive_inv [OF assms(2)] by simp
qed

lemma pubsub_reachable_inv: "pubsub_reachable bufSize s \<Longrightarrow> broker_inv (y_broker s)"
  by (induction rule: pubsub_reachable.induct) (auto simp: NewPubSub_inv intro: pubsub_step_inv)

section \<open>Delivery\<close>

definition delivered :: "'p message \<Rightarrow> chan_addr set \<Rightarrow> 'p broker \<Rightarrow> 'p broker" where
  "delivered msg C ps =
     ps\<lparr>ps_chans := \<lambda>c. if c \<in> C \<and> length (ch_buf (ps_chans ps c)) < ps_bufSize ps
        then (ps_chans ps c)\<lparr>ch_buf := ch_buf (ps_chans ps c) @ [msg]\<rparr> else ps_chans ps c\<rparr>"

lemma send_all_delivered:
  "distinct cs \<Longrightarrow> (\<And>c. c \<in> set cs \<Longrightarrow> \<not> ch_closed (ps_chans ps c)) \<Longrightarrow>
   send_all msg cs ps = Steps (delivered msg (set cs) ps)"
proof (induction cs arbitrary: ps)
  case Nil
  show ?case by (simp add: delivered_def)
next
  case (Cons c cs)
  let ?ps = "delivered msg {c} ps"
  have "try_send msg c ps = Steps ?ps"
    using Cons.prems by (auto simp: try_send_def delivered_def fun_eq_iff)
  moreover have "send_all msg cs ?ps = Steps (delivered msg (set cs) ?ps)"
    using Cons.prems by (intro Cons.IH) (auto simp: delivered_def)
  moreover have "delivered msg (set cs) ?ps = delivered msg (set (c # cs)) ps"
    using Cons.prems(1) by (auto simp: delivered_def fun_eq_iff)
  ultimately show ?case by simp
qed

end
