(* ===== verification/PubSubProperties.thy ===== *)
theory PubSubProperties
  imports PubSub
begin

text \<open>The properties of the publish-subscribe broker.\<close>

section \<open>A race\<close>

text \<open>One subscriber, one message on its way; the subscriber leaves before the message is sent.\<close>

definition race_broker :: "unit broker" where
  "race_broker = snd (Subscribe ''news'' (NewPubSub 1))"

definition race_sys :: "unit pubsub_sys" where
  "race_sys =
     \<lparr>y_broker = (case Unsubscribe ''news'' 0 race_broker of Steps ps \<Rightarrow> ps | _ \<Rightarrow> race_broker),
      y_publishers = [publish_begin ''news'' () 0 race_broker]\<rparr>"

lemma race_eval:
  "Unsubscribe ''news'' 0 race_broker = Steps (y_broker race_sys)"
  "snd (publish_begin ''news'' () 0 race_broker) = [0]"
  "ch_closed (ps_chans (y_broker race_sys) 0)"
  by (simp_all add: race_sys_def race_broker_def Unsubscribe_def Subscribe_def NewPubSub_def publish_begin_def
      close_chan_def Let_def)

lemma subscribed_reachable: "pubsub_reachable 1 \<lparr>y_broker = race_broker, y_publishers = []\<rparr>"
proof -
  let ?s0 = "\<lparr>y_broker = NewPubSub 1, y_publishers = []\<rparr> :: unit pubsub_sys"
  have "pubsub_step (EvSubscribe ''news'') ?s0 (Steps (?s0\<lparr>y_broker := race_broker\<rparr>))"
    using pubsub_step.subscribe [of "''news''" ?s0] by (simp add: race_broker_def)
  then show ?thesis using pubsub_next [OF pubsub_start] by simp
qed

lemma race_reachable: "pubsub_reachable 1 race_sys"
proof -
  let ?s1 = "\<lparr>y_broker = race_broker, y_publishers = []\<rparr>"
  let ?s2 = "?s1\<lparr>y_publishers := y_publishers ?s1 @ [publish_begin ''news'' () 0 (y_broker ?s1)]\<rparr>"
  have "pubsub_reachable 1 ?s2"
    using subscribed_reachable pubsub_step.publish [of "''news''" "()" 0 ?s1] by (rule pubsub_next)
  moreover have "pubsub_step (EvUnsubscribe ''news'' 0) ?s2 (Steps race_sys)"
  proof -
    have p: "y_publishers race_sys = [publish_begin ''news'' () 0 race_broker]" by (simp add: race_sys_def)
    have "?s2\<lparr>y_broker := y_broker race_sys\<rparr> = race_sys" by (rule pubsub_sys.equality) (simp_all add: p)
    then show ?thesis
      using pubsub_step.unsubscribe [of "''news''" 0 ?s2] race_eval(1) by (simp add: on_broker_def)
  qed
  ultimately show ?thesis by (rule pubsub_next)
qed

lemma race_panics: "pubsub_step (EvSend 0) race_sys Panics"
proof -
  obtain msg where "y_publishers race_sys ! 0 = (msg, [0])"
    using race_eval(2) by (cases "publish_begin ''news'' () 0 race_broker") (simp add: race_sys_def)
  moreover have "try_send msg 0 (y_broker race_sys) = Panics" for msg using race_eval(3) by (simp add: try_send_def)
  ultimately show ?thesis
    using pubsub_step.send [of 0 race_sys msg 0 "[]"] by (simp add: on_broker_def) (simp add: race_sys_def)
qed

section \<open>Properties\<close>

text \<open>C28. Published with nobody in between, a message reaches every current subscriber of its topic whose
  buffer has room, behind what is buffered already; full buffers drop it, other topics and the
  subscriptions are untouched, and nothing panics.  This holds in every reachable state, whatever
  subscribing, leaving, closing and publishing went before.\<close>

theorem Publish_delivers:
  assumes "pubsub_reachable bufSize s"
  shows "\<exists>ps. Publish topic payload now (y_broker s) = Steps ps \<and>
    ps_subscribers ps = ps_subscribers (y_broker s) \<and>
    (\<forall>c. ch_buf (ps_chans ps c) =
       (if c \<in> set (ps_subscribers (y_broker s) topic) \<and>
           length (ch_buf (ps_chans (y_broker s) c)) < ps_bufSize (y_broker s)
        then ch_buf (ps_chans (y_broker s) c) @ [\<lparr>ms_Topic = topic, ms_Payload = payload, ms_Timestamp = now\<rparr>]
        else ch_buf (ps_chans (y_broker s) c)))"
proof -
  note D = broker_invD [OF pubsub_reachable_inv [OF assms]]
  have "send_all m (ps_subscribers (y_broker s) topic) (y_broker s) =
    Steps (delivered m (set (ps_subscribers (y_broker s) topic)) (y_broker s))" for m
    using D(2,5) by (rule send_all_delivered)
  then show ?thesis by (simp add: Publish_def publish_begin_def delivered_def)
qed

theorem Publish_delivers_witness:
  "\<exists>ps. Publish ''news'' () 7 race_broker = Steps ps \<and> ps_subscribers ps ''news'' = [0] \<and>
     ch_buf (ps_chans ps 0) = [\<lparr>ms_Topic = ''news'', ms_Payload = (), ms_Timestamp = 7\<rparr>]"
proof -
  have "ch_buf (ps_chans race_broker 0) = []" "ps_subscribers race_broker ''news'' = [0]" "0 < ps_bufSize race_broker"
    by (simp_all add: race_broker_def Subscribe_def NewPubSub_def Let_def)
  then show ?thesis using Publish_delivers [OF subscribed_reachable, of "''news''" "()" 7] by auto
qed

text \<open>C29. The only operation that can panic, in any reachable state, is a send of a publisher whose
  receiver was closed after the publisher copied the subscribers; unsubscribing and closing never
  close a channel twice.  That panic does happen: \<open>Publish\<close> sends without the lock, so a subscriber
  that leaves between the copy and the send brings the publisher down.\<close>

theorem only_late_sends_panic:
  assumes "pubsub_reachable bufSize s" and "pubsub_step e s Panics"
  shows "(\<exists>i msg c cs. e = EvSend i \<and> i < length (y_publishers s) \<and> y_publishers s ! i = (msg, c # cs) \<and>
      ch_closed (ps_chans (y_broker s) c) \<and> (\<forall>topic. c \<notin> set (ps_subscribers (y_broker s) topic))) \<and>
    (\<exists>s' :: unit pubsub_sys. pubsub_reachable 1 s' \<and> pubsub_step (EvSend 0) s' Panics)"
proof
  note inv = pubsub_reachable_inv [OF assms(1)]
  show "\<exists>i msg c cs. e = EvSend i \<and> i < length (y_publishers s) \<and> y_publishers s ! i = (msg, c # cs) \<and>
      ch_closed (ps_chans (y_broker s) c) \<and> (\<forall>topic. c \<notin> set (ps_subscribers (y_broker s) topic))"
    using assms(2)
  proof (cases rule: pubsub_step.cases)
    case (unsubscribe topic ch)
    then show ?thesis using Unsubscribe_inv [OF inv, of topic ch] by (auto simp: on_broker_def)
  next
    case (close_all topics)
    then show ?thesis using broker_Close_inv [OF inv, of topics] by (auto simp: on_broker_def all_topics_def)
  next
    case (send i msg c cs)
    then have "ch_closed (ps_chans (y_broker s) c)" by (auto simp: on_broker_def try_send_def split: if_splits)
    moreover from this have "\<forall>topic. c \<notin> set (ps_subscribers (y_broker s) topic)"
      using broker_invD(5) [OF inv] by blast
    ultimately show ?thesis using send by blast
  qed
  show "\<exists>s' :: unit pubsub_sys. pubsub_reachable 1 s' \<and> pubsub_step (EvSend 0) s' Panics"
    using race_reachable race_panics by blast
qed

theorem only_late_sends_panic_witness:
  "\<exists>i msg c cs. i < length (y_publishers race_sys) \<and> y_publishers race_sys ! i = (msg, c # cs) \<and>
     ch_closed (ps_chans (y_broker race_sys) c)"
  using only_late_sends_panic [OF race_reachable race_panics] by blast

end
