(* ===== verification/PubSubDelivery.thy ===== *)
theory PubSubDelivery
  imports PubSubProperties
begin

text \<open>
  Delivery under every interleaving of subscribers, publishers and receivers: the history of a run
  is the list of its events and what each channel has handed out so far.  A channel only carries
  messages published on its own topic after its subscription, each at most once per publication.
\<close>

section \<open>Histories\<close>

definition receipts :: "'p pubsub_event \<Rightarrow> 'p broker \<Rightarrow> (chan_addr \<Rightarrow> 'p message list) \<Rightarrow> chan_addr \<Rightarrow> 'p message list" where
  "receipts e ps got = (case e of EvReceive c \<Rightarrow> got(c := got c @ [hd (ch_buf (ps_chans ps c))]) | _ \<Rightarrow> got)"

inductive pubsub_run ::
  "int \<Rightarrow> 'p pubsub_event list \<Rightarrow> (chan_addr \<Rightarrow> 'p message list) \<Rightarrow> 'p pubsub_sys \<Rightarrow> bool" for bufSize where
  run_start: "pubsub_run bufSize [] (\<lambda>_. []) \<lparr>y_broker = NewPubSub bufSize, y_publishers = []\<rparr>"
| run_next: "pubsub_run bufSize es got s \<Longrightarrow> pubsub_step e s (Steps s') \<Longrightarrow>
    pubsub_run bufSize (es @ [e]) (receipts e (y_broker s) got) s'"

text \<open>The subscriptions made, with their positions in the history: channel \<open>c\<close> belongs to the one at \<open>c\<close>.\<close>

definition subscribed :: "nat \<Rightarrow> 'p pubsub_event \<Rightarrow> (nat \<times> string) list" where
  "subscribed i e = (case e of EvSubscribe t \<Rightarrow> [(i, t)] | _ \<Rightarrow> [])"

primrec subscriptions_from :: "nat \<Rightarrow> 'p pubsub_event list \<Rightarrow> (nat \<times> string) list" where
  "subscriptions_from i [] = []"
| "subscriptions_from i (e # es) = subscribed i e @ subscriptions_from (Suc i) es"

definition subscriptions :: "'p pubsub_event list \<Rightarrow> (nat \<times> string) list" where
  "subscriptions es = subscriptions_from 0 es"

definition published :: "string \<Rightarrow> 'p pubsub_event list \<Rightarrow> 'p message list" where
  "published t es = concat (map (\<lambda>e. case e of
     EvPublish topic payload now \<Rightarrow>
       (if topic = t then [\<lparr>ms_Topic = topic, ms_Payload = payload, ms_Timestamp = now\<rparr>] else [])
   | _ \<Rightarrow> []) es)"

lemma subscriptions_Nil [simp]: "subscriptions [] = []"
  by (simp add: subscriptions_def)

lemma subscriptions_from_snoc:
  "subscriptions_from i (es @ [e]) = subscriptions_from i es @ subscribed (i + length es) e"
  by (induction es arbitrary: i) simp_all

lemma subscriptions_snoc [simp]: "subscriptions (es @ [e]) = subscriptions es @ subscribed (length es) e"
  by (simp add: subscriptions_def subscriptions_from_snoc)

lemma subscriptions_from_lt: "p \<in> set (subscriptions_from i es) \<Longrightarrow> fst p < i + length es"
  by (induction es arbitrary: i) (fastforce simp: subscribed_def split: pubsub_event.splits)+

lemma subscriptions_lt: "c < length (subscriptions es) \<Longrightarrow> fst (subscriptions es ! c) < length es"
  using subscriptions_from_lt [of "subscriptions es ! c" 0 es] by (simp add: subscriptions_def)

lemma published_append [simp]: "published t (es @ fs) = published t es @ published t fs"
  by (simp add: published_def)

lemma published_one [simp]:
  "published t [EvPublish topic payload now] =
     (if topic = t then [\<lparr>ms_Topic = topic, ms_Payload = payload, ms_Timestamp = now\<rparr>] else [])"
  by (simp add: published_def)

section \<open>What is on its way\<close>

definition to_send :: "'p message \<Rightarrow> chan_addr \<Rightarrow> 'p message \<times> chan_addr list \<Rightarrow> nat" where
  "to_send m c p = of_bool (fst p = m \<and> c \<in> set (snd p))"

definition on_the_way :: "'p pubsub_sys \<Rightarrow> chan_addr \<Rightarrow> 'p message \<Rightarrow> nat" where
  "on_the_way s c m = sum_list (map (to_send m c) (y_publishers s))"

definition carried :: "(chan_addr \<Rightarrow> 'p message list) \<Rightarrow> 'p pubsub_sys \<Rightarrow> chan_addr \<Rightarrow> 'p message list" where
  "carried got s c = got c @ ch_buf (ps_chans (y_broker s) c)"

definition delivery_inv :: "'p pubsub_event list \<Rightarrow> (chan_addr \<Rightarrow> 'p message list) \<Rightarrow> 'p pubsub_sys \<Rightarrow> bool" where
  "delivery_inv es got s \<longleftrightarrow>
     length (subscriptions es) = ps_next (y_broker s) \<and>
     (\<forall>t. \<forall>c \<in> set (ps_subscribers (y_broker s) t). c < ps_next (y_broker s) \<and> snd (subscriptions es ! c) = t) \<and>
     (\<forall>(m, cs) \<in> set (y_publishers s). distinct cs \<and>
        (\<forall>c \<in> set cs. c < ps_next (y_broker s) \<and> snd (subscriptions es ! c) = ms_Topic m)) \<and>
     (\<forall>c < ps_next (y_broker s). \<forall>m. count_list (carried got s c) m + on_the_way s c m \<le>
        count_list (published (snd (subscriptions es ! c)) (drop (fst (subscriptions es ! c)) es)) m) \<and>
     (\<forall>c \<ge> ps_next (y_broker s). carried got s c = [])"

lemma delivery_invI:
  assumes "length (subscriptions es) = ps_next (y_broker s)"
    and "\<And>t c. c \<in> set (ps_subscribers (y_broker s) t) \<Longrightarrow> c < ps_next (y_broker s) \<and> snd (subscriptions es ! c) = t"
    and "\<And>m cs. (m, cs) \<in> set (y_publishers s) \<Longrightarrow> distinct cs"
    and "\<And>m cs c. (m, cs) \<in> set (y_publishers s) \<Longrightarrow> c \<in> set cs \<Longrightarrow>
        c < ps_next (y_broker s) \<and> snd (subscriptions es ! c) = ms_Topic m"
    and "\<And>c m. c < ps_next (y_broker s) \<Longrightarrow> count_list (carried got s c) m + on_the_way s c m \<le>
        count_list (published (snd (subscriptions es ! c)) (drop (fst (subscriptions es ! c)) es)) m"
    and "\<And>c. ps_next (y_broker s) \<le> c \<Longrightarrow> carried got s c = []"
  shows "delivery_inv es got s"
  using assms unfolding delivery_inv_def by blast

lemma delivery_invD:
  assumes "delivery_inv es got s"
  shows "length (subscriptions es) = ps_next (y_broker s)"
    and "c \<in> set (ps_subscribers (y_broker s) t) \<Longrightarrow> c < ps_next (y_broker s) \<and> snd (subscriptions es ! c) = t"
    and "(m, cs) \<in> set (y_publishers s) \<Longrightarrow> distinct cs"
    and "(m, cs) \<in> set (y_publishers s) \<Longrightarrow> c \<in> set cs \<Longrightarrow>
        c < ps_next (y_broker s) \<and> snd (subscriptions es ! c) = ms_Topic m"
    and "c < ps_next (y_broker s) \<Longrightarrow> count_list (carried got s c) m + on_the_way s c m \<le>
        count_list (published (snd (subscriptions es ! c)) (drop (fst (subscriptions es ! c)) es)) m"
    and "ps_next (y_broker s) \<le> c \<Longrightarrow> carried got s c = []"
  using assms unfolding delivery_inv_def by blast+

text \<open>Events that add nothing: the subscriptions, the channels and the publishers only shrink.\<close>

lemma delivery_inv_shrink:
  assumes inv: "delivery_inv es got s" and e: "subscribed (length es) e = []"
    and "ps_next (y_broker s') = ps_next (y_broker s)"
    and "\<And>t. set (ps_subscribers (y_broker s') t) \<subseteq> set (ps_subscribers (y_broker s) t)"
    and pub: "\<And>m cs. (m, cs) \<in> set (y_publishers s') \<Longrightarrow> \<exists>cs'. (m, cs') \<in> set (y_publishers s) \<and> set cs \<subseteq> set cs' \<and>
        (distinct cs' \<longrightarrow> distinct cs)"
    and cnt: "\<And>c m. count_list (carried got' s' c) m + on_the_way s' c m \<le>
        count_list (carried got s c) m + on_the_way s c m"
    and un: "\<And>c. ps_next (y_broker s) \<le> c \<Longrightarrow> carried got' s' c = []"
  shows "delivery_inv (es @ [e]) got' s'"
proof (rule delivery_invI)
  note D = delivery_invD [OF inv]
  have S: "subscriptions (es @ [e]) = subscriptions es" using e by simp
  show "length (subscriptions (es @ [e])) = ps_next (y_broker s')" using D(1) assms(3) S by simp
  show "c < ps_next (y_broker s') \<and> snd (subscriptions (es @ [e]) ! c) = t"
    if "c \<in> set (ps_subscribers (y_broker s') t)" for t c
    using D(2) [of c t] that assms(3,4) S by auto
  show "distinct cs" if "(m, cs) \<in> set (y_publishers s')" for m cs using pub [OF that] D(3) by blast
  show "c < ps_next (y_broker s') \<and> snd (subscriptions (es @ [e]) ! c) = ms_Topic m"
    if m: "(m, cs) \<in> set (y_publishers s')" "c \<in> set cs" for m cs c
    using pub [OF m(1)] m(2) D(4) [of m _ c] assms(3) S by auto
  show "count_list (carried got' s' c) m + on_the_way s' c m \<le>
      count_list (published (snd (subscriptions (es @ [e]) ! c)) (drop (fst (subscriptions (es @ [e]) ! c)) (es @ [e]))) m"
    if "c < ps_next (y_broker s')" for c m
    using order_trans [OF cnt D(5) [of c m]] that assms(3) S by (simp add: trans_le_add1)
  show "carried got' s' c = []" if "ps_next (y_broker s') \<le> c" for c using un that assms(3) by simp
qed

section \<open>Every event keeps the account\<close>

lemma sum_list_to_send_update:
  "i < length ps \<Longrightarrow> sum_list (map (to_send m c) (ps[i := p])) + to_send m c (ps ! i) =
     sum_list (map (to_send m c) ps) + to_send m c p"
  using elem_le_sum_list [of i "map (to_send m c) ps"]
  by (simp add: map_update sum_list_update)

lemma subscribe_delivery:
  assumes inv: "delivery_inv es got s"
  shows "delivery_inv (es @ [EvSubscribe topic]) got (s\<lparr>y_broker := snd (Subscribe topic (y_broker s))\<rparr>)"
proof (rule delivery_invI)
  note D = delivery_invD [OF inv]
  let ?s = "s\<lparr>y_broker := snd (Subscribe topic (y_broker s))\<rparr>" and ?n = "ps_next (y_broker s)"
  have S: "subscriptions (es @ [EvSubscribe topic]) = subscriptions es @ [(length es, topic)]"
    by (simp add: subscribed_def)
  have old: "(subscriptions es @ [(length es, topic)]) ! c = subscriptions es ! c" if "c < ?n" for c
    using that D(1) by (simp add: nth_append)
  have new: "(subscriptions es @ [(length es, topic)]) ! ?n = (length es, topic)" using D(1) by (simp add: nth_append)
  have n: "ps_next (y_broker ?s) = Suc ?n" by (simp add: Subscribe_def Let_def)
  have carr: "carried got ?s c = carried got s c" for c
    using D(6) [of ?n] by (simp add: carried_def Subscribe_def Let_def)
  have way: "on_the_way ?s c m = on_the_way s c m" for c m by (simp add: on_the_way_def)
  show "length (subscriptions (es @ [EvSubscribe topic])) = ps_next (y_broker ?s)" using D(1) S n by simp
  show "c < ps_next (y_broker ?s) \<and> snd (subscriptions (es @ [EvSubscribe topic]) ! c) = t"
    if c: "c \<in> set (ps_subscribers (y_broker ?s) t)" for t c
  proof (cases "c = ?n")
    case True
    moreover have "?n \<notin> set (ps_subscribers (y_broker s) t)" using D(2) by blast
    ultimately show ?thesis using c S n new by (auto simp: Subscribe_def Let_def split: if_splits)
  next
    case False
    then have "c \<in> set (ps_subscribers (y_broker s) t)" using c by (auto simp: Subscribe_def Let_def split: if_splits)
    then show ?thesis using D(2) [of c t] S n old [of c] by simp
  qed
  show "distinct cs" if "(m, cs) \<in> set (y_publishers ?s)" for m cs using D(3) that by simp
  show "c < ps_next (y_broker ?s) \<and> snd (subscriptions (es @ [EvSubscribe topic]) ! c) = ms_Topic m"
    if "(m, cs) \<in> set (y_publishers ?s)" "c \<in> set cs" for m cs c
    using D(4) [of m cs c] that S n old [of c] by simp
  show "count_list (carried got ?s c) m + on_the_way ?s c m \<le>
      count_list (published (snd (subscriptions (es @ [EvSubscribe topic]) ! c))
        (drop (fst (subscriptions (es @ [EvSubscribe topic]) ! c)) (es @ [EvSubscribe topic]))) m"
    if c: "c < ps_next (y_broker ?s)" for c m
  proof (cases "c = ?n")
    case True
    have "to_send m ?n p = 0" if "p \<in> set (y_publishers s)" for p
      using D(4) [of "fst p" "snd p" ?n] that by (auto simp: to_send_def)
    then have "on_the_way s ?n m = 0" by (simp add: on_the_way_def)
    then show ?thesis using True D(6) [of ?n] carr way by simp
  next
    case False
    then show ?thesis
      using c n D(5) [of c m] S old [of c] carr way by (simp add: trans_le_add1)
  qed
  show "carried got ?s c = []" if "ps_next (y_broker ?s) \<le> c" for c using D(6) that n carr by simp
qed

lemma publish_delivery:
  assumes inv: "delivery_inv es got s" and ps: "broker_inv (y_broker s)"
  shows "delivery_inv (es @ [EvPublish topic payload now]) got
    (s\<lparr>y_publishers := y_publishers s @ [publish_begin topic payload now (y_broker s)]\<rparr>)"
proof (rule delivery_invI)
  note D = delivery_invD [OF inv]
  let ?e = "EvPublish topic payload now" and ?msg = "\<lparr>ms_Topic = topic, ms_Payload = payload, ms_Timestamp = now\<rparr>"
  let ?s = "s\<lparr>y_publishers := y_publishers s @ [publish_begin topic payload now (y_broker s)]\<rparr>"
  have S: "subscriptions (es @ [?e]) = subscriptions es" by (simp add: subscribed_def)
  have P: "set (y_publishers ?s) = insert (?msg, ps_subscribers (y_broker s) topic) (set (y_publishers s))"
    by (simp add: publish_begin_def)
  show "length (subscriptions (es @ [?e])) = ps_next (y_broker ?s)" using D(1) S by simp
  show "c < ps_next (y_broker ?s) \<and> snd (subscriptions (es @ [?e]) ! c) = t"
    if "c \<in> set (ps_subscribers (y_broker ?s) t)" for t c
    using D(2) [of c t] that S by simp
  show "distinct cs" if "(m, cs) \<in> set (y_publishers ?s)" for m cs
    using that D(3) [of m cs] broker_invD(2) [OF ps] unfolding P by auto
  show "c < ps_next (y_broker ?s) \<and> snd (subscriptions (es @ [?e]) ! c) = ms_Topic m"
    if "(m, cs) \<in> set (y_publishers ?s)" "c \<in> set cs" for m cs c
    using that D(4) [of m cs c] D(2) [of c topic] S unfolding P by auto
  show "count_list (carried got ?s c) m + on_the_way ?s c m \<le>
      count_list (published (snd (subscriptions (es @ [?e]) ! c)) (drop (fst (subscriptions (es @ [?e]) ! c)) (es @ [?e]))) m"
    if c: "c < ps_next (y_broker ?s)" for c m
  proof -
    have w: "on_the_way ?s c m = on_the_way s c m + of_bool (?msg = m \<and> c \<in> set (ps_subscribers (y_broker s) topic))"
      by (simp add: on_the_way_def publish_begin_def to_send_def)
    have k: "carried got ?s c = carried got s c" by (simp add: carried_def)
    have "fst (subscriptions es ! c) < length es" using subscriptions_lt [of c es] c D(1) by simp
    then have d: "drop (fst (subscriptions es ! c)) (es @ [?e]) = drop (fst (subscriptions es ! c)) es @ [?e]" by simp
    have "of_bool (?msg = m \<and> c \<in> set (ps_subscribers (y_broker s) topic)) \<le>
        count_list (published (snd (subscriptions es ! c)) [?e]) m"
      using D(2) [of c topic] by (cases "c \<in> set (ps_subscribers (y_broker s) topic)") simp_all
    moreover have "count_list (carried got s c) m + on_the_way s c m \<le>
        count_list (published (snd (subscriptions es ! c)) (drop (fst (subscriptions es ! c)) es)) m"
      using D(5) [of c m] c by simp
    ultimately show ?thesis
      unfolding S w k d published_append count_list_append by linarith
  qed
  show "carried got ?s c = []" if "ps_next (y_broker ?s) \<le> c" for c using D(6) that by (simp add: carried_def)
qed

lemma send_delivery:
  assumes inv: "delivery_inv es got s" and i: "i < length (y_publishers s)" "y_publishers s ! i = (msg, c # cs)"
    and t: "try_send msg c (y_broker s) = Steps ps"
  shows "delivery_inv (es @ [EvSend i]) got (s\<lparr>y_broker := ps, y_publishers := (y_publishers s)[i := (msg, cs)]\<rparr>)"
proof -
  note D = delivery_invD [OF inv]
  let ?s = "s\<lparr>y_broker := ps, y_publishers := (y_publishers s)[i := (msg, cs)]\<rparr>"
  have mem: "(msg, c # cs) \<in> set (y_publishers s)" using i by (metis nth_mem)
  then have c: "c < ps_next (y_broker s)" "c \<notin> set cs" using D(4) [OF mem, of c] D(3) [OF mem] by auto
  have same: "ps_next ps = ps_next (y_broker s)" "ps_subscribers ps = ps_subscribers (y_broker s)"
    and buf: "\<And>d. ch_buf (ps_chans ps d) = ch_buf (ps_chans (y_broker s) d) \<or>
        d = c \<and> ch_buf (ps_chans ps d) = ch_buf (ps_chans (y_broker s) d) @ [msg]"
    using t by (auto simp: try_send_def split: if_splits)
  show ?thesis
  proof (rule delivery_inv_shrink [OF inv])
    fix m ds assume "(m, ds) \<in> set (y_publishers ?s)"
    then have "(m, ds) = (msg, cs) \<or> (m, ds) \<in> set (y_publishers s)"
      using set_update_subset_insert [of "y_publishers s" i "(msg, cs)"] by auto
    then show "\<exists>cs'. (m, cs') \<in> set (y_publishers s) \<and> set ds \<subseteq> set cs' \<and> (distinct cs' \<longrightarrow> distinct ds)"
      using mem by fastforce
  next
    fix d m
    have w: "on_the_way ?s d m + to_send m d (msg, c # cs) = on_the_way s d m + to_send m d (msg, cs)"
      using sum_list_to_send_update [OF i(1), of m d "(msg, cs)"] i(2) by (simp add: on_the_way_def)
    show "count_list (carried got ?s d) m + on_the_way ?s d m \<le> count_list (carried got s d) m + on_the_way s d m"
      using buf [of d] w c(2) by (auto simp: carried_def to_send_def of_bool_def split: if_splits)
  next
    fix d assume d: "ps_next (y_broker s) \<le> d"
    then show "carried got ?s d = []" using D(6) [OF d] buf [of d] c(1) by (auto simp: carried_def)
  qed (simp_all add: same subscribed_def)
qed

lemma receive_delivery:
  assumes inv: "delivery_inv es got s" and buf: "ch_buf (ps_chans (y_broker s) c) = m # ms"
  shows "delivery_inv (es @ [EvReceive c]) (got(c := got c @ [m])) (s\<lparr>y_broker := (y_broker s)\<lparr>ps_chans :=
      (ps_chans (y_broker s))(c := (ps_chans (y_broker s) c)\<lparr>ch_buf := ms\<rparr>)\<rparr>\<rparr>)"
proof -
  let ?s = "s\<lparr>y_broker := (y_broker s)\<lparr>ps_chans :=
      (ps_chans (y_broker s))(c := (ps_chans (y_broker s) c)\<lparr>ch_buf := ms\<rparr>)\<rparr>\<rparr>"
  have k: "carried (got(c := got c @ [m])) ?s d = carried got s d" for d
    using buf by (simp add: carried_def)
  show ?thesis
    using delivery_invD(6) [OF inv]
    by (intro delivery_inv_shrink [OF inv]) (auto simp: k subscribed_def on_the_way_def)
qed

text \<open>Leaving and closing touch no buffer.\<close>

definition only_closes :: "'p broker \<Rightarrow> 'p broker \<Rightarrow> bool" where
  "only_closes ps ps' \<longleftrightarrow> ps_next ps' = ps_next ps \<and> (\<forall>c. ch_buf (ps_chans ps' c) = ch_buf (ps_chans ps c))"

lemma close_chan_only: "close_chan c ps = Steps ps' \<Longrightarrow> only_closes ps ps' \<and> ps_subscribers ps' = ps_subscribers ps"
  by (auto simp: close_chan_def only_closes_def split: if_splits)

lemma Unsubscribe_only: "Unsubscribe topic ch ps = Steps ps' \<Longrightarrow> only_closes ps ps'"
  by (auto simp: Unsubscribe_def Let_def only_closes_def split: option.splits dest: close_chan_only)

lemma close_subs_only: "close_subs cs ps = Steps ps' \<Longrightarrow> only_closes ps ps'"
proof (induction cs arbitrary: ps)
  case (Cons c cs)
  then obtain ps1 where "close_chan c ps = Steps ps1" "close_subs cs ps1 = Steps ps'"
    by (auto split: step_result.splits)
  with Cons.IH [of ps1] close_chan_only [of c ps ps1] show ?case by (auto simp: only_closes_def)
qed (simp add: only_closes_def)

lemma broker_Close_only: "broker_Close topics ps = Steps ps' \<Longrightarrow> only_closes ps ps'"
proof (induction topics arbitrary: ps)
  case (Cons topic topics)
  then obtain ps1 where c: "close_subs (ps_subscribers ps topic) ps = Steps ps1"
    and b: "broker_Close topics (ps1\<lparr>ps_subscribers := (ps_subscribers ps1)(topic := [])\<rparr>) = Steps ps'"
    by (auto split: step_result.splits)
  from Cons.IH [OF b] close_subs_only [OF c] show ?case by (simp add: only_closes_def)
qed (simp add: only_closes_def)

lemma close_delivery:
  assumes inv: "delivery_inv es got s" and o: "only_closes (y_broker s) ps" and e: "subscribed (length es) e = []"
    and sub: "\<And>t. set (ps_subscribers ps t) \<subseteq> set (ps_subscribers (y_broker s) t)"
  shows "delivery_inv (es @ [e]) got (s\<lparr>y_broker := ps\<rparr>)"
  using o sub delivery_invD(6) [OF inv]
  by (intro delivery_inv_shrink [OF inv e]) (auto simp: only_closes_def carried_def on_the_way_def)

lemma pubsub_step_delivery:
  assumes st: "pubsub_step e s (Steps s')" and inv: "delivery_inv es got s" and ps: "broker_inv (y_broker s)"
  shows "delivery_inv (es @ [e]) (receipts e (y_broker s) got) s'"
  using st
proof (cases rule: pubsub_step.cases)
  case (subscribe topic)
  then show ?thesis using subscribe_delivery [OF inv] by (simp add: receipts_def)
next
  case (unsubscribe topic ch)
  then obtain b where b: "Unsubscribe topic ch (y_broker s) = Steps b" "s' = s\<lparr>y_broker := b\<rparr>"
    by (auto simp: on_broker_def split: step_result.splits)
  then have "set (ps_subscribers b t) \<subseteq> set (ps_subscribers (y_broker s) t)" for t
    using Unsubscribe_inv [OF ps, of topic ch] by auto
  then show ?thesis
    using close_delivery [OF inv Unsubscribe_only [OF b(1)]] unsubscribe b(2) by (simp add: receipts_def subscribed_def)
next
  case (close_all topics)
  then obtain b where b: "broker_Close topics (y_broker s) = Steps b" "s' = s\<lparr>y_broker := b\<rparr>"
    by (auto simp: on_broker_def split: step_result.splits)
  then have "set (ps_subscribers b t) \<subseteq> set (ps_subscribers (y_broker s) t)" for t
    using broker_Close_inv [OF ps, of topics] close_all by (auto simp: all_topics_def)
  then show ?thesis
    using close_delivery [OF inv broker_Close_only [OF b(1)]] close_all b(2) by (simp add: receipts_def subscribed_def)
next
  case (publish topic payload now)
  then show ?thesis using publish_delivery [OF inv ps] by (simp add: receipts_def)
next
  case (send i msg c cs)
  then obtain b where "try_send msg c (y_broker s) = Steps b"
    "s' = s\<lparr>y_broker := b, y_publishers := (y_publishers s)[i := (msg, cs)]\<rparr>"
    by (auto simp: on_broker_def split: step_result.splits)
  then show ?thesis using send_delivery [OF inv send(3,4)] send by (simp add: receipts_def)
next
  case (receive c m ms)
  then show ?thesis using receive_delivery [OF inv receive(3)] by (simp add: receipts_def)
qed

lemma run_reaches: "pubsub_run bufSize es got s \<Longrightarrow> pubsub_reachable bufSize s"
  by (induction rule: pubsub_run.induct) (auto intro: pubsub_start pubsub_next)

lemma run_delivery: "pubsub_run bufSize es got s \<Longrightarrow> delivery_inv es got s"
proof (induction rule: pubsub_run.induct)
  case run_start
  show ?case by (simp add: delivery_inv_def NewPubSub_def carried_def on_the_way_def)
next
  case (run_next es got s e s')
  then show ?case using pubsub_step_delivery pubsub_reachable_inv [OF run_reaches] by blast
qed

section \<open>Property\<close>

lemma subscriptions_from_event: "p \<in> set (subscriptions_from i es) \<Longrightarrow> i \<le> fst p \<and> es ! (fst p - i) = EvSubscribe (snd p)"
proof (induction es arbitrary: i)
  case (Cons e es)
  show ?case
  proof (cases "p \<in> set (subscribed i e)")
    case True
    then show ?thesis by (auto simp: subscribed_def split: pubsub_event.splits)
  next
    case False
    then have "Suc i \<le> fst p \<and> es ! (fst p - Suc i) = EvSubscribe (snd p)" using Cons by simp
    then show ?thesis by (simp add: nth_Cons')
  qed
qed simp

lemma subscription_event:
  "c < length (subscriptions es) \<Longrightarrow> subscriptions es ! c = (i, t) \<Longrightarrow> i < length es \<and> es ! i = EvSubscribe t"
  using subscriptions_from_event [of "(i, t)" 0 es] subscriptions_lt [of c es]
  by (metis diff_zero fst_conv nth_mem snd_conv subscriptions_def)

text \<open>
  C30. Whatever the interleaving of subscribing, leaving, closing, publishing, sending and receiving:
  the channel of a subscription carries, handed out and buffered together, only messages published
  on its topic after the subscription, each at most as often as it was published; and nothing is
  in a channel nobody subscribed.
\<close>

theorem messages_delivered_at_most_once:
  assumes "pubsub_run bufSize es got s"
  shows "(\<forall>c < ps_next (y_broker s). \<exists>i topic. subscriptions es ! c = (i, topic) \<and>
      i < length es \<and> es ! i = EvSubscribe topic \<and>
      (\<forall>m. count_list (got c @ ch_buf (ps_chans (y_broker s) c)) m \<le> count_list (published topic (drop i es)) m) \<and>
      (\<forall>t. c \<in> set (ps_subscribers (y_broker s) t) \<longrightarrow> t = topic)) \<and>
    (\<forall>c \<ge> ps_next (y_broker s). got c = [] \<and> ch_buf (ps_chans (y_broker s) c) = [])"
proof (intro conjI allI impI)
  note D = delivery_invD [OF run_delivery [OF assms]]
  fix c
  show "\<exists>i topic. subscriptions es ! c = (i, topic) \<and> i < length es \<and> es ! i = EvSubscribe topic \<and>
      (\<forall>m. count_list (got c @ ch_buf (ps_chans (y_broker s) c)) m \<le> count_list (published topic (drop i es)) m) \<and>
      (\<forall>t. c \<in> set (ps_subscribers (y_broker s) t) \<longrightarrow> t = topic)" if c: "c < ps_next (y_broker s)"
  proof -
    obtain i topic where it: "subscriptions es ! c = (i, topic)" by (cases "subscriptions es ! c")
    then have "count_list (got c @ ch_buf (ps_chans (y_broker s) c)) m \<le> count_list (published topic (drop i es)) m" for m
      using D(5) [OF c, of m] by (simp add: carried_def)
    moreover have "i < length es \<and> es ! i = EvSubscribe topic" using subscription_event [OF _ it] c D(1) by simp
    ultimately show ?thesis using it D(2) [of c] by auto
  qed
  show "got c = []" "ch_buf (ps_chans (y_broker s) c) = []" if "ps_next (y_broker s) \<le> c"
    using D(6) [OF that] by (simp_all add: carried_def)
qed

text \<open>A subscriber that receives the one message published after it came, and not the earlier one.\<close>

definition news_events :: "nat pubsub_event list" where
  "news_events = [EvPublish ''news'' 1 3, EvSubscribe ''news'', EvPublish ''news'' 2 5, EvSend 1, EvReceive 0]"

lemma news_run: "\<exists>got s. pubsub_run 4 news_events got s \<and> ps_next (y_broker s) = 1 \<and>
    got 0 = [\<lparr>ms_Topic = ''news'', ms_Payload = 2, ms_Timestamp = 5\<rparr>]"
proof -
  let ?s0 = "\<lparr>y_broker = NewPubSub 4, y_publishers = []\<rparr> :: nat pubsub_sys"
  let ?m2 = "\<lparr>ms_Topic = ''news'', ms_Payload = 2 :: nat, ms_Timestamp = 5\<rparr>"
  let ?s1 = "?s0\<lparr>y_publishers := y_publishers ?s0 @ [publish_begin ''news'' 1 3 (y_broker ?s0)]\<rparr>"
  let ?s2 = "?s1\<lparr>y_broker := snd (Subscribe ''news'' (y_broker ?s1))\<rparr>"
  let ?s3 = "?s2\<lparr>y_publishers := y_publishers ?s2 @ [publish_begin ''news'' 2 5 (y_broker ?s2)]\<rparr>"
  have p: "y_publishers ?s3 ! 1 = (?m2, [0])"
    by (simp add: publish_begin_def Subscribe_def NewPubSub_def Let_def)
  obtain b where b: "try_send ?m2 0 (y_broker ?s3) = Steps b" "ch_buf (ps_chans b 0) = [?m2]" "ps_next b = 1"
    by (simp add: try_send_def Subscribe_def NewPubSub_def Let_def)
  let ?s4 = "?s3\<lparr>y_broker := b, y_publishers := (y_publishers ?s3)[1 := (?m2, [])]\<rparr>"
  have 1: "pubsub_run 4 [EvPublish ''news'' 1 3] (\<lambda>_. []) ?s1"
    using run_next [OF run_start [of 4] pubsub_step.publish [of "''news''" 1 3 ?s0]] by (simp add: receipts_def)
  have 2: "pubsub_run 4 [EvPublish ''news'' 1 3, EvSubscribe ''news''] (\<lambda>_. []) ?s2"
    using run_next [OF 1 pubsub_step.subscribe [of "''news''" ?s1]] by (simp add: receipts_def)
  have 3: "pubsub_run 4 [EvPublish ''news'' 1 3, EvSubscribe ''news'', EvPublish ''news'' 2 5] (\<lambda>_. []) ?s3"
    using run_next [OF 2 pubsub_step.publish [of "''news''" 2 5 ?s2]] by (simp add: receipts_def)
  have "pubsub_step (EvSend 1) ?s3 (Steps ?s4)"
    using pubsub_step.send [OF _ p] b(1) by (simp add: on_broker_def)
  from run_next [OF 3 this] have 4: "pubsub_run 4
      [EvPublish ''news'' 1 3, EvSubscribe ''news'', EvPublish ''news'' 2 5, EvSend 1] (\<lambda>_. []) ?s4"
    by (simp add: receipts_def)
  have "ch_buf (ps_chans (y_broker ?s4) 0) = ?m2 # []" using b(2) by simp
  note r = run_next [OF 4 pubsub_step.receive [OF this]]
  have "receipts (EvReceive 0) (y_broker ?s4) (\<lambda>_. []) 0 = [?m2]" using b(2) by (simp add: receipts_def)
  moreover have "ps_next (y_broker (?s4\<lparr>y_broker := (y_broker ?s4)\<lparr>ps_chans := (ps_chans (y_broker ?s4))(0 :=
      (ps_chans (y_broker ?s4) 0)\<lparr>ch_buf := []\<rparr>)\<rparr>\<rparr>)) = 1" using b(3) by simp
  moreover have "[EvPublish ''news'' 1 3, EvSubscribe ''news'', EvPublish ''news'' 2 5, EvSend 1] @ [EvReceive 0] = news_events"
    by (simp add: news_events_def)
  ultimately show ?thesis using r by metis
qed

theorem messages_delivered_at_most_once_witness:
  "\<exists>got. got (0 :: chan_addr) = [\<lparr>ms_Topic = ''news'', ms_Payload = 2, ms_Timestamp = 5\<rparr>] \<and>
    (\<forall>m. count_list (got 0) m \<le> count_list (published ''news'' (drop 1 news_events)) m)"
proof -
  obtain got s where r: "pubsub_run 4 news_events got s" "ps_next (y_broker s) = 1"
    "got 0 = [\<lparr>ms_Topic = ''news'', ms_Payload = 2, ms_Timestamp = 5\<rparr>]" using news_run by blast
  have "subscriptions news_events = [(1, ''news'')]"
    by (simp add: news_events_def subscriptions_def subscribed_def)
  then have "count_list (got 0 @ ch_buf (ps_chans (y_broker s) 0)) m \<le> count_list (published ''news'' (drop 1 news_events)) m" for m
    using messages_delivered_at_most_once [OF r(1)] r(2) by auto
  then have "count_list (got 0) m \<le> count_list (published ''news'' (drop 1 news_events)) m" for m
    using order_trans [of "count_list (got 0) m"] by (metis count_list_append le_add1)
  with r(3) show ?thesis by blast
qed

end
