(* ===== verification/WorkerPool.thy ===== *)
theory WorkerPool
  imports GoPrelude "HOL-Library.Multiset"
begin

text \<open>
  The worker pool of \<open>pkg/worker_pool.go\<close> with a client that submits a list of jobs, calls \<open>Done\<close>
  and reads the results.  \<open>pool_step\<close> is one step of one goroutine: the client, a worker, or the
  goroutine that closes the results.  A channel is a buffer of capacity \<open>wp_cap\<close> with a flag; when
  the capacity is zero a send hands its value over to a waiting receiver.  With \<open>eager\<close> the client
  reads results at any time; without it only after \<open>Done\<close>, as \<open>RunWorkerPool\<close> does.
\<close>

section \<open>Jobs and results\<close>

record pool_job =
  pj_Id :: int
  pj_Input :: int

record pool_result =
  pr_JobId :: int
  pr_WorkerId :: int
  pr_Output :: int
  pr_Err :: "string option"

text \<open>The result of one round of a worker's loop; the square is taken modulo \<open>2^64\<close>.\<close>

definition work :: "int \<Rightarrow> pool_job \<Rightarrow> pool_result" where
  "work wid job =
     (if pj_Input job < 0 then
        \<lparr>pr_JobId = pj_Id job, pr_WorkerId = wid, pr_Output = 0, pr_Err = Some ''input cannot be negative''\<rparr>
      else
        let output = i64 (pj_Input job * pj_Input job)
        in \<lparr>pr_JobId = pj_Id job, pr_WorkerId = wid, pr_Output = output, pr_Err = None\<rparr>)"

section \<open>The pool and its goroutines\<close>

text \<open>A worker waits for a job, holds a job, or has returned.\<close>

datatype pool_worker = PWait | PHold pool_job | PGone

record pool =
  wp_cap :: nat
  wp_jobs :: "pool_job list"
  wp_jobs_closed :: bool
  wp_results :: "pool_result list"
  wp_results_closed :: bool
  wp_workers :: "pool_worker list"
  wp_todo :: "pool_job list"
  wp_out :: "pool_result list"
  wp_finished :: bool

text \<open>\<open>NewWorkerPool\<close>; a negative buffer size panics.\<close>

definition NewWorkerPool :: "int \<Rightarrow> pool option" where
  "NewWorkerPool jobBufferSize =
     (if jobBufferSize < 0 then None
      else Some \<lparr>wp_cap = nat jobBufferSize, wp_jobs = [], wp_jobs_closed = False, wp_results = [],
        wp_results_closed = False, wp_workers = [], wp_todo = [], wp_out = [], wp_finished = False\<rparr>)"

definition pool_Start :: "int \<Rightarrow> pool \<Rightarrow> pool" where
  "pool_Start numWorkers p = p\<lparr>wp_workers := wp_workers p @ replicate (nat numWorkers) PWait\<rparr>"

text \<open>
  \<open>Submit\<close> sends on the jobs channel, into its buffer (handing a job over to a waiting worker, when
  there is no buffer, is the step \<open>submit_to\<close> below); \<open>Done\<close> closes it.
\<close>

definition pool_Submit :: "pool_job \<Rightarrow> pool \<Rightarrow> pool step_result" where
  "pool_Submit job p =
     (if wp_jobs_closed p then Panics
      else if length (wp_jobs p) < wp_cap p then Steps (p\<lparr>wp_jobs := wp_jobs p @ [job]\<rparr>) else Blocked)"

definition pool_Done :: "pool \<Rightarrow> pool step_result" where
  "pool_Done p = (if wp_jobs_closed p then Panics else Steps (p\<lparr>wp_jobs_closed := True\<rparr>))"

lemma pool_Submit_Steps:
  "pool_Submit j p = Steps p' \<longleftrightarrow>
     \<not> wp_jobs_closed p \<and> length (wp_jobs p) < wp_cap p \<and> p' = p\<lparr>wp_jobs := wp_jobs p @ [j]\<rparr>"
  by (auto simp: pool_Submit_def)

lemma pool_Done_Steps: "pool_Done p = Steps p' \<longleftrightarrow> \<not> wp_jobs_closed p \<and> p' = p\<lparr>wp_jobs_closed := True\<rparr>"
  by (auto simp: pool_Done_def)

definition set_pworker :: "nat \<Rightarrow> pool_worker \<Rightarrow> pool \<Rightarrow> pool" where
  "set_pworker i w p = p\<lparr>wp_workers := (wp_workers p)[i := w]\<rparr>"

definition reading :: "bool \<Rightarrow> pool \<Rightarrow> bool" where
  "reading eager p \<longleftrightarrow> \<not> wp_finished p \<and> (eager \<or> wp_jobs_closed p)"

inductive pool_step :: "bool \<Rightarrow> pool \<Rightarrow> pool \<Rightarrow> bool" for eager where
  submit: "wp_todo p = j # js \<Longrightarrow> pool_Submit j (p\<lparr>wp_todo := js\<rparr>) = Steps p' \<Longrightarrow> pool_step eager p p'"
| submit_to: "wp_todo p = j # js \<Longrightarrow> \<not> wp_jobs_closed p \<Longrightarrow> wp_cap p = 0 \<Longrightarrow>
    i < length (wp_workers p) \<Longrightarrow> wp_workers p ! i = PWait \<Longrightarrow>
    pool_step eager p (set_pworker i (PHold j) (p\<lparr>wp_todo := js\<rparr>))"
| client_done: "wp_todo p = [] \<Longrightarrow> pool_Done p = Steps p' \<Longrightarrow> pool_step eager p p'"
| take_job: "i < length (wp_workers p) \<Longrightarrow> wp_workers p ! i = PWait \<Longrightarrow> wp_jobs p = j # js \<Longrightarrow>
    pool_step eager p (set_pworker i (PHold j) (p\<lparr>wp_jobs := js\<rparr>))"
| worker_exit: "i < length (wp_workers p) \<Longrightarrow> wp_workers p ! i = PWait \<Longrightarrow> wp_jobs p = [] \<Longrightarrow> wp_jobs_closed p \<Longrightarrow>
    pool_step eager p (set_pworker i PGone p)"
| put_result: "i < length (wp_workers p) \<Longrightarrow> wp_workers p ! i = PHold j \<Longrightarrow> \<not> wp_results_closed p \<Longrightarrow>
    length (wp_results p) < wp_cap p \<Longrightarrow>
    pool_step eager p (set_pworker i PWait (p\<lparr>wp_results := wp_results p @ [work (int i + 1) j]\<rparr>))"
| hand_result: "i < length (wp_workers p) \<Longrightarrow> wp_workers p ! i = PHold j \<Longrightarrow> \<not> wp_results_closed p \<Longrightarrow>
    wp_cap p = 0 \<Longrightarrow> reading eager p \<Longrightarrow>
    pool_step eager p (set_pworker i PWait (p\<lparr>wp_out := wp_out p @ [work (int i + 1) j]\<rparr>))"
| close_results: "\<forall>w \<in> set (wp_workers p). w = PGone \<Longrightarrow> \<not> wp_results_closed p \<Longrightarrow>
    pool_step eager p (p\<lparr>wp_results_closed := True\<rparr>)"
| read: "reading eager p \<Longrightarrow> wp_results p = r # rs \<Longrightarrow>
    pool_step eager p (p\<lparr>wp_results := rs, wp_out := wp_out p @ [r]\<rparr>)"
| read_end: "reading eager p \<Longrightarrow> wp_results p = [] \<Longrightarrow> wp_results_closed p \<Longrightarrow> wp_todo p = [] \<Longrightarrow> wp_jobs_closed p \<Longrightarrow>
    pool_step eager p (p\<lparr>wp_finished := True\<rparr>)"

text \<open>The panics the pool could suffer: a worker sending on the closed results, the client on the closed jobs.\<close>

definition pool_panics :: "pool \<Rightarrow> bool" where
  "pool_panics p \<longleftrightarrow> wp_results_closed p \<and> (\<exists>w \<in> set (wp_workers p). \<exists>j. w = PHold j) \<or>
     (case wp_todo p of [] \<Rightarrow> False | j # js \<Rightarrow> pool_Submit j p = Panics)"

definition pool_init :: "nat \<Rightarrow> int \<Rightarrow> pool_job list \<Rightarrow> pool" where
  "pool_init cap numWorkers js =
     (case NewWorkerPool (int cap) of Some p \<Rightarrow> pool_Start numWorkers (p\<lparr>wp_todo := js\<rparr>))"

section \<open>Where the jobs are\<close>

definition held :: "pool_worker list \<Rightarrow> pool_job list" where
  "held ws = concat (map (\<lambda>w. case w of PHold j \<Rightarrow> [j] | _ \<Rightarrow> []) ws)"

text \<open>What a result says, whichever worker wrote it, and what a job is to be answered.\<close>

definition core :: "pool_result \<Rightarrow> int \<times> int \<times> string option" where
  "core r = (pr_JobId r, pr_Output r, pr_Err r)"

definition answer_of :: "pool_job \<Rightarrow> int \<times> int \<times> string option" where
  "answer_of j =
     (if pj_Input j < 0 then (pj_Id j, 0, Some ''input cannot be negative'')
      else (pj_Id j, i64 ((pj_Input j)\<^sup>2), None))"

lemma core_work [simp]: "core (work wid j) = answer_of j"
  by (simp add: core_def answer_of_def work_def Let_def power2_eq_square)

definition accounts :: "pool \<Rightarrow> (int \<times> int \<times> string option) multiset" where
  "accounts p =
     image_mset answer_of (mset (wp_todo p) + mset (wp_jobs p) + mset (held (wp_workers p))) +
     image_mset core (mset (wp_results p) + mset (wp_out p))"

definition pool_inv :: "nat \<Rightarrow> nat \<Rightarrow> pool_job list \<Rightarrow> pool \<Rightarrow> bool" where
  "pool_inv cap n js p \<longleftrightarrow>
     wp_cap p = cap \<and> length (wp_workers p) = n \<and>
     accounts p = image_mset answer_of (mset js) \<and>
     (wp_jobs_closed p \<longrightarrow> wp_todo p = []) \<and>
     (PGone \<in> set (wp_workers p) \<longrightarrow> wp_jobs_closed p \<and> wp_jobs p = []) \<and>
     (wp_results_closed p \<longrightarrow> (\<forall>w \<in> set (wp_workers p). w = PGone)) \<and>
     length (wp_results p) \<le> cap \<and>
     (wp_finished p \<longrightarrow> wp_results p = [] \<and> wp_results_closed p \<and> wp_jobs_closed p)"

lemma held_update:
  assumes "i < length ws"
  shows "mset (held (ws[i := w])) + mset (held [ws ! i]) = mset (held ws) + mset (held [w])"
  unfolding held_def using mset_concat_update [OF assms] by simp

lemma held_hold: "i < length ws \<Longrightarrow> ws ! i = PWait \<Longrightarrow> mset (held (ws[i := PHold j])) = mset (held ws) + {#j#}"
  and held_free: "i < length ws \<Longrightarrow> ws ! i = PHold j \<Longrightarrow> mset (held ws) = mset (held (ws[i := PWait])) + {#j#}"
  and held_exit: "i < length ws \<Longrightarrow> ws ! i = PWait \<Longrightarrow> mset (held (ws[i := PGone])) = mset (held ws)"
  using held_update [of i ws "PHold j"] held_update [of i ws PWait] held_update [of i ws PGone]
  by (simp_all add: held_def)

section \<open>The invariant\<close>

lemma pool_init_eq:
  "pool_init cap numWorkers js =
     \<lparr>wp_cap = cap, wp_jobs = [], wp_jobs_closed = False, wp_results = [], wp_results_closed = False,
      wp_workers = replicate (nat numWorkers) PWait, wp_todo = js, wp_out = [], wp_finished = False\<rparr>"
  by (simp add: pool_init_def NewWorkerPool_def pool_Start_def)

lemma held_replicate [simp]: "held (replicate n PWait) = []"
  by (simp add: held_def)

lemma pool_init_inv: "pool_inv cap (nat numWorkers) js (pool_init cap numWorkers js)"
  by (auto simp: pool_inv_def pool_init_eq accounts_def)

lemmas pool_step_defs = pool_Submit_Steps pool_Done_Steps set_pworker_def

lemma accounts_step:
  assumes "pool_step eager p p'"
  shows "accounts p' = accounts p"
  using assms
proof cases
  case (take_job i j js)
  then show ?thesis using held_hold [of i "wp_workers p" j] by (simp add: accounts_def pool_step_defs)
next
  case (submit_to j js i)
  then show ?thesis using held_hold [of i "wp_workers p" j] by (simp add: accounts_def pool_step_defs)
next
  case (worker_exit i)
  then show ?thesis using held_exit [of i "wp_workers p"] by (simp add: accounts_def pool_step_defs)
next
  case (put_result i j)
  then show ?thesis using held_free [of i "wp_workers p" j] by (simp add: accounts_def pool_step_defs)
next
  case (hand_result i j)
  then show ?thesis using held_free [of i "wp_workers p" j] by (simp add: accounts_def pool_step_defs)
qed (simp_all add: accounts_def pool_step_defs)

lemma gone_update: "x \<noteq> PGone \<Longrightarrow> PGone \<in> set (ws[i := x]) \<Longrightarrow> PGone \<in> set ws"
  using set_update_subset_insert [of ws i x] by auto

lemma pool_step_inv:
  assumes step: "pool_step eager p p'" and inv: "pool_inv cap n js p"
  shows "pool_inv cap n js p'"
proof -
  have acc: "accounts p' = image_mset answer_of (mset js)"
    using accounts_step [OF step] inv by (simp add: pool_inv_def)
  show ?thesis
    using step
  proof cases
    case (worker_exit i)
    then show ?thesis
      using inv acc nth_mem [of i "wp_workers p"] by (auto simp: pool_inv_def pool_step_defs)
  next
    case (put_result i j)
    then show ?thesis
      using inv acc nth_mem [of i "wp_workers p"] gone_update [of PWait "wp_workers p" i]
      by (auto simp: pool_inv_def pool_step_defs)
  next
    case (hand_result i j)
    then show ?thesis
      using inv acc nth_mem [of i "wp_workers p"] gone_update [of PWait "wp_workers p" i]
      by (auto simp: pool_inv_def pool_step_defs reading_def)
  next
    case (take_job i j ks)
    then show ?thesis
      using inv acc nth_mem [of i "wp_workers p"] gone_update [of "PHold j" "wp_workers p" i]
      by (auto simp: pool_inv_def pool_step_defs)
  next
    case (submit_to j ks i)
    then show ?thesis
      using inv acc nth_mem [of i "wp_workers p"] gone_update [of "PHold j" "wp_workers p" i]
      by (auto simp: pool_inv_def pool_step_defs)
  qed (use inv acc in \<open>auto simp: pool_inv_def pool_step_defs reading_def\<close>)
qed

inductive pool_run :: "bool \<Rightarrow> nat \<Rightarrow> pool \<Rightarrow> pool \<Rightarrow> bool" for eager where
  run_start: "pool_run eager 0 p p"
| run_step: "pool_run eager k p q \<Longrightarrow> pool_step eager q r \<Longrightarrow> pool_run eager (Suc k) p r"

lemma pool_run_inv: "pool_run eager k p q \<Longrightarrow> pool_inv cap n js p \<Longrightarrow> pool_inv cap n js q"
  by (induction rule: pool_run.induct) (auto intro: pool_step_inv)

section \<open>Every run is finite\<close>

definition pool_work :: "pool \<Rightarrow> nat" where
  "pool_work p =
     4 * length (wp_todo p) + 3 * length (wp_jobs p) + 2 * length (held (wp_workers p)) + length (wp_results p) +
     length (filter (\<lambda>w. w \<noteq> PGone) (wp_workers p)) + (if wp_jobs_closed p then 0 else 1) +
     (if wp_results_closed p then 0 else 1) + (if wp_finished p then 0 else 1)"

lemma alive_update:
  "i < length ws \<Longrightarrow> ws ! i \<noteq> PGone \<Longrightarrow>
   length (filter (\<lambda>w. w \<noteq> PGone) (ws[i := w])) + (if w = PGone then 1 else 0) = length (filter (\<lambda>w. w \<noteq> PGone) ws)"
proof (induction ws arbitrary: i)
  case (Cons v ws)
  then show ?case by (cases i) auto
qed simp

lemma held_length:
  "i < length ws \<Longrightarrow> ws ! i = PWait \<Longrightarrow> length (held (ws[i := PHold j])) = Suc (length (held ws))"
  "i < length ws \<Longrightarrow> ws ! i = PHold j \<Longrightarrow> length (held ws) = Suc (length (held (ws[i := PWait])))"
  "i < length ws \<Longrightarrow> ws ! i = PWait \<Longrightarrow> length (held (ws[i := PGone])) = length (held ws)"
  using arg_cong [OF held_hold, of i ws size j] arg_cong [OF held_free, of i ws j size] arg_cong [OF held_exit, of i ws size]
  by simp_all

lemma pool_step_work:
  assumes "pool_step eager p p'"
  shows "pool_work p' < pool_work p"
  using assms
proof cases
  case (take_job i j js)
  then show ?thesis
    using held_length(1) [of i "wp_workers p" j] alive_update [of i "wp_workers p" "PHold j"]
    by (simp add: pool_work_def pool_step_defs)
next
  case (submit_to j js i)
  then show ?thesis
    using held_length(1) [of i "wp_workers p" j] alive_update [of i "wp_workers p" "PHold j"]
    by (simp add: pool_work_def pool_step_defs)
next
  case (worker_exit i)
  then show ?thesis
    using held_length(3) [of i "wp_workers p"] alive_update [of i "wp_workers p" PGone]
    by (simp add: pool_work_def pool_step_defs)
next
  case (put_result i j)
  then show ?thesis
    using held_length(2) [of i "wp_workers p" j] alive_update [of i "wp_workers p" PWait]
    by (simp add: pool_work_def pool_step_defs)
next
  case (hand_result i j)
  then show ?thesis
    using held_length(2) [of i "wp_workers p" j] alive_update [of i "wp_workers p" PWait]
    by (simp add: pool_work_def pool_step_defs)
qed (simp_all add: pool_work_def pool_step_defs reading_def)

lemma pool_run_work: "pool_run eager k p q \<Longrightarrow> k + pool_work q \<le> pool_work p"
proof (induction rule: pool_run.induct)
  case (run_step k p q r)
  with pool_step_work [OF run_step(2)] show ?case by simp
qed simp

section \<open>No deadlock\<close>

lemma worker_hold_held: "i < length ws \<Longrightarrow> ws ! i = PHold j \<Longrightarrow> 0 < length (held ws)"
  using held_length(2) [of i ws j] by simp

text \<open>The total count: no more results are buffered than jobs were given.\<close>

lemma accounts_count:
  assumes "pool_inv cap n js p"
  shows "length (wp_todo p) + length (wp_jobs p) + length (held (wp_workers p)) + length (wp_results p) +
    length (wp_out p) = length js"
proof -
  have "size (accounts p) = size (image_mset answer_of (mset js))" using assms by (simp add: pool_inv_def)
  then show ?thesis by (simp add: accounts_def)
qed

lemma hold_progress:
  assumes inv: "pool_inv cap n js p" and room: "eager \<or> length js \<le> cap"
    and nf: "\<not> wp_finished p" and i: "i < length (wp_workers p)" "wp_workers p ! i = PHold j"
  shows "\<exists>p'. pool_step eager p p'"
proof -
  have ro: "\<not> wp_results_closed p" using inv i nth_mem [OF i(1)] by (auto simp: pool_inv_def)
  have cap: "wp_cap p = cap" "length (wp_results p) \<le> cap" using inv by (auto simp: pool_inv_def)
  have few: "length (wp_results p) < length js"
    using accounts_count [OF inv] worker_hold_held [OF i] by linarith
  consider (room) "length (wp_results p) < cap" | (full) "0 < cap" "length (wp_results p) = cap" | (zero) "cap = 0"
    using cap(2) by linarith
  then show ?thesis
  proof cases
    case room
    then show ?thesis using put_result [OF i ro] cap(1) by blast
  next
    case full
    then have "eager" using room few by auto
    moreover obtain r rs where "wp_results p = r # rs" using full by (cases "wp_results p") auto
    ultimately show ?thesis using read [of eager p r rs] nf by (auto simp: reading_def)
  next
    case zero
    then have "eager" using room few by auto
    then show ?thesis using hand_result [OF i ro] zero cap(1) nf by (auto simp: reading_def)
  qed
qed

lemma pool_progress:
  assumes inv: "pool_inv cap n js p" and n: "0 < n" and room: "eager \<or> length js \<le> cap"
    and nf: "\<not> wp_finished p"
  shows "\<exists>p'. pool_step eager p p'"
proof -
  have cap: "wp_cap p = cap" and len: "length (wp_workers p) = n"
    and gone: "PGone \<in> set (wp_workers p) \<Longrightarrow> wp_jobs_closed p \<and> wp_jobs p = []"
    and todo: "wp_jobs_closed p \<Longrightarrow> wp_todo p = []"
    using inv by (auto simp: pool_inv_def)
  consider (hold) i j where "i < length (wp_workers p)" "wp_workers p ! i = PHold j"
    | (wait) i where "i < length (wp_workers p)" "wp_workers p ! i = PWait"
        "\<forall>w \<in> set (wp_workers p). \<not> (\<exists>j. w = PHold j)"
    | (gone) "\<forall>w \<in> set (wp_workers p). w = PGone"
    by (metis in_set_conv_nth pool_worker.exhaust)
  then show ?thesis
  proof cases
    case hold
    then show ?thesis by (rule hold_progress [OF inv room nf])
  next
    case wait
    show ?thesis
    proof (cases "wp_jobs p")
      case (Cons j ks)
      then show ?thesis using take_job [OF wait(1,2)] by blast
    next
      case Nil
      show ?thesis
      proof (cases "wp_jobs_closed p")
        case True
        then show ?thesis using worker_exit [OF wait(1,2) Nil] by blast
      next
        case False
        show ?thesis
        proof (cases "wp_todo p")
          case Nil
          then show ?thesis using client_done pool_Done_Steps False by blast
        next
          case (Cons j ks)
          then show ?thesis
            using submit [OF Cons] submit_to [OF Cons False _ wait(1,2)] \<open>wp_jobs p = []\<close> cap False
            by (cases "wp_cap p = 0") (auto simp: pool_Submit_Steps)
        qed
      qed
    qed
  next
    case gone
    then have "PGone \<in> set (wp_workers p)" using len n by (cases "wp_workers p") auto
    then have closed: "wp_jobs_closed p" "wp_todo p = []" using \<open>PGone \<in> set (wp_workers p) \<Longrightarrow> _\<close> todo by auto
    then have rd: "reading eager p" using nf by (simp add: reading_def)
    show ?thesis
    proof (cases "wp_results_closed p")
      case False
      then show ?thesis using close_results [OF gone] by blast
    next
      case True
      then show ?thesis
        using read [OF rd] read_end [OF rd _ True closed(2,1)] by (cases "wp_results p") blast+
    qed
  qed
qed

lemma pool_final:
  assumes inv: "pool_inv cap n js p" and n: "0 < n" and fin: "wp_finished p"
  shows "image_mset core (mset (wp_out p)) = image_mset answer_of (mset js)"
proof -
  have g: "\<forall>w \<in> set (wp_workers p). w = PGone" and "wp_results p = []" "wp_todo p = []"
    using inv fin by (auto simp: pool_inv_def)
  moreover have "held (wp_workers p) = []" using g by (auto simp: held_def)
  moreover have "wp_jobs p = []"
    using inv g n by (cases "wp_workers p") (auto simp: pool_inv_def)
  ultimately show ?thesis using inv by (simp add: pool_inv_def accounts_def)
qed

end
