(* ===== verification/WorkerPoolProperties.thy ===== *)
theory WorkerPoolProperties
  imports WorkerPool
begin

text \<open>The properties of the worker pool, and the client that deadlocks it.\<close>

section \<open>Concrete runs\<close>

definition pjob :: "int \<Rightarrow> pool_job" where
  "pjob n = \<lparr>pj_Id = n, pj_Input = n\<rparr>"

text \<open>One worker, buffers of one: the state after three of four jobs are submitted and one is done.\<close>

definition stuck_pool :: pool where
  "stuck_pool = \<lparr>wp_cap = 1, wp_jobs = [pjob 3], wp_jobs_closed = False, wp_results = [work 1 (pjob 1)],
     wp_results_closed = False, wp_workers = [PHold (pjob 2)], wp_todo = [pjob 4], wp_out = [], wp_finished = False\<rparr>"

inductive_simps pool_step_iff: "pool_step eager p p'"

lemma stuck_pool_reached:
  "pool_run False 6 (pool_init 1 1 [pjob 1, pjob 2, pjob 3, pjob 4]) stuck_pool"
proof -
  let ?p0 = "pool_init 1 1 [pjob 1, pjob 2, pjob 3, pjob 4]"
  let ?p1 = "?p0\<lparr>wp_todo := [pjob 2, pjob 3, pjob 4], wp_jobs := [pjob 1]\<rparr>"
  let ?p2 = "set_pworker 0 (PHold (pjob 1)) (?p1\<lparr>wp_jobs := []\<rparr>)"
  let ?p3 = "?p2\<lparr>wp_todo := [pjob 3, pjob 4], wp_jobs := [pjob 2]\<rparr>"
  let ?p4 = "set_pworker 0 PWait (?p3\<lparr>wp_results := wp_results ?p3 @ [work (int 0 + 1) (pjob 1)]\<rparr>)"
  let ?p5 = "set_pworker 0 (PHold (pjob 2)) (?p4\<lparr>wp_jobs := []\<rparr>)"
  let ?p6 = "?p5\<lparr>wp_todo := [pjob 4], wp_jobs := [pjob 3]\<rparr>"
  note e = pool_init_eq pool_step_defs
  have "pool_run False 0 ?p0 ?p0" by (rule run_start)
  then have "pool_run False (Suc 0) ?p0 ?p1" by (rule run_step) (rule submit, simp_all add: e)
  then have "pool_run False (Suc (Suc 0)) ?p0 ?p2" by (rule run_step) (rule take_job, simp_all add: e)
  then have "pool_run False (Suc (Suc (Suc 0))) ?p0 ?p3" by (rule run_step) (rule submit, simp_all add: e)
  then have "pool_run False (Suc (Suc (Suc (Suc 0)))) ?p0 ?p4" by (rule run_step) (rule put_result, simp_all add: e)
  then have "pool_run False (Suc (Suc (Suc (Suc (Suc 0))))) ?p0 ?p5" by (rule run_step) (rule take_job, simp_all add: e)
  then have "pool_run False (Suc (Suc (Suc (Suc (Suc (Suc 0)))))) ?p0 ?p6" by (rule run_step) (rule submit, simp_all add: e)
  moreover have "?p6 = stuck_pool" by (simp add: e stuck_pool_def)
  ultimately show ?thesis by (simp add: eval_nat_numeral)
qed

lemma stuck_pool_stuck: "\<not> pool_step False stuck_pool p'"
  by (simp add: pool_step_iff stuck_pool_def reading_def pool_Submit_def)

section \<open>How runs end\<close>

lemma pool_run_ends:
  assumes "pool_run eager k (pool_init cap numWorkers js) p" and "0 < numWorkers"
    and "eager \<or> length js \<le> cap"
  shows "int k \<le> 4 * int (length js) + numWorkers + 3 \<and>
    ((\<exists>p'. pool_step eager p p') \<or>
     wp_finished p \<and> image_mset core (mset (wp_out p)) = image_mset answer_of (mset js))"
proof -
  have inv: "pool_inv cap (nat numWorkers) js p" by (rule pool_run_inv [OF assms(1) pool_init_inv])
  have n: "0 < nat numWorkers" using assms(2) by simp
  have "pool_work (pool_init cap numWorkers js) = 4 * length js + nat numWorkers + 3"
    by (simp add: pool_work_def pool_init_eq)
  then have "int k \<le> 4 * int (length js) + numWorkers + 3"
    using pool_run_work [OF assms(1)] assms(2) by linarith
  moreover have "(\<exists>p'. pool_step eager p p') \<or>
     wp_finished p \<and> image_mset core (mset (wp_out p)) = image_mset answer_of (mset js)"
    using pool_progress [OF inv n assms(3)] pool_final [OF inv n] by blast
  ultimately show ?thesis by blast
qed

text \<open>
  The two demonstrations: jobs 1 to 10 for two workers (\<open>RunWorkerPool\<close>) and jobs 1 to 8 for three
  (\<open>RunWorkerExample\<close>), each with room for all jobs, so their clients may submit before they read.
  The lines they print for the results; a worker's own lines may come anywhere in between.
\<close>

definition demo_jobs :: "int \<Rightarrow> pool_job list" where
  "demo_jobs n = map (\<lambda>j. \<lparr>pj_Id = j, pj_Input = j\<rparr>) [1..n]"

definition RunWorkerPool_start :: pool where
  "RunWorkerPool_start = pool_init 10 2 (demo_jobs 10)"

definition RunWorkerExample_start :: pool where
  "RunWorkerExample_start = pool_init 8 3 (demo_jobs 8)"

definition RunWorkerPool_line :: "pool_result \<Rightarrow> string" where
  "RunWorkerPool_line r =
     (case pr_Err r of
        Some e \<Rightarrow> println (''Job '' @ int_dec (pr_JobId r) @ '' FAILED: '' @ e)
      | None \<Rightarrow> println (''Job '' @ int_dec (pr_JobId r) @ '' --> Output : '' @ int_dec (pr_Output r)))"

definition RunWorkerExample_line :: "pool_result \<Rightarrow> string" where
  "RunWorkerExample_line r =
     (case pr_Err r of
        Some e \<Rightarrow> println (''Job '' @ int_dec (pr_JobId r) @ '' FAILED: '' @ e)
      | None \<Rightarrow> println (''Job '' @ int_dec (pr_JobId r) @ '' --> '' @ int_dec (pr_Output r)))"

text \<open>Both end: where no step is left every job has been answered with its square.\<close>

lemma demo_jobs_answers:
  assumes "n \<le> 10"
  shows "image_mset answer_of (mset (demo_jobs n)) = mset (map (\<lambda>j. (j, j\<^sup>2, None)) [1..n])"
proof -
  have "answer_of \<lparr>pj_Id = j, pj_Input = j\<rparr> = (j, j\<^sup>2, None)" if "j \<in> set [1..n]" for j
  proof -
    have "j\<^sup>2 \<le> 100" using mult_mono [of j 10 j 10] that assms by (simp add: power2_eq_square)
    then have "in_i64 (j\<^sup>2)" by (simp add: in_i64_def) (metis zero_le_power2 order_trans neg_numeral_le_zero)
    with that show ?thesis by (simp add: answer_of_def)
  qed
  then have "map answer_of (demo_jobs n) = map (\<lambda>j. (j, j\<^sup>2, None)) [1..n]" by (simp add: demo_jobs_def)
  then show ?thesis by (simp only: mset_map [symmetric])
qed

lemma demo_pool_ends:
  assumes "pool_run False k (pool_init (nat n) w (demo_jobs n)) p" "0 < w" "n \<le> 10" "\<forall>p'. \<not> pool_step False p p'"
  shows "image_mset core (mset (wp_out p)) = mset (map (\<lambda>j. (j, j\<^sup>2, None)) [1..n])"
proof -
  have "length (demo_jobs n) \<le> nat n" by (simp add: demo_jobs_def)
  with pool_run_ends [OF assms(1,2)] assms(4) demo_jobs_answers [OF assms(3)] show ?thesis by simp
qed

lemma RunWorkerPool_ends:
  "pool_run False k RunWorkerPool_start p \<Longrightarrow> \<forall>p'. \<not> pool_step False p p' \<Longrightarrow>
   image_mset core (mset (wp_out p)) = mset (map (\<lambda>j. (j, j\<^sup>2, None)) [1..10])"
  using demo_pool_ends [of k 10 2 p] by (simp add: RunWorkerPool_start_def)

lemma RunWorkerExample_ends:
  "pool_run False k RunWorkerExample_start p \<Longrightarrow> \<forall>p'. \<not> pool_step False p p' \<Longrightarrow>
   image_mset core (mset (wp_out p)) = mset (map (\<lambda>j. (j, j\<^sup>2, None)) [1..8])"
  using demo_pool_ends [of k 8 3 p] by (simp add: RunWorkerExample_start_def)

section \<open>Properties\<close>

text \<open>C31. In every state of every run, whatever the number of workers, the buffer size and the order of
  steps, each submitted job is in exactly one place: still to submit, buffered, held by a worker,
  or answered once with its own square (or the error for a negative input) among the results
  buffered or read.  No worker ever sends on the closed results channel, and the client does not
  submit after it has closed the jobs.\<close>

theorem pool_accounts_for_jobs:
  assumes "pool_run eager k (pool_init cap numWorkers js) p"
  shows "image_mset answer_of (mset (wp_todo p @ wp_jobs p @ held (wp_workers p))) +
      image_mset core (mset (wp_results p @ wp_out p)) = image_mset answer_of (mset js) \<and>
    \<not> pool_panics p \<and> length (wp_results p) \<le> cap"
proof -
  have inv: "pool_inv cap (nat numWorkers) js p" by (rule pool_run_inv [OF assms pool_init_inv])
  then have "\<not> pool_panics p" by (auto simp: pool_inv_def pool_panics_def pool_Submit_def split: list.splits)
  moreover have "length (wp_results p) \<le> cap" using inv by (simp add: pool_inv_def)
  moreover have "accounts p = image_mset answer_of (mset js)" using inv by (simp add: pool_inv_def)
  ultimately show ?thesis by (simp add: accounts_def add.assoc)
qed

theorem pool_accounts_for_jobs_witness:
  "image_mset answer_of (mset (wp_todo stuck_pool @ wp_jobs stuck_pool @ held (wp_workers stuck_pool))) +
     image_mset core (mset (wp_results stuck_pool @ wp_out stuck_pool)) =
   image_mset answer_of (mset [pjob 1, pjob 2, pjob 3, pjob 4])"
  using pool_accounts_for_jobs [OF stuck_pool_reached] by blast

text \<open>C32. The pool terminates and never deadlocks, if it has a worker and the client either reads while it
  submits or has no more jobs than the buffers hold: a run has at most four steps per job, one
  per worker and three more, and a state with no step left is one where the client has finished
  and has read exactly the answers of all jobs.  The condition is needed: with one worker,
  buffers of one and four jobs, a client that submits before it reads gets stuck.\<close>

theorem pool_terminates:
  assumes "pool_run eager k (pool_init cap numWorkers js) p" and "0 < numWorkers"
    and "eager \<or> length js \<le> cap"
  shows "int k \<le> 4 * int (length js) + numWorkers + 3 \<and>
    ((\<exists>p'. pool_step eager p p') \<or>
     wp_finished p \<and> image_mset core (mset (wp_out p)) = image_mset answer_of (mset js)) \<and>
    pool_run False 6 (pool_init 1 1 [pjob 1, pjob 2, pjob 3, pjob 4]) stuck_pool \<and>
    \<not> wp_finished stuck_pool \<and> (\<nexists>p'. pool_step False stuck_pool p')"
proof -
  have "\<not> wp_finished stuck_pool" by (simp add: stuck_pool_def)
  then show ?thesis using pool_run_ends [OF assms] stuck_pool_reached stuck_pool_stuck by blast
qed

theorem pool_terminates_witness:
  "\<exists>p'. pool_step False (pool_init 2 1 [pjob 5, pjob (- 5)]) p'"
proof -
  have "pool_run False 0 (pool_init 2 1 [pjob 5, pjob (- 5)]) (pool_init 2 1 [pjob 5, pjob (- 5)])" by (rule run_start)
  from pool_terminates [OF this] show ?thesis by (auto simp: pool_init_eq)
qed

end
