(* ===== verification/LinkedList.thy ===== *)
theory LinkedList
  imports GoPrelude
begin

text \<open>
  The linked list of \<open>pkg/linked_list.go\<close> on an explicit heap: a node is a record in a store of
  addresses, \<open>nil\<close> is \<open>None\<close>, and new nodes take the next free address.  The loops follow \<open>Next\<close> and
  need not end on a cyclic list, so they are partial functions (\<open>None\<close> is a loop that does not
  return).  \<open>chain_at\<close> relates a pointer to the addresses of the nodes behind it; on it rests
  the refinement of the list of values.
\<close>

section \<open>Data\<close>

type_synonym node_addr = nat

record node =
  n_Value :: int
  n_Next :: "node_addr option"

record heap =
  h_nodes :: "node_addr \<Rightarrow> node"
  h_free :: node_addr

record linked_list =
  ll_Head :: "node_addr option"

definition empty_heap :: heap where
  "empty_heap = \<lparr>h_nodes = (\<lambda>_. \<lparr>n_Value = 0, n_Next = None\<rparr>), h_free = 0\<rparr>"

definition alloc :: "node \<Rightarrow> heap \<Rightarrow> node_addr \<times> heap" where
  "alloc n h = (h_free h, h\<lparr>h_nodes := (h_nodes h)(h_free h := n), h_free := Suc (h_free h)\<rparr>)"

definition set_Next :: "node_addr \<Rightarrow> node_addr option \<Rightarrow> heap \<Rightarrow> heap" where
  "set_Next a p h = h\<lparr>h_nodes := (h_nodes h)(a := (h_nodes h a)\<lparr>n_Next := p\<rparr>)\<rparr>"

section \<open>Operations\<close>

definition InsertFront :: "int \<Rightarrow> heap \<times> linked_list \<Rightarrow> heap \<times> linked_list" where
  "InsertFront value s =
     (let (h, l) = s; (newNode, h) = alloc \<lparr>n_Value = value, n_Next = ll_Head l\<rparr> h
      in (h, l\<lparr>ll_Head := Some newNode\<rparr>))"

text \<open>The walk to the last node.\<close>

partial_function (option) last_node :: "heap \<Rightarrow> node_addr \<Rightarrow> node_addr option" where
  "last_node h current =
     (case n_Next (h_nodes h current) of None \<Rightarrow> Some current | Some next \<Rightarrow> last_node h next)"

definition InsertBack :: "int \<Rightarrow> heap \<times> linked_list \<Rightarrow> (heap \<times> linked_list) option" where
  "InsertBack value s =
     (let (h, l) = s; (newNode, h) = alloc \<lparr>n_Value = value, n_Next = None\<rparr> h in
      case ll_Head l of
        None \<Rightarrow> Some (h, l\<lparr>ll_Head := Some newNode\<rparr>)
      | Some a \<Rightarrow>
          (case last_node h a of
             None \<Rightarrow> None
           | Some current \<Rightarrow> Some (set_Next current (Some newNode) h, l)))"

text \<open>The walk to the node before the first one with the value, or to the last node.\<close>

partial_function (option) node_before :: "int \<Rightarrow> heap \<Rightarrow> node_addr \<Rightarrow> node_addr option" where
  "node_before value h current =
     (case n_Next (h_nodes h current) of
        None \<Rightarrow> Some current
      | Some next \<Rightarrow> if n_Value (h_nodes h next) \<noteq> value then node_before value h next else Some current)"

definition Delete :: "int \<Rightarrow> heap \<times> linked_list \<Rightarrow> (heap \<times> linked_list) option" where
  "Delete value s =
     (let (h, l) = s in
      case ll_Head l of
        None \<Rightarrow> Some s
      | Some a \<Rightarrow>
          if n_Value (h_nodes h a) = value then Some (h, l\<lparr>ll_Head := n_Next (h_nodes h a)\<rparr>)
          else
            (case node_before value h a of
               None \<Rightarrow> None
             | Some current \<Rightarrow>
                 (case n_Next (h_nodes h current) of
                    None \<Rightarrow> Some s
                  | Some next \<Rightarrow> Some (set_Next current (n_Next (h_nodes h next)) h, l))))"

text \<open>What \<open>Print\<close> writes, with \<open>dec\<close> for the verb \<open>%d\<close>.\<close>

partial_function (option) print_from :: "(int \<Rightarrow> string) \<Rightarrow> heap \<Rightarrow> node_addr option \<Rightarrow> string option" where
  "print_from dec h p =
     (case p of
        None \<Rightarrow> Some (''nil'' @ [CHR 0x0A])
      | Some a \<Rightarrow>
          Option.bind (print_from dec h (n_Next (h_nodes h a)))
            (\<lambda>rest. Some (dec (n_Value (h_nodes h a)) @ '' -> '' @ rest)))"

definition Print :: "(int \<Rightarrow> string) \<Rightarrow> heap \<times> linked_list \<Rightarrow> string option" where
  "Print dec s = (let (h, l) = s in print_from dec h (ll_Head l))"

section \<open>Chains of nodes\<close>

fun chain_at :: "(node_addr \<Rightarrow> node) \<Rightarrow> node_addr option \<Rightarrow> node_addr list \<Rightarrow> bool" where
  "chain_at m p [] \<longleftrightarrow> p = None"
| "chain_at m p (a # as) \<longleftrightarrow> p = Some a \<and> chain_at m (n_Next (m a)) as"

lemma chain_at_unique: "chain_at m p as \<Longrightarrow> chain_at m p bs \<Longrightarrow> as = bs"
proof (induction as arbitrary: p bs)
  case Nil
  then show ?case by (cases bs) auto
next
  case (Cons a as)
  then show ?case by (cases bs) auto
qed

lemma chain_at_upd: "a \<notin> set as \<Longrightarrow> chain_at (m(a := n)) p as \<longleftrightarrow> chain_at m p as"
  by (induction as arbitrary: p) auto

text \<open>The nodes of a list are allocated and pairwise distinct; \<open>values\<close> reads them off.\<close>

definition values_of :: "heap \<Rightarrow> node_addr list \<Rightarrow> int list" where
  "values_of h as = map (\<lambda>a. n_Value (h_nodes h a)) as"

definition nodes_ok :: "heap \<Rightarrow> linked_list \<Rightarrow> node_addr list \<Rightarrow> bool" where
  "nodes_ok h l as \<longleftrightarrow> chain_at (h_nodes h) (ll_Head l) as \<and> distinct as \<and> (\<forall>a \<in> set as. a < h_free h)"

definition represents :: "heap \<times> linked_list \<Rightarrow> int list \<Rightarrow> bool" where
  "represents s xs \<longleftrightarrow> (\<exists>as. nodes_ok (fst s) (snd s) as \<and> xs = values_of (fst s) as)"

lemma represents_unique: "represents s xs \<Longrightarrow> represents s ys \<Longrightarrow> xs = ys"
  unfolding represents_def nodes_ok_def using chain_at_unique by metis

lemma values_upd: "a \<notin> set as \<Longrightarrow> map (\<lambda>b. n_Value ((m(a := n)) b)) as = map (\<lambda>b. n_Value (m b)) as"
  by (intro map_cong) auto

lemma InsertFront_represents:
  assumes "represents (h, l) xs"
  shows "represents (InsertFront v (h, l)) (v # xs)"
proof -
  obtain as where as: "chain_at (h_nodes h) (ll_Head l) as" "distinct as" "\<forall>a \<in> set as. a < h_free h"
    "xs = values_of h as" using assms by (auto simp: represents_def nodes_ok_def)
  then have new: "h_free h \<notin> set as" by auto
  have "nodes_ok (fst (InsertFront v (h, l))) (snd (InsertFront v (h, l))) (h_free h # as)"
    using as new by (auto simp: InsertFront_def alloc_def nodes_ok_def chain_at_upd)
  moreover have "v # xs = values_of (fst (InsertFront v (h, l))) (h_free h # as)"
    using as(4) new by (simp add: InsertFront_def alloc_def values_of_def)
  ultimately show ?thesis unfolding represents_def by blast
qed

text \<open>The walks return, at the node they look for.\<close>

lemma last_node_chain:
  "chain_at (h_nodes h) (Some a) (as @ [z]) \<Longrightarrow> last_node h a = Some z"
proof (induction as arbitrary: a)
  case Nil
  then show ?case by (subst last_node.simps) simp
next
  case (Cons b as)
  then obtain c where "n_Next (h_nodes h a) = Some c" by (cases as) auto
  with Cons show ?case by (subst last_node.simps) auto
qed

lemma chain_at_relink:
  "chain_at m p (as @ [z]) \<Longrightarrow> distinct (as @ [z]) \<Longrightarrow> set bs \<inter> set (as @ [z]) = {} \<Longrightarrow> chain_at m q bs \<Longrightarrow>
   chain_at (m(z := (m z)\<lparr>n_Next := q\<rparr>)) p (as @ z # bs)"
  by (induction as arbitrary: p) (auto simp: chain_at_upd)

lemma values_relink: "map (\<lambda>b. n_Value ((m(z := (m z)\<lparr>n_Next := q\<rparr>)) b)) as = map (\<lambda>b. n_Value (m b)) as"
  by (intro map_cong) auto

lemma InsertBack_represents:
  assumes "represents (h, l) xs"
  shows "\<exists>s'. InsertBack v (h, l) = Some s' \<and> represents s' (xs @ [v])"
proof -
  obtain as where as: "chain_at (h_nodes h) (ll_Head l) as" "distinct as" "\<forall>a \<in> set as. a < h_free h"
    "xs = values_of h as" using assms by (auto simp: represents_def nodes_ok_def)
  then have new: "h_free h \<notin> set as" by auto
  let ?n = "\<lparr>n_Value = v, n_Next = None\<rparr>"
  let ?h = "h\<lparr>h_nodes := (h_nodes h)(h_free h := ?n), h_free := Suc (h_free h)\<rparr>"
  have al: "alloc ?n h = (h_free h, ?h)" by (simp add: alloc_def)
  show ?thesis
  proof (cases as rule: rev_cases)
    case Nil
    then have "InsertBack v (h, l) = Some (?h, l\<lparr>ll_Head := Some (h_free h)\<rparr>)"
      using as by (simp add: InsertBack_def al Let_def)
    moreover have "nodes_ok ?h (l\<lparr>ll_Head := Some (h_free h)\<rparr>) [h_free h]" by (simp add: nodes_ok_def)
    ultimately show ?thesis using Nil as(4) by (auto simp: represents_def values_of_def)
  next
    case (snoc bs z)
    obtain a where a: "ll_Head l = Some a" using as(1) snoc by (cases bs) auto
    have ch: "chain_at (h_nodes ?h) (Some a) (bs @ [z])" using as(1) new snoc a by (simp add: chain_at_upd)
    let ?h' = "set_Next z (Some (h_free h)) ?h"
    have "InsertBack v (h, l) = Some (?h', l)"
      using last_node_chain [OF ch] a by (simp add: InsertBack_def al Let_def)
    moreover have "chain_at (h_nodes ?h') (Some a) (bs @ z # [h_free h])"
      using chain_at_relink [OF ch, of "[h_free h]" "Some (h_free h)"] as(2) snoc new by (simp add: set_Next_def)
    then have "nodes_ok ?h' l (as @ [h_free h])"
      using as(2,3) new a snoc by (auto simp: nodes_ok_def set_Next_def)
    moreover have "values_of ?h' (as @ [h_free h]) = xs @ [v]"
      using new as(4) snoc by (auto simp: values_of_def set_Next_def)
    ultimately show ?thesis unfolding represents_def by force
  qed
qed

lemma node_before_missing:
  "chain_at (h_nodes h) (Some a) (a # as) \<Longrightarrow> v \<notin> set (values_of h as) \<Longrightarrow>
   \<exists>c. node_before v h a = Some c \<and> n_Next (h_nodes h c) = None"
proof (induction as arbitrary: a)
  case Nil
  then show ?case by (subst node_before.simps) simp
next
  case (Cons b as)
  then have "node_before v h a = node_before v h b" by (subst node_before.simps) (simp add: values_of_def)
  with Cons show ?case by (simp add: values_of_def)
qed

lemma node_before_found:
  "chain_at (h_nodes h) (Some a) (a # as @ d # cs) \<Longrightarrow> v \<notin> set (values_of h as) \<Longrightarrow> n_Value (h_nodes h d) = v \<Longrightarrow>
   node_before v h a = Some (last (a # as))"
proof (induction as arbitrary: a)
  case Nil
  then show ?case by (subst node_before.simps) simp
next
  case (Cons b as)
  then have "node_before v h a = node_before v h b" by (subst node_before.simps) (simp add: values_of_def)
  with Cons show ?case by (simp add: values_of_def)
qed

lemma remove1_split: "v \<notin> set xs \<Longrightarrow> remove1 v (xs @ v # ys) = xs @ ys"
  by (simp add: remove1_append)

lemma chain_at_append_next:
  "chain_at m p (as @ z # bs) \<Longrightarrow> chain_at m (n_Next (m z)) bs"
  by (induction as arbitrary: p) auto

lemma chain_at_cut:
  "chain_at m p (as @ z # d # bs) \<Longrightarrow> distinct (as @ z # d # bs) \<Longrightarrow>
   chain_at (m(z := (m z)\<lparr>n_Next := n_Next (m d)\<rparr>)) p (as @ z # bs)"
  by (induction as arbitrary: p) (auto simp: chain_at_upd)

lemma Delete_represents:
  assumes "represents (h, l) xs"
  shows "\<exists>s'. Delete v (h, l) = Some s' \<and> represents s' (remove1 v xs)"
proof -
  obtain as where as: "chain_at (h_nodes h) (ll_Head l) as" "distinct as" "\<forall>a \<in> set as. a < h_free h"
    "xs = values_of h as" using assms by (auto simp: represents_def nodes_ok_def)
  show ?thesis
  proof (cases as)
    case Nil
    then show ?thesis using as assms by (simp add: Delete_def values_of_def)
  next
    case (Cons a bs)
    then have hd: "ll_Head l = Some a" and ch: "chain_at (h_nodes h) (Some a) (a # bs)" using as(1) by auto
    consider (first) "n_Value (h_nodes h a) = v"
      | (missing) "n_Value (h_nodes h a) \<noteq> v" "v \<notin> set (values_of h bs)"
      | (later) us d ws where "n_Value (h_nodes h a) \<noteq> v" "bs = us @ d # ws" "v \<notin> set (values_of h us)"
          "n_Value (h_nodes h d) = v"
    proof (cases "v \<in> set (values_of h bs)")
      case True
      then have "\<exists>d \<in> set bs. n_Value (h_nodes h d) = v" by (auto simp: values_of_def)
      then obtain us d ws where "bs = us @ d # ws" "n_Value (h_nodes h d) = v"
        "\<forall>u \<in> set us. n_Value (h_nodes h u) \<noteq> v"
        by (elim split_list_first_propE) blast
      then show ?thesis using that(1) that(3) [of us d ws] by (force simp: values_of_def)
    qed (use that in blast)
    then show ?thesis
    proof cases
      case first
      then have "Delete v (h, l) = Some (h, l\<lparr>ll_Head := n_Next (h_nodes h a)\<rparr>)" by (simp add: Delete_def hd)
      moreover have "nodes_ok h (l\<lparr>ll_Head := n_Next (h_nodes h a)\<rparr>) bs" using as ch Cons by (simp add: nodes_ok_def)
      ultimately show ?thesis using first as(4) Cons by (auto simp: represents_def values_of_def)
    next
      case missing
      with node_before_missing [OF ch] obtain c where "node_before v h a = Some c" "n_Next (h_nodes h c) = None" by blast
      with missing have same: "Delete v (h, l) = Some (h, l)" by (simp add: Delete_def hd)
      have kept: "remove1 v xs = xs" using missing as(4) Cons by (intro remove1_idem) (auto simp: values_of_def)
      show ?thesis unfolding same kept using assms by blast
    next
      case later
      let ?z = "last (a # us)"
      define ps where "ps = butlast (a # us)"
      have ps: "a # us = ps @ [?z]" unfolding ps_def by (rule append_butlast_last_id [symmetric]) simp
      then have join: "(a # us) @ ys = ps @ ?z # ys" for ys by (metis append.assoc append_Cons append_Nil)
      have all: "as = ps @ ?z # d # ws" using Cons later(2) join [of "d # ws"] by simp
      have nb: "node_before v h a = Some ?z" using node_before_found [of h a us d ws v] ch later by simp
      have "chain_at (h_nodes h) (ll_Head l) (ps @ ?z # d # ws)" using as(1) all by simp
      then have nx: "n_Next (h_nodes h ?z) = Some d" using chain_at_append_next by (metis chain_at.simps(2))
      let ?h = "set_Next ?z (n_Next (h_nodes h d)) h"
      have "Delete v (h, l) = Some (?h, l)" using later(1) nb nx by (simp add: Delete_def hd)
      moreover have "chain_at (h_nodes ?h) (ll_Head l) (ps @ ?z # ws)"
        using chain_at_cut as(1,2) all by (simp add: set_Next_def)
      then have "nodes_ok ?h l (ps @ ?z # ws)" using as(2,3) all by (auto simp: nodes_ok_def set_Next_def)
      moreover have "values_of ?h (ps @ ?z # ws) = remove1 v xs"
      proof -
        have "xs = values_of h (a # us) @ v # values_of h ws" using as(4) Cons later by (simp add: values_of_def)
        then have "remove1 v xs = values_of h (a # us) @ values_of h ws"
          using later(1,3) by (simp add: remove1_split values_of_def)
        also have "\<dots> = values_of h ((a # us) @ ws)" by (simp add: values_of_def)
        also have "\<dots> = values_of ?h ((a # us) @ ws)" by (simp add: values_of_def set_Next_def)
        finally show ?thesis unfolding join by (rule sym)
      qed
      ultimately show ?thesis unfolding represents_def by force
    qed
  qed
qed

text \<open>What is printed for a list of values.\<close>

fun shown :: "(int \<Rightarrow> string) \<Rightarrow> int list \<Rightarrow> string" where
  "shown dec [] = ''nil'' @ [CHR 0x0A]"
| "shown dec (x # xs) = dec x @ '' -> '' @ shown dec xs"

lemma print_from_chain: "chain_at (h_nodes h) p as \<Longrightarrow> print_from dec h p = Some (shown dec (values_of h as))"
proof (induction as arbitrary: p)
  case Nil
  then show ?case by (subst print_from.simps) (simp add: values_of_def)
next
  case (Cons a as)
  then show ?case by (subst print_from.simps) (simp add: values_of_def)
qed

lemma Print_represents: "represents s xs \<Longrightarrow> Print dec s = Some (shown dec xs)"
  by (cases s) (auto simp: represents_def nodes_ok_def Print_def print_from_chain)

section \<open>Programs over one list\<close>

datatype list_op = OpFront int | OpBack int | OpDelete int

fun run_op :: "list_op \<Rightarrow> heap \<times> linked_list \<Rightarrow> (heap \<times> linked_list) option" where
  "run_op (OpFront v) s = Some (InsertFront v s)"
| "run_op (OpBack v) s = InsertBack v s"
| "run_op (OpDelete v) s = Delete v s"

definition list_ops :: "list_op list \<Rightarrow> heap \<times> linked_list \<Rightarrow> (heap \<times> linked_list) option" where
  "list_ops = run_steps run_op"

text \<open>The same on plain lists: the specification.\<close>

fun spec_op :: "list_op \<Rightarrow> int list \<Rightarrow> int list" where
  "spec_op (OpFront v) xs = v # xs"
| "spec_op (OpBack v) xs = xs @ [v]"
| "spec_op (OpDelete v) xs = remove1 v xs"

lemma run_op_represents:
  assumes "represents s xs"
  shows "\<exists>s'. run_op x s = Some s' \<and> represents s' (spec_op x xs)"
  using assms InsertFront_represents InsertBack_represents Delete_represents by (cases x; cases s) fastforce+

interpretation list_refinement: refined_steps run_op spec_op represents
  by unfold_locales (rule run_op_represents)

lemma list_ops_represents:
  "represents s xs \<Longrightarrow> \<exists>s'. list_ops os s = Some s' \<and> represents s' (fold spec_op os xs)"
  unfolding list_ops_def by (rule list_refinement.steps_refine)

definition empty_linked_list :: linked_list where
  "empty_linked_list = \<lparr>ll_Head = None\<rparr>"

lemma represents_empty: "represents (h, empty_linked_list) []"
  by (simp add: represents_def nodes_ok_def empty_linked_list_def values_of_def)

text \<open>What \<open>RunLinkedList\<close> prints.\<close>

definition RunLinkedList :: "heap \<Rightarrow> string option" where
  "RunLinkedList h =
     (let s = (h, empty_linked_list);
          s = InsertFront 1 (InsertFront 2 (InsertFront 3 s)) in
      Option.bind (InsertBack 4 s) (\<lambda>s.
      Option.bind (Print int_dec s) (\<lambda>out1.
      Option.bind (Delete 2 s) (\<lambda>s.
      Option.bind (Print int_dec s) (\<lambda>out2.
        Some ([CHR 0x0A] @ ''=== Linked List ==='' @ [CHR 0x0A] @ ''List after insertions: '' @ out1 @
          ''List after deleting 2: '' @ out2))))))"

lemma RunLinkedList_output:
  "RunLinkedList h = Some ([CHR 0x0A] @ ''=== Linked List ==='' @ [CHR 0x0A] @
     ''List after insertions: 1 -> 2 -> 3 -> 4 -> nil'' @ [CHR 0x0A] @
     ''List after deleting 2: 1 -> 3 -> 4 -> nil'' @ [CHR 0x0A])"
proof -
  let ?s = "InsertFront 1 (InsertFront 2 (InsertFront 3 (h, empty_linked_list)))"
  have "represents ?s [1, 2, 3]"
    using InsertFront_represents represents_empty by (metis surj_pair)
  then obtain s1 where s1: "InsertBack 4 ?s = Some s1" "represents s1 [1, 2, 3, 4]"
    using InsertBack_represents [of "fst ?s" "snd ?s" "[1, 2, 3]" 4] by auto
  then obtain s2 where s2: "Delete 2 s1 = Some s2" "represents s2 [1, 3, 4]"
    using Delete_represents [of "fst s1" "snd s1" "[1, 2, 3, 4]" 2] by auto
  have dec: "int_dec 1 = ''1''" "int_dec 2 = ''2''" "int_dec 3 = ''3''" "int_dec 4 = ''4''"
    by code_simp+
  show ?thesis
    using s1(1) s2(1) Print_represents [OF s1(2)] Print_represents [OF s2(2)]
    by (simp add: RunLinkedList_def Let_def dec)
qed

end
