(* ===== verification/PkgNumbers.thy ===== *)
theory PkgNumbers
  imports GoPrelude
begin

text \<open>
  The routines of \<open>pkg/\<close> that take a number apart: the addition of numbers stored as lists of
  digits (\<open>add_two_numbers.go\<close>), the reversal of the digits of an integer (\<open>reverse_int.go\<close>) and
  the longest gap between two ones of a binary representation (\<open>binary_gap.go\<close>).  Digits are
  listed from the least significant one, and \<open>value_of\<close> is the number they stand for.
\<close>

section \<open>Digits\<close>

fun value_of :: "int list \<Rightarrow> int" where
  "value_of [] = 0"
| "value_of (d # ds) = d + 10 * value_of ds"

lemma value_of_append: "value_of (as @ bs) = value_of as + 10 ^ length as * value_of bs"
  by (induction as) (simp_all add: algebra_simps)

function digits :: "int \<Rightarrow> int list" where
  "digits n = (if n \<le> 0 then [] else n mod 10 # digits (n div 10))"
  by pat_completeness auto
termination by (relation "measure nat") auto

declare digits.simps [simp del]

lemma digits_zero [simp]: "n \<le> 0 \<Longrightarrow> digits n = []"
  by (simp add: digits.simps)

lemma value_of_digits: "0 \<le> n \<Longrightarrow> value_of (digits n) = n"
proof (induction n rule: digits.induct)
  case (1 n)
  then show ?case by (cases "n = 0") (simp_all add: digits.simps [of n])
qed

lemma digits_range: "d \<in> set (digits n) \<Longrightarrow> 0 \<le> d \<and> d < 10"
proof (induction n rule: digits.induct)
  case (1 n)
  then show ?case by (cases "n \<le> 0") (auto simp: digits.simps [of n])
qed

section \<open>Adding two numbers\<close>

text \<open>A list of digits as the code links it; the pointer \<open>nil\<close> is \<open>None\<close>.\<close>

datatype list_node = ListNode (ln_Value: int) (ln_Next: "list_node option")

fun node_list :: "list_node option \<Rightarrow> int list" where
  "node_list None = []"
| "node_list (Some (ListNode v n)) = v # node_list n"

text \<open>One \<open>if l != nil\<close> block of the loop: the sum and the rest of the list after it.\<close>

fun take_digit :: "list_node option \<Rightarrow> int \<Rightarrow> int \<times> list_node option" where
  "take_digit None sm = (sm, None)"
| "take_digit (Some l) sm = (i64 (sm + ln_Value l), ln_Next l)"

lemma take_digit_rest: "node_list (snd (take_digit l sm)) = tl (node_list l)"
  by (cases l rule: node_list.cases) simp_all

lemma node_list_Nil [simp]: "node_list l = [] \<longleftrightarrow> l = None"
  by (cases l rule: node_list.cases) simp_all

lemma sdiv_smaller: "c \<noteq> 0 \<Longrightarrow> \<bar>c sdiv 10\<bar> < \<bar>c :: int\<bar>"
  by (cases "0 \<le> c") (auto simp: signed_divide_int_def sgn_if abs_mult intro!: int_div_less_self)

text \<open>
  The loop of \<open>AddNumbers\<close>.  The code appends each new node behind the last one; here a node is
  built with the list that the remaining rounds append.
\<close>

function add_loop :: "list_node option \<Rightarrow> list_node option \<Rightarrow> int \<Rightarrow> list_node option" where
  "add_loop l1 l2 carry =
     (if l1 \<noteq> None \<or> l2 \<noteq> None \<or> carry \<noteq> 0 then
        let sm = carry;
            (sm, l1) = take_digit l1 sm;
            (sm, l2) = take_digit l2 sm;
            carry = sm sdiv 10
        in Some (ListNode (sm smod 10) (add_loop l1 l2 carry))
      else None)"
  by pat_completeness auto
termination
proof (relation "measures [\<lambda>(l1, l2, c). length (node_list l1) + length (node_list l2), \<lambda>(l1, l2, c). nat \<bar>c\<bar>]", goal_cases)
  case 1
  show ?case by simp
next
  case (2 l1 l2 carry sum p1 sum1 l1' p2 sum2 l2' carry')
  have len: "length (node_list l1') = length (node_list l1) - 1" "length (node_list l2') = length (node_list l2) - 1"
    using 2(3-) take_digit_rest [of l1 carry] take_digit_rest [of l2 sum1] 2(2)
    by (metis length_tl snd_conv)+
  show ?case
  proof (cases "l1 = None \<and> l2 = None")
    case True
    with 2 show ?thesis by (auto simp: sdiv_smaller)
  next
    case False
    then have "0 < length (node_list l1) \<or> 0 < length (node_list l2)" by simp
    with len have "length (node_list l1') + length (node_list l2') < length (node_list l1) + length (node_list l2)"
      by linarith
    then show ?thesis by simp
  qed
qed

declare add_loop.simps [simp del]

lemma add_loop_nil [simp]: "add_loop None None 0 = None"
  by (simp add: add_loop.simps)

definition AddNumbers :: "list_node option \<Rightarrow> list_node option \<Rightarrow> list_node option" where
  "AddNumbers l1 l2 = add_loop l1 l2 0"

fun PrintList_loop :: "list_node option \<Rightarrow> string" where
  "PrintList_loop None = []"
| "PrintList_loop (Some (ListNode v n)) = int_dec v @ (if n \<noteq> None then '' -> '' else []) @ PrintList_loop n"

definition PrintList :: "list_node option \<Rightarrow> string" where
  "PrintList head = PrintList_loop head @ [CHR 0x0A]"

text \<open>Carry and digits of the sum of two digits.\<close>

definition digit_list :: "int list \<Rightarrow> bool" where
  "digit_list ds \<longleftrightarrow> (\<forall>d \<in> set ds. 0 \<le> d \<and> d < 10)"

definition first_digit :: "int list \<Rightarrow> int" where
  "first_digit ds = (case ds of [] \<Rightarrow> 0 | d # _ \<Rightarrow> d)"

lemma value_of_step: "value_of ds = first_digit ds + 10 * value_of (tl ds)"
  by (cases ds) (simp_all add: first_digit_def)

lemma digit_list_step: "digit_list ds \<Longrightarrow> 0 \<le> first_digit ds \<and> first_digit ds < 10 \<and> digit_list (tl ds)"
  by (cases ds) (simp_all add: first_digit_def digit_list_def)

lemma take_digit_sum:
  "digit_list (node_list l) \<Longrightarrow> 0 \<le> c \<Longrightarrow> c < 1000 \<Longrightarrow>
   fst (take_digit l c) = c + first_digit (node_list l)"
  by (cases l rule: node_list.cases) (auto simp: first_digit_def digit_list_def in_i64_def)

lemma longest_tl:
  assumes "0 < max (length xs) (length ys)" "max (length (tl xs)) (length (tl ys)) \<le> r"
    "r \<le> max (length (tl xs)) (length (tl ys)) + 1"
  shows "max (length xs) (length ys) \<le> Suc r \<and> Suc r \<le> max (length xs) (length ys) + 1"
  using assms by (cases xs; cases ys) auto

lemma add_loop_correct:
  assumes "digit_list (node_list l1)" "digit_list (node_list l2)" "0 \<le> c" "c \<le> 1"
  shows "value_of (node_list (add_loop l1 l2 c)) = value_of (node_list l1) + value_of (node_list l2) + c \<and>
    digit_list (node_list (add_loop l1 l2 c)) \<and>
    (let n = max (length (node_list l1)) (length (node_list l2)); r = length (node_list (add_loop l1 l2 c))
     in n \<le> r \<and> r \<le> n + 1)"
  using assms
proof (induction l1 l2 c rule: add_loop.induct)
  case (1 l1 l2 c)
  show ?case
  proof (cases "l1 \<noteq> None \<or> l2 \<noteq> None \<or> c \<noteq> 0")
    case False
    then show ?thesis by (simp add: add_loop.simps digit_list_def)
  next
    case True
    let ?d1 = "first_digit (node_list l1)" and ?d2 = "first_digit (node_list l2)"
    obtain s1 k1 where t1: "take_digit l1 c = (s1, k1)" by force
    obtain s2 k2 where t2: "take_digit l2 s1 = (s2, k2)" by force
    note d1 = digit_list_step [OF 1(2)] and d2 = digit_list_step [OF 1(3)]
    have s1: "s1 = c + ?d1" using take_digit_sum [OF 1(2), of c] t1 1(4,5) by simp
    have s2: "s2 = c + ?d1 + ?d2" using take_digit_sum [OF 1(3), of s1] t2 s1 1(4,5) d1 by simp
    have k: "node_list k1 = tl (node_list l1)" "node_list k2 = tl (node_list l2)"
      using take_digit_rest [of l1 c] take_digit_rest [of l2 s1] t1 t2 by simp_all
    have rng: "0 \<le> s2" "s2 < 20" using s2 1(4,5) d1 d2 by linarith+
    have dm: "s2 sdiv 10 = s2 div 10" "s2 smod 10 = s2 mod 10" "0 \<le> s2 div 10" "s2 div 10 \<le> 1"
      using rng by (auto simp: sdiv_pos smod_pos)
    have res: "add_loop l1 l2 c = Some (ListNode (s2 mod 10) (add_loop k1 k2 (s2 div 10)))"
      using True t1 t2 dm by (simp add: add_loop.simps [of l1])
    note IH = 1(1) [OF True refl t1 [symmetric] refl t2 [symmetric] refl refl, unfolded dm k]
    have ih: "value_of (node_list (add_loop k1 k2 (s2 div 10))) =
        value_of (tl (node_list l1)) + value_of (tl (node_list l2)) + s2 div 10 \<and>
      digit_list (node_list (add_loop k1 k2 (s2 div 10))) \<and>
      (let n = max (length (tl (node_list l1))) (length (tl (node_list l2)));
           r = length (node_list (add_loop k1 k2 (s2 div 10))) in n \<le> r \<and> r \<le> n + 1)"
      using IH d1 d2 dm by simp
    have "value_of (node_list (add_loop l1 l2 c)) = s2 mod 10 + 10 * (s2 div 10) + 10 * value_of (tl (node_list l1)) +
        10 * value_of (tl (node_list l2))"
      using ih by (simp add: res)
    also have "\<dots> = value_of (node_list l1) + value_of (node_list l2) + c"
      using s2 value_of_step [of "node_list l1"] value_of_step [of "node_list l2"] by simp
    finally have val: "value_of (node_list (add_loop l1 l2 c)) = value_of (node_list l1) + value_of (node_list l2) + c" .
    have dig: "digit_list (node_list (add_loop l1 l2 c))" using ih by (simp add: res digit_list_def)
    show ?thesis
    proof (cases "l1 = None \<and> l2 = None")
      case alone: True
      then have "s2 div 10 = 0" "k1 = None" "k2 = None" using s2 1(4,5) k by (simp_all add: first_digit_def)
      then have "node_list (add_loop l1 l2 c) = [s2 mod 10]" by (simp add: res add_loop_nil)
      with alone val dig show ?thesis by simp
    next
      case False
      then have "0 < max (length (node_list l1)) (length (node_list l2))"
        by (simp add: less_max_iff_disj)
      moreover have "length (node_list (add_loop l1 l2 c)) = Suc (length (node_list (add_loop k1 k2 (s2 div 10))))"
        by (simp add: res)
      ultimately have "max (length (node_list l1)) (length (node_list l2)) \<le> length (node_list (add_loop l1 l2 c))"
        and "length (node_list (add_loop l1 l2 c)) \<le> max (length (node_list l1)) (length (node_list l2)) + 1"
        using ih longest_tl [of "node_list l1" "node_list l2" "length (node_list (add_loop k1 k2 (s2 div 10)))"]
        by (simp_all add: Let_def)
      with val dig show ?thesis by (simp add: Let_def)
    qed
  qed
qed

section \<open>Reversing an integer\<close>

definition INT_MAX :: int where
  "INT_MAX = 2147483647"

definition INT_MIN :: int where
  "INT_MIN = - 2147483648"

function reverse_loop :: "int \<Rightarrow> int \<Rightarrow> int" where
  "reverse_loop x rv =
     (if x \<noteq> 0 then
        let pop = x smod 10; x = x sdiv 10 in
        if rv > INT_MAX sdiv 10 \<or> (rv = INT_MAX sdiv 10 \<and> pop > 7) then 0
        else if rv < INT_MIN sdiv 10 \<or> (rv = INT_MIN sdiv 10 \<and> pop < - 8) then 0
        else reverse_loop x (rv * 10 + pop)
      else rv)"
  by pat_completeness auto
termination by (relation "measure (\<lambda>(x, rv). nat \<bar>x\<bar>)") (simp_all add: sdiv_smaller)

declare reverse_loop.simps [simp del]

definition Reverse :: "int \<Rightarrow> int" where
  "Reverse x = reverse_loop x 0"

lemma int_limits: "INT_MAX sdiv 10 = 214748364" "INT_MIN sdiv 10 = - 214748364"
  by (simp_all add: INT_MAX_def INT_MIN_def signed_divide_int_def sgn_if)

text \<open>Reading digits from the most significant one; it never shrinks what was read before.\<close>

definition horner :: "int list \<Rightarrow> int \<Rightarrow> int" where
  "horner ds r = fold (\<lambda>d a. 10 * a + d) ds r"

lemma horner_simps [simp]: "horner [] r = r" "horner (d # ds) r = horner ds (10 * r + d)"
  by (simp_all add: horner_def)

lemma horner_value: "horner ds r = value_of (rev ds) + 10 ^ length ds * r"
  by (induction ds arbitrary: r) (simp_all add: value_of_append algebra_simps)

lemma horner_grows: "digit_list ds \<Longrightarrow> 0 \<le> r \<Longrightarrow> r \<le> horner ds r"
proof (induction ds arbitrary: r)
  case (Cons d ds)
  then have "r \<le> 10 * r + d" and "10 * r + d \<le> horner ds (10 * r + d)"
    by (auto simp: digit_list_def)
  then show ?case by simp
qed simp

lemma digit_list_digits [simp]: "digit_list (digits n)"
  unfolding digit_list_def using digits_range by blast

lemma reverse_loop_pos:
  "0 \<le> n \<Longrightarrow> 0 \<le> r \<Longrightarrow> r \<le> INT_MAX \<Longrightarrow>
   reverse_loop n r = (if horner (digits n) r \<le> INT_MAX then horner (digits n) r else 0)"
proof (induction n arbitrary: r rule: digits.induct)
  case (1 n)
  show ?case
  proof (cases "n = 0")
    case True
    with 1 show ?thesis by (simp add: reverse_loop.simps)
  next
    case False
    with 1(2) have n: "0 < n" by simp
    let ?v = "10 * r + n mod 10"
    have d: "0 \<le> n mod 10" "n mod 10 < 10" by simp_all
    have dig: "digits n = n mod 10 # digits (n div 10)" using n by (simp add: digits.simps)
    have fits: "(r > 214748364 \<or> (r = 214748364 \<and> n mod 10 > 7)) \<longleftrightarrow> \<not> ?v \<le> INT_MAX"
      using d unfolding INT_MAX_def by linarith
    have eq: "reverse_loop n r = (if ?v \<le> INT_MAX then reverse_loop (n div 10) ?v else 0)"
      using n fits 1(3) by (subst reverse_loop.simps) (simp add: sdiv_pos smod_pos int_limits Let_def mult.commute)
    show ?thesis
    proof (cases "?v \<le> INT_MAX")
      case True
      with 1(1) [of ?v] n 1(3) d show ?thesis by (simp add: eq dig pos_imp_zdiv_nonneg_iff)
    next
      case False
      then have "\<not> horner (digits n) r \<le> INT_MAX"
        using horner_grows [of "digits (n div 10)" ?v] 1(3) d by (simp add: dig)
      with False eq show ?thesis by simp
    qed
  qed
qed

lemma reverse_loop_neg:
  "0 \<le> n \<Longrightarrow> 0 \<le> r \<Longrightarrow> - r \<ge> INT_MIN \<Longrightarrow>
   reverse_loop (- n) (- r) = (if - horner (digits n) r \<ge> INT_MIN then - horner (digits n) r else 0)"
proof (induction n arbitrary: r rule: digits.induct)
  case (1 n)
  show ?case
  proof (cases "n = 0")
    case True
    with 1 show ?thesis by (simp add: reverse_loop.simps)
  next
    case False
    with 1(2) have n: "0 < n" by simp
    let ?v = "10 * r + n mod 10"
    have d: "0 \<le> n mod 10" "n mod 10 < 10" by simp_all
    have dig: "digits n = n mod 10 # digits (n div 10)" using n by (simp add: digits.simps)
    have fits: "(- r < - 214748364 \<or> (- r = - 214748364 \<and> - (n mod 10) < - 8)) \<longleftrightarrow> \<not> - ?v \<ge> INT_MIN"
      using d unfolding INT_MIN_def by linarith
    have eq: "reverse_loop (- n) (- r) = (if - ?v \<ge> INT_MIN then reverse_loop (- (n div 10)) (- ?v) else 0)"
      using n fits 1(3) by (subst reverse_loop.simps)
        (simp add: sdiv_smod_neg sdiv_pos smod_pos int_limits Let_def mult.commute)
    show ?thesis
    proof (cases "- ?v \<ge> INT_MIN")
      case True
      with 1(1) [of ?v] n 1(3) d show ?thesis by (simp add: eq dig pos_imp_zdiv_nonneg_iff)
    next
      case False
      then have "\<not> - horner (digits n) r \<ge> INT_MIN"
        using horner_grows [of "digits (n div 10)" ?v] 1(3) d by (simp add: dig)
      with False eq show ?thesis by simp
    qed
  qed
qed

text \<open>The integer with the digits of \<open>x\<close> in the opposite order, and its sign.\<close>

definition reversed :: "int \<Rightarrow> int" where
  "reversed x = sgn x * value_of (rev (digits \<bar>x\<bar>))"

definition in_int32 :: "int \<Rightarrow> bool" where
  "in_int32 x \<longleftrightarrow> - (2 ^ 31) \<le> x \<and> x < 2 ^ 31"

lemma value_of_nonneg: "digit_list ds \<Longrightarrow> 0 \<le> value_of ds"
  by (induction ds) (auto simp: digit_list_def)

lemma Reverse_reversed: "Reverse x = (if in_int32 (reversed x) then reversed x else 0)"
proof -
  have pos: "0 \<le> value_of (rev (digits n))" for n
    by (rule value_of_nonneg) (use digit_list_digits in \<open>simp add: digit_list_def\<close>)
  show ?thesis
  proof (cases "0 \<le> x")
    case True
    then have "reversed x = horner (digits x) 0" by (auto simp: reversed_def horner_value sgn_if)
    with True reverse_loop_pos [of x 0] pos [of x] show ?thesis
      by (auto simp: Reverse_def in_int32_def INT_MAX_def horner_value)
  next
    case False
    then have "reversed x = - horner (digits (- x)) 0" by (simp add: reversed_def horner_value)
    with False reverse_loop_neg [of "- x" 0] pos [of "- x"] show ?thesis
      by (auto simp: Reverse_def in_int32_def INT_MIN_def horner_value)
  qed
qed

lemma digits_value_of:
  "digit_list ds \<Longrightarrow> ds = [] \<or> last ds \<noteq> 0 \<Longrightarrow> digits (value_of ds) = ds"
proof (induction ds)
  case (Cons d ds)
  have d: "0 \<le> d" "d < 10" and ds: "digit_list ds" using Cons.prems(1) by (auto simp: digit_list_def)
  have nn: "0 \<le> value_of ds" using ds by (rule value_of_nonneg)
  have ih: "digits (value_of ds) = ds" using Cons by (auto simp: digit_list_def split: if_splits)
  have "0 < d + 10 * value_of ds"
  proof (cases "ds = []")
    case True
    with Cons.prems d show ?thesis by simp
  next
    case False
    with ih have "0 < value_of ds" by (metis digits_zero not_le)
    with d show ?thesis by simp
  qed
  then show ?case using d ih by (simp add: digits.simps [of "d + 10 * value_of ds"])
qed simp

lemma reversed_reversed:
  assumes "x mod 10 \<noteq> 0"
  shows "reversed (reversed x) = x"
proof -
  let ?ds = "digits \<bar>x\<bar>"
  have "x \<noteq> 0" using assms by auto
  then have x: "0 < \<bar>x\<bar>" by simp
  have m: "\<bar>x\<bar> mod 10 \<noteq> 0" using assms by (cases "0 \<le> x") (simp_all add: zmod_zminus1_eq_if)
  have ds: "?ds = \<bar>x\<bar> mod 10 # digits (\<bar>x\<bar> div 10)" using x by (simp add: digits.simps)
  have again: "digits (value_of (rev ?ds)) = rev ?ds"
    by (rule digits_value_of) (use digit_list_digits ds m in \<open>simp_all add: digit_list_def\<close>)
  then have "0 < value_of (rev ?ds)" using ds by (metis digits_zero not_le list.distinct(1) rev_is_Nil_conv)
  then have "sgn (reversed x) = sgn x" "\<bar>reversed x\<bar> = value_of (rev ?ds)"
    using x by (simp_all add: reversed_def sgn_mult abs_mult)
  then show ?thesis unfolding reversed_def [of "reversed x"] by (simp add: again value_of_digits sgn_mult_abs)
qed

section \<open>Binary gap\<close>

text \<open>The counters stay below the number of bits, so their arithmetic cannot wrap.\<close>

function gap_loop :: "int \<Rightarrow> bool \<Rightarrow> int \<Rightarrow> int \<Rightarrow> int" where
  "gap_loop n foundOne currentGap maxGap =
     (if n > 0 then
        if n smod 2 = 1 then
          gap_loop (n sdiv 2) True 0 (if foundOne \<and> currentGap > maxGap then currentGap else maxGap)
        else gap_loop (n sdiv 2) foundOne (if foundOne then currentGap + 1 else currentGap) maxGap
      else maxGap)"
  by pat_completeness auto
termination by (relation "measure (\<lambda>(n, _). nat n)") (auto simp: sdiv_pos)

declare gap_loop.simps [simp del]

definition BinaryGap :: "int \<Rightarrow> int" where
  "BinaryGap n = gap_loop n False 0 0"

text \<open>The zeros between two neighbouring ones: \<open>k\<close> of them above the one at position \<open>p\<close>.\<close>

definition gap_at :: "int \<Rightarrow> nat \<Rightarrow> nat \<Rightarrow> bool" where
  "gap_at m p k \<longleftrightarrow> bit m p \<and> bit m (p + k + 1) \<and> (\<forall>i. p < i \<and> i < p + k + 1 \<longrightarrow> \<not> bit m i)"

definition gaps :: "int \<Rightarrow> nat set" where
  "gaps m = {k. \<exists>p. gap_at m p k}"

lemma bit_above_one: "bit (n * 2 ^ Suc c + 1 :: int) i \<longleftrightarrow> i = 0 \<or> (c < i \<and> bit n (i - Suc c))"
proof (cases i)
  case 0
  then show ?thesis by (simp add: bit_0)
next
  case (Suc j)
  have "n * 2 ^ Suc c + 1 = 2 * push_bit c n + 1" by (simp add: push_bit_eq_mult)
  then have "bit (n * 2 ^ Suc c + 1) (Suc j) \<longleftrightarrow> bit (push_bit c n) j" by (simp add: bit_Suc)
  then show ?thesis using Suc by (auto simp: bit_push_bit_iff_int)
qed

text \<open>Gaps move with the bits.\<close>

lemma gap_at_shift:
  assumes b: "\<And>i. bit m (i + s) \<longleftrightarrow> bit n i"
  shows "gap_at m (p + s) k \<longleftrightarrow> gap_at n p k"
proof -
  have "(\<forall>i. p + s < i \<and> i < p + s + k + 1 \<longrightarrow> \<not> bit m i) \<longleftrightarrow> (\<forall>i. p < i \<and> i < p + k + 1 \<longrightarrow> \<not> bit n i)"
    (is "?l \<longleftrightarrow> ?r")
  proof
    assume l: ?l
    show ?r
    proof (intro allI impI)
      fix i assume "p < i \<and> i < p + k + 1"
      then show "\<not> bit n i" using l [rule_format, of "i + s"] b by simp
    qed
  next
    assume r: ?r
    show ?l
    proof (intro allI impI)
      fix i assume "p + s < i \<and> i < p + s + k + 1"
      then have "i = (i - s) + s" "p < i - s" "i - s < p + k + 1" by linarith+
      then obtain j where "i = j + s" "p < j" "j < p + k + 1" by blast
      then show "\<not> bit m i" using r b by simp
    qed
  qed
  then show ?thesis using b [of p] b [of "p + k + 1"] by (simp add: gap_at_def ac_simps)
qed

lemma gaps_next_one:
  assumes "odd n"
  shows "gaps (n * 2 ^ Suc c + 1) = insert c (gaps n)"
proof -
  let ?m = "n * 2 ^ Suc c + 1"
  have low: "gap_at ?m 0 k \<longleftrightarrow> k = c" for k
  proof
    assume g: "gap_at ?m 0 k"
    then have "c \<le> k" unfolding gap_at_def bit_above_one by auto
    moreover have "\<not> c < k"
      using g assms unfolding gap_at_def bit_above_one by (auto simp: bit_0 dest: spec [of _ "Suc c"])
    ultimately show "k = c" by simp
  next
    assume "k = c"
    then show "gap_at ?m 0 k" using assms unfolding gap_at_def bit_above_one by (auto simp: bit_0)
  qed
  have shift: "gap_at ?m (p + Suc c) k \<longleftrightarrow> gap_at n p k" for p k
    by (rule gap_at_shift) (unfold bit_above_one, simp)
  have high: "\<exists>q. p = q + Suc c" if "gap_at ?m p k" "p \<noteq> 0" for p k
  proof -
    have "c < p" using that unfolding gap_at_def bit_above_one by simp
    then have "p = (p - Suc c) + Suc c" by simp
    then show ?thesis by blast
  qed
  show ?thesis
  proof (intro set_eqI iffI)
    fix k assume "k \<in> gaps ?m"
    then obtain p where p: "gap_at ?m p k" unfolding gaps_def by blast
    show "k \<in> insert c (gaps n)"
    proof (cases "p = 0")
      case True
      with p low show ?thesis by blast
    next
      case False
      with high [OF p] p shift have "\<exists>q. gap_at n q k" by blast
      then show ?thesis unfolding gaps_def by blast
    qed
  next
    fix k assume "k \<in> insert c (gaps n)"
    then have "k = c \<or> (\<exists>p. gap_at n p k)" unfolding gaps_def by blast
    then show "k \<in> gaps ?m" unfolding gaps_def using low shift by blast
  qed
qed

lemma gaps_one: "gaps 1 = {}"
  by (auto simp: gaps_def gap_at_def bit_1_iff)

lemma gaps_double: "gaps (2 * n) = gaps n"
proof -
  have shift: "gap_at (2 * n) (p + 1) k \<longleftrightarrow> gap_at n p k" for p k
    by (rule gap_at_shift) (simp add: bit_Suc)
  have "\<exists>q. p = q + 1" if "gap_at (2 * n) p k" for p k
    using that by (cases p) (auto simp: gap_at_def bit_0)
  with shift show ?thesis unfolding gaps_def by blast
qed

text \<open>The greatest element of a set of naturals and a lower bound.\<close>

definition greatest_of :: "int \<Rightarrow> nat set \<Rightarrow> int \<Rightarrow> bool" where
  "greatest_of lo S r \<longleftrightarrow> lo \<le> r \<and> (\<forall>k \<in> S. int k \<le> r) \<and> (r = lo \<or> (\<exists>k \<in> S. r = int k))"

lemma greatest_of_insert:
  "greatest_of (max lo (int c)) S r \<Longrightarrow> greatest_of lo (insert c S) r"
  by (auto simp: greatest_of_def max_def split: if_splits)

lemma gap_loop_found:
  "0 \<le> n \<Longrightarrow> greatest_of mx (gaps (n * 2 ^ Suc c + 1)) (gap_loop n True (int c) mx)"
proof (induction "nat n" arbitrary: n c mx rule: less_induct)
  case less
  show ?case
  proof (cases "n = 0")
    case True
    then show ?thesis by (simp add: gap_loop.simps gaps_one greatest_of_def)
  next
    case False
    with less.prems have n: "0 < n" and half: "nat (n div 2) < nat n" "0 \<le> n div 2" by auto
    show ?thesis
    proof (cases "odd n")
      case True
      then have "n = n div 2 * 2 ^ Suc 0 + 1" by (simp add: mult.commute odd_two_times_div_two_succ)
      then have "greatest_of (max mx (int c)) (gaps n) (gap_loop (n div 2) True 0 (max mx (int c)))"
        using less.hyps [OF half, of "max mx (int c)" 0] by simp
      then have "greatest_of mx (gaps (n * 2 ^ Suc c + 1)) (gap_loop (n div 2) True 0 (max mx (int c)))"
        unfolding gaps_next_one [OF True] by (rule greatest_of_insert)
      moreover have "gap_loop n True (int c) mx = gap_loop (n div 2) True 0 (max mx (int c))"
        using n True by (subst gap_loop.simps) (simp add: sdiv_pos smod_pos odd_iff_mod_2_eq_one max_def)
      ultimately show ?thesis by simp
    next
      case False
      then have "n = n div 2 * 2" by presburger
      then have same: "n * 2 ^ Suc c = n div 2 * 2 ^ Suc (Suc c)" by simp
      have "gap_loop n True (int c) mx = gap_loop (n div 2) True (int (Suc c)) mx"
        using n False by (subst gap_loop.simps) (simp add: sdiv_pos smod_pos odd_iff_mod_2_eq_one algebra_simps)
      then show ?thesis using less.hyps [OF half, of mx "Suc c"] unfolding same by simp
    qed
  qed
qed

lemma gap_loop_start: "0 \<le> n \<Longrightarrow> greatest_of mx (gaps n) (gap_loop n False 0 mx)"
proof (induction "nat n" arbitrary: n rule: less_induct)
  case less
  show ?case
  proof (cases "n = 0")
    case True
    then show ?thesis by (simp add: gap_loop.simps gaps_def gap_at_def greatest_of_def)
  next
    case False
    with less.prems have n: "0 < n" and half: "nat (n div 2) < nat n" "0 \<le> n div 2" by auto
    show ?thesis
    proof (cases "odd n")
      case True
      then have "n = n div 2 * 2 ^ Suc 0 + 1" by (simp add: mult.commute odd_two_times_div_two_succ)
      moreover have "gap_loop n False 0 mx = gap_loop (n div 2) True 0 mx"
        using n True by (subst gap_loop.simps) (simp add: sdiv_pos smod_pos odd_iff_mod_2_eq_one)
      ultimately show ?thesis using gap_loop_found [OF half(2), of mx 0] by simp
    next
      case False
      then have "n = 2 * (n div 2)" by presburger
      moreover have "gap_loop n False 0 mx = gap_loop (n div 2) False 0 mx"
        using n False by (subst gap_loop.simps) (simp add: sdiv_pos smod_pos odd_iff_mod_2_eq_one)
      ultimately show ?thesis using less.hyps [OF half] gaps_double [of "n div 2"] by metis
    qed
  qed
qed

lemma BinaryGap_greatest: "0 \<le> n \<Longrightarrow> greatest_of 0 (gaps n) (BinaryGap n)"
  unfolding BinaryGap_def by (rule gap_loop_start)

end
