(* ===== verification/PkgArrays.thy ===== *)
theory PkgArrays
  imports GoPrelude "HOL-Library.Sublist"
begin

text \<open>
  The routines of \<open>pkg/\<close> on slices of integers: \<open>ReverseArray\<close>, \<open>TwoSum\<close>, \<open>SubarraySum\<close>,
  \<open>MinOperations\<close>, \<open>MinDeletionsToSorted\<close> and \<open>MonthlyFee\<close>.  A Go map is a HOL map, indices are
  naturals where they cannot be negative, and sums are kept at 64 bits.
\<close>

section \<open>Reversing in place\<close>

text \<open>
  The two-pointer loop, of \<open>ReverseArray\<close> and of \<open>ReverseMiddle\<close>; an index out of range panics.
\<close>

function swap_loop :: "'a list \<Rightarrow> int \<Rightarrow> int \<Rightarrow> 'a list option" where
  "swap_loop nums left right =
     (if left < right then
        (if 0 \<le> left \<and> right < int (length nums) then
           swap_loop (nums[nat left := nums ! nat right, nat right := nums ! nat left]) (left + 1) (right - 1)
         else None)
      else Some nums)"
  by pat_completeness auto
termination by (relation "measure (\<lambda>(nums, left, right). nat (right - left))") auto

declare swap_loop.simps [simp del]

definition ReverseArray :: "int list \<Rightarrow> int list option" where
  "ReverseArray nums = swap_loop nums 0 (int (length nums) - 1)"

lemma swap_ends:
  "(as @ (y # zs @ [z]) @ bs)[length as := z, Suc (length as + length zs) := y] = (as @ [z]) @ zs @ y # bs"
  by (simp add: list_update_append)

lemma swap_loop_mid:
  "swap_loop (as @ ys @ bs) (int (length as)) (int (length as + length ys) - 1) = Some (as @ rev ys @ bs)"
proof (induction "length ys" arbitrary: as ys bs rule: less_induct)
  case less
  consider "length ys \<le> 1" | y zs z where "ys = y # zs @ [z]"
    by (cases ys rule: rev_cases; cases "butlast ys") (auto simp: not_le)
  then show ?case
  proof cases
    case 1
    then have "rev ys = ys" by (cases ys) auto
    with 1 show ?thesis by (simp add: swap_loop.simps)
  next
    case 2
    have at: "(as @ ys @ bs) ! length as = y" "(as @ ys @ bs) ! Suc (length as + length zs) = z"
      by (simp_all add: 2 nth_append)
    have "swap_loop (as @ ys @ bs) (int (length as)) (int (length as + length ys) - 1) =
      swap_loop ((as @ [z]) @ zs @ y # bs) (int (length (as @ [z]))) (int (length (as @ [z]) + length zs) - 1)"
      using at swap_ends [of as y zs z bs]
      by (subst swap_loop.simps) (simp add: 2 nat_add_distrib add.commute)
    also have "\<dots> = Some ((as @ [z]) @ rev zs @ y # bs)" by (rule less) (simp add: 2)
    finally show ?thesis by (simp add: 2)
  qed
qed

lemma ReverseArray_rev: "ReverseArray nums = Some (rev nums)"
  using swap_loop_mid [of "[]" nums "[]"] by (simp add: ReverseArray_def)

section \<open>Two numbers with a given sum\<close>

fun TwoSum_loop :: "int \<Rightarrow> nat \<Rightarrow> (int \<rightharpoonup> int) \<Rightarrow> int list \<Rightarrow> int list" where
  "TwoSum_loop target i seen [] = []"
| "TwoSum_loop target i seen (num # nums) =
     (let complement = i64 (target - num) in
      case seen complement of
        Some idx \<Rightarrow> [idx, int i]
      | None \<Rightarrow> TwoSum_loop target (Suc i) (seen(num \<mapsto> int i)) nums)"

definition TwoSum :: "int list \<Rightarrow> int \<Rightarrow> int list" where
  "TwoSum nums target = TwoSum_loop target 0 Map.empty nums"

definition pair_at :: "int list \<Rightarrow> int \<Rightarrow> nat \<Rightarrow> nat \<Rightarrow> bool" where
  "pair_at nums target i j \<longleftrightarrow> i < j \<and> j < length nums \<and> i64 (nums ! i + nums ! j) = target"

text \<open>The first index that closes a pair, with the nearest partner; empty when there is no pair.\<close>

definition first_pair :: "int list \<Rightarrow> int \<Rightarrow> int list \<Rightarrow> bool" where
  "first_pair nums target r \<longleftrightarrow>
     (r = [] \<and> (\<forall>i j. \<not> pair_at nums target i j)) \<or>
     (\<exists>i j. r = [int i, int j] \<and> pair_at nums target i j \<and>
        (\<forall>i' j'. j' < j \<longrightarrow> \<not> pair_at nums target i' j') \<and>
        (\<forall>i'. i < i' \<longrightarrow> \<not> pair_at nums target i' j))"

text \<open>What the map holds after the first \<open>n\<close> elements: the last index of each.\<close>

definition last_index :: "'a list \<Rightarrow> nat \<Rightarrow> ('a \<rightharpoonup> int) \<Rightarrow> bool" where
  "last_index nums n seen \<longleftrightarrow>
     (\<forall>v. case seen v of
        None \<Rightarrow> \<forall>i < n. nums ! i \<noteq> v
      | Some idx \<Rightarrow> \<exists>i < n. idx = int i \<and> nums ! i = v \<and> (\<forall>i'. i < i' \<longrightarrow> i' < n \<longrightarrow> nums ! i' \<noteq> v))"

lemma last_index_step: "last_index nums n seen \<Longrightarrow> last_index nums (Suc n) (seen(nums ! n \<mapsto> int n))"
  unfolding last_index_def by (fastforce simp: less_Suc_eq split: option.splits if_splits)

lemma complement_iff:
  assumes "in_i64 a" "in_i64 t"
  shows "i64 (t - b) = a \<longleftrightarrow> i64 (a + b) = t"
proof
  assume "i64 (t - b) = a"
  then have "i64 (a + b) = i64 (t - b + b)" by (metis i64_add_left)
  with assms show "i64 (a + b) = t" by simp
next
  assume "i64 (a + b) = t"
  then have "i64 (t - b) = i64 (a + b - b)" by (metis i64_diff_left)
  with assms show "i64 (t - b) = a" by simp
qed

lemma TwoSum_loop_first:
  assumes "last_index nums n seen" "\<forall>i j. j < n \<longrightarrow> \<not> pair_at nums t i j" "\<forall>x \<in> set nums. in_i64 x" "in_i64 t"
    "n \<le> length nums"
  shows "first_pair nums t (TwoSum_loop t n seen (drop n nums))"
  using assms
proof (induction "length nums - n" arbitrary: n seen)
  case 0
  then have "\<not> pair_at nums t i j" for i j by (auto simp: pair_at_def)
  with 0 show ?case by (simp add: first_pair_def)
next
  case (Suc m)
  then have n: "n < length nums" by simp
  then have dr: "drop n nums = nums ! n # drop (Suc n) nums" by (simp add: Cons_nth_drop_Suc)
  let ?c = "i64 (t - nums ! n)"
  have hit: "pair_at nums t i n \<longleftrightarrow> i < n \<and> nums ! i = ?c" for i
    using n Suc.prems(3,4) complement_iff [of "nums ! i" t "nums ! n"] by (auto simp: pair_at_def)
  show ?case
  proof (cases "seen ?c")
    case None
    then have "\<forall>i < n. nums ! i \<noteq> ?c"
      using spec [OF Suc.prems(1) [unfolded last_index_def], of ?c] by simp
    then have none: "\<not> pair_at nums t i n" for i unfolding hit by blast
    have "first_pair nums t (TwoSum_loop t (Suc n) (seen(nums ! n \<mapsto> int n)) (drop (Suc n) nums))"
      using Suc none by (intro Suc.hyps(1)) (auto simp: last_index_step less_Suc_eq)
    with None show ?thesis by (simp add: dr)
  next
    case (Some idx)
    then obtain i where "i < n" "idx = int i" "nums ! i = ?c" "\<forall>i'. i < i' \<longrightarrow> i' < n \<longrightarrow> nums ! i' \<noteq> ?c"
      using spec [OF Suc.prems(1) [unfolded last_index_def], of ?c] by auto
    then show ?thesis using Some Suc.prems(2) by (auto simp: dr first_pair_def hit intro!: exI [of _ i] exI [of _ n])
  qed
qed

lemma TwoSum_first:
  "\<forall>x \<in> set nums. in_i64 x \<Longrightarrow> in_i64 target \<Longrightarrow> first_pair nums target (TwoSum nums target)"
  using TwoSum_loop_first [of nums 0 Map.empty target] by (simp add: TwoSum_def last_index_def pair_at_def)

section \<open>Subarrays with a given sum\<close>

text \<open>Reading a missing key of a Go map yields zero.\<close>

definition map_get :: "(int \<rightharpoonup> int) \<Rightarrow> int \<Rightarrow> int" where
  "map_get m v = (case m v of None \<Rightarrow> 0 | Some n \<Rightarrow> n)"

fun SubarraySum_loop :: "int \<Rightarrow> int \<Rightarrow> int \<Rightarrow> (int \<rightharpoonup> int) \<Rightarrow> int list \<Rightarrow> int" where
  "SubarraySum_loop k cnt sm sumFreq [] = cnt"
| "SubarraySum_loop k cnt sm sumFreq (num # nums) =
     (let sm = i64 (sm + num);
          cnt = (case sumFreq (i64 (sm - k)) of Some freq \<Rightarrow> i64 (cnt + freq) | None \<Rightarrow> cnt);
          sumFreq = sumFreq(sm \<mapsto> i64 (map_get sumFreq sm + 1))
      in SubarraySum_loop k cnt sm sumFreq nums)"

definition SubarraySum :: "int list \<Rightarrow> int \<Rightarrow> int" where
  "SubarraySum nums k = SubarraySum_loop k 0 0 [0 \<mapsto> 1] nums"

text \<open>The subarrays from \<open>i\<close> up to, not including, \<open>j\<close> whose 64-bit sum is \<open>k\<close>.\<close>

definition hits :: "int \<Rightarrow> int list \<Rightarrow> (nat \<times> nat) set" where
  "hits k nums = {(i, j). i < j \<and> j \<le> length nums \<and> i64 (sum_list (drop i (take j nums))) = k}"

definition prefixes_with :: "int \<Rightarrow> int list \<Rightarrow> nat set" where
  "prefixes_with v ds = {i. i \<le> length ds \<and> i64 (sum_list (take i ds)) = v}"

lemma finite_hits: "finite (hits k nums)"
  by (rule finite_subset [of _ "{..length nums} \<times> {..length nums}"]) (auto simp: hits_def)

lemma finite_prefixes: "finite (prefixes_with v ds)"
  by (rule finite_subset [of _ "{..length ds}"]) (auto simp: prefixes_with_def)

lemma sum_drop: "sum_list (drop i ds) = sum_list ds - sum_list (take i (ds :: int list))"
  using arg_cong [OF append_take_drop_id [of i ds], of sum_list] by (simp del: append_take_drop_id)

lemma hits_snoc:
  assumes "in_i64 k"
  shows "hits k (ds @ [x]) =
    hits k ds \<union> (\<lambda>i. (i, Suc (length ds))) ` prefixes_with (i64 (sum_list (ds @ [x]) - k)) ds"
proof -
  have last: "i64 (sum_list (drop i (ds @ [x]))) = k \<longleftrightarrow> i64 (sum_list (take i ds)) = i64 (sum_list (ds @ [x]) - k)"
    if "i \<le> length ds" for i
  proof -
    have "i64 (sum_list (take i ds)) = i64 (sum_list (ds @ [x]) - k) \<longleftrightarrow>
        i64 (i64 (sum_list (ds @ [x])) - k) = i64 (sum_list (take i ds))" by auto
    also have "\<dots> \<longleftrightarrow> i64 (i64 (sum_list (take i ds)) + k) = i64 (sum_list (ds @ [x]))"
      using complement_iff [of "i64 (sum_list (take i ds))" "i64 (sum_list (ds @ [x]))" k] by simp
    also have "\<dots> \<longleftrightarrow> i64 (i64 (sum_list (ds @ [x])) - i64 (sum_list (take i ds))) = k"
      using complement_iff [of k "i64 (sum_list (ds @ [x]))" "i64 (sum_list (take i ds))"] assms by (simp add: add.commute)
    also have "\<dots> \<longleftrightarrow> i64 (sum_list (drop i (ds @ [x]))) = k" using that by (simp add: sum_drop algebra_simps)
    finally show ?thesis by (rule sym)
  qed
  show ?thesis
  proof (intro set_eqI iffI)
    fix p assume p: "p \<in> hits k (ds @ [x])"
    obtain i j where ij: "p = (i, j)" "i < j" "j \<le> Suc (length ds)" "i64 (sum_list (drop i (take j (ds @ [x])))) = k"
      using p by (auto simp: hits_def)
    show "p \<in> hits k ds \<union> (\<lambda>i. (i, Suc (length ds))) ` prefixes_with (i64 (sum_list (ds @ [x]) - k)) ds"
    proof (cases "j = Suc (length ds)")
      case True
      with ij last [of i] show ?thesis by (auto simp: prefixes_with_def)
    next
      case False
      with ij show ?thesis by (auto simp: hits_def)
    qed
  next
    fix p assume "p \<in> hits k ds \<union> (\<lambda>i. (i, Suc (length ds))) ` prefixes_with (i64 (sum_list (ds @ [x]) - k)) ds"
    then show "p \<in> hits k (ds @ [x])" using last by (fastforce simp: hits_def prefixes_with_def)
  qed
qed

lemma card_hits_snoc:
  "in_i64 k \<Longrightarrow> card (hits k (ds @ [x])) = card (hits k ds) + card (prefixes_with (i64 (sum_list (ds @ [x]) - k)) ds)"
  using finite_hits [of k ds] finite_prefixes
  by (simp add: hits_snoc, subst card_Un_disjoint) (auto simp: hits_def card_image inj_on_def)

lemma prefixes_snoc:
  "prefixes_with v (ds @ [x]) =
     prefixes_with v ds \<union> (if i64 (sum_list (ds @ [x])) = v then {Suc (length ds)} else {})"
  by (auto simp: prefixes_with_def le_Suc_eq)

lemma card_prefixes_snoc:
  "card (prefixes_with v (ds @ [x])) =
     card (prefixes_with v ds) + (if i64 (sum_list (ds @ [x])) = v then 1 else 0)"
  unfolding prefixes_snoc by (subst card_Un_disjoint) (auto simp: finite_prefixes prefixes_with_def)

lemma SubarraySum_loop_counts:
  assumes "in_i64 k" "\<forall>v. map_get m v = i64 (int (card (prefixes_with v ds)))"
  shows "SubarraySum_loop k (i64 (int (card (hits k ds)))) (i64 (sum_list ds)) m nums = i64 (int (card (hits k (ds @ nums))))"
  using assms(2)
proof (induction nums arbitrary: ds m)
  case (Cons x nums)
  let ?s = "i64 (sum_list (ds @ [x]))"
  have s: "i64 (i64 (sum_list ds) + x) = ?s" by simp
  have c: "(case m (i64 (?s - k)) of Some freq \<Rightarrow> i64 (i64 (int (card (hits k ds))) + freq) | None \<Rightarrow> i64 (int (card (hits k ds)))) =
      i64 (int (card (hits k (ds @ [x]))))"
  proof -
    have "(case m (i64 (?s - k)) of Some freq \<Rightarrow> i64 (i64 (int (card (hits k ds))) + freq) | None \<Rightarrow> i64 (int (card (hits k ds)))) =
        i64 (int (card (hits k ds)) + map_get m (i64 (?s - k)))"
      by (simp add: map_get_def split: option.split)
    also have "\<dots> = i64 (int (card (hits k (ds @ [x]))))"
      using Cons.prems by (simp add: card_hits_snoc [OF assms(1)])
    finally show ?thesis .
  qed
  have m: "\<forall>v. map_get (m(?s \<mapsto> i64 (map_get m ?s + 1))) v = i64 (int (card (prefixes_with v (ds @ [x]))))"
    using Cons.prems unfolding card_prefixes_snoc by (auto simp: map_get_def)
  show ?case
    unfolding SubarraySum_loop.simps Let_def s c using Cons.IH [OF m] by (simp add: fun_upd_def)
qed simp

lemma SubarraySum_counts_hits:
  assumes "in_i64 k"
  shows "SubarraySum nums k = i64 (int (card (hits k nums)))"
proof -
  have "hits k [] = {}" by (auto simp: hits_def)
  moreover have "prefixes_with v [] = (if v = 0 then {0} else {})" for v
    by (auto simp: prefixes_with_def in_i64_def)
  then have "\<forall>v. map_get [0 \<mapsto> 1] v = i64 (int (card (prefixes_with v [])))"
    by (simp add: map_get_def in_i64_def)
  ultimately show ?thesis
    using SubarraySum_loop_counts [OF assms, of "[0 \<mapsto> 1]" "[]" nums] by (simp add: SubarraySum_def in_i64_def)
qed

section \<open>Stepwise structures\<close>

text \<open>
  The loops of \<open>MinOperations\<close>; \<open>d\<close> is 1 for the ascending pattern and -1 for the descending one.
\<close>

fun base_loop :: "int \<Rightarrow> nat \<Rightarrow> int \<Rightarrow> int list \<Rightarrow> int" where
  "base_loop d i base [] = base"
| "base_loop d i base (s # ss) =
     (let v = i64 (s - d * int i) in base_loop d (Suc i) (if v > base then v else base) ss)"

fun cost_loop :: "int \<Rightarrow> int \<Rightarrow> nat \<Rightarrow> int \<Rightarrow> int list \<Rightarrow> int" where
  "cost_loop d base i cost [] = cost"
| "cost_loop d base i cost (s # ss) =
     (let target = i64 (base + d * int i) in cost_loop d base (Suc i) (i64 (cost + i64 (target - s))) ss)"

definition MinOperations :: "int list \<Rightarrow> int" where
  "MinOperations structures =
     (let baseAsc = base_loop 1 0 (- (2 ^ 60)) structures;
          costAsc = cost_loop 1 baseAsc 0 0 structures;
          baseDesc = base_loop (- 1) 0 (- (2 ^ 60)) structures;
          costDesc = cost_loop (- 1) baseDesc 0 0 structures
      in if costAsc < costDesc then costAsc else costDesc)"

text \<open>
  What is asked for: raise every entry, at the price of the difference, until each is one more (or
  each is one less) than its left neighbour.
\<close>

definition stairs :: "int \<Rightarrow> int list \<Rightarrow> bool" where
  "stairs d ts \<longleftrightarrow> (\<forall>i. Suc i < length ts \<longrightarrow> ts ! Suc i = ts ! i + d)"

definition raised :: "int list \<Rightarrow> int list \<Rightarrow> bool" where
  "raised ss ts \<longleftrightarrow> length ts = length ss \<and> (\<forall>i < length ss. ss ! i \<le> ts ! i)"

definition price :: "int list \<Rightarrow> int list \<Rightarrow> int" where
  "price ss ts = sum_list ts - sum_list ss"

text \<open>Sizes for which the 64-bit arithmetic is exact.\<close>

definition moderate :: "int list \<Rightarrow> bool" where
  "moderate ss \<longleftrightarrow> length ss \<le> 2 ^ 30 \<and> (\<forall>s \<in> set ss. \<bar>s\<bar> \<le> 2 ^ 30)"

definition stair_list :: "int \<Rightarrow> int \<Rightarrow> nat \<Rightarrow> int list" where
  "stair_list d b n = map (\<lambda>i. b + d * int i) [0..<n]"

lemma stairs_list: "stairs d ts \<longleftrightarrow> ts = stair_list d (ts ! 0) (length ts)"
proof
  assume s: "stairs d ts"
  define b where "b = ts ! 0"
  have at: "i < length ts \<Longrightarrow> ts ! i = b + d * int i" for i
    using s by (induction i) (simp_all add: b_def stairs_def algebra_simps)
  have "ts = stair_list d b (length ts)" by (rule nth_equalityI) (simp_all add: stair_list_def at)
  then show "ts = stair_list d (ts ! 0) (length ts)" by (simp only: b_def)
next
  assume t: "ts = stair_list d (ts ! 0) (length ts)"
  have "\<forall>i < length ts. ts ! i = ts ! 0 + d * int i"
  proof (intro allI impI)
    fix i assume "i < length ts"
    then show "ts ! i = ts ! 0 + d * int i" using arg_cong [OF t, of "\<lambda>l. l ! i"] by (simp add: stair_list_def)
  qed
  then show "stairs d ts" by (simp add: stairs_def algebra_simps)
qed

lemma stairs_stair_list: "stairs d (stair_list d b n)"
  by (simp add: stairs_def stair_list_def algebra_simps)

lemma base_loop_max:
  assumes "d = 1 \<or> d = - 1" "i + length ss \<le> 2 ^ 30" "\<forall>s \<in> set ss. \<bar>s\<bar> \<le> 2 ^ 30"
  shows "b \<le> base_loop d i b ss \<and> (\<forall>j < length ss. ss ! j - d * int (i + j) \<le> base_loop d i b ss) \<and>
    (base_loop d i b ss = b \<or> (\<exists>j < length ss. base_loop d i b ss = ss ! j - d * int (i + j)))"
  using assms(2,3)
proof (induction ss arbitrary: i b)
  case (Cons s ss)
  let ?v = "s - d * int i"
  have "\<bar>s\<bar> \<le> 2 ^ 30" "int i \<le> 2 ^ 30" using Cons.prems by auto
  then have "i64 ?v = ?v" using assms(1) by (intro i64_id) (auto simp: in_i64_def)
  moreover have "(if ?v > b then ?v else b) = max b ?v" by simp
  ultimately have eq: "base_loop d i b (s # ss) = base_loop d (Suc i) (max b ?v) ss" by (simp only: base_loop.simps Let_def)
  have IH: "max b ?v \<le> base_loop d (Suc i) (max b ?v) ss"
    "\<forall>j < length ss. ss ! j - d * int (Suc i + j) \<le> base_loop d (Suc i) (max b ?v) ss"
    "base_loop d (Suc i) (max b ?v) ss = max b ?v \<or>
     (\<exists>j < length ss. base_loop d (Suc i) (max b ?v) ss = ss ! j - d * int (Suc i + j))"
    using Cons.IH [of "Suc i" "max b ?v"] Cons.prems by auto
  have all: "(s # ss) ! j - d * int (i + j) \<le> base_loop d i b (s # ss)" if "j < length (s # ss)" for j
    using that IH(1,2) unfolding eq by (cases j) auto
  have attained: "base_loop d i b (s # ss) = b \<or>
    (\<exists>j < length (s # ss). base_loop d i b (s # ss) = (s # ss) ! j - d * int (i + j))"
  proof (cases "base_loop d (Suc i) (max b ?v) ss = max b ?v")
    case True
    then show ?thesis unfolding eq by (cases "b \<le> ?v") (auto intro: exI [of _ 0])
  next
    case False
    with IH(3) obtain j where "j < length ss" "base_loop d (Suc i) (max b ?v) ss = ss ! j - d * int (Suc i + j)" by blast
    then show ?thesis unfolding eq by (intro disjI2 exI [of _ "Suc j"]) simp
  qed
  show ?case using IH(1) all attained unfolding eq by simp
qed simp

lemma cost_loop_sum:
  assumes "d = 1 \<or> d = - 1" "\<bar>b\<bar> \<le> 2 ^ 31" "i + length ss \<le> 2 ^ 30" "\<forall>s \<in> set ss. \<bar>s\<bar> \<le> 2 ^ 30"
    "\<bar>c\<bar> \<le> 2 ^ 32 * int i"
  shows "cost_loop d b i c ss = c + (\<Sum>j < length ss. b + d * int (i + j) - ss ! j)"
  using assms(3-5)
proof (induction ss arbitrary: i c)
  case (Cons s ss)
  let ?t = "b + d * int i"
  have s: "\<bar>s\<bar> \<le> 2 ^ 30" and i: "int i < 2 ^ 30" using Cons.prems by auto
  then have t: "i64 ?t = ?t" using assms(1,2) by (intro i64_id) (auto simp: in_i64_def)
  have ts: "\<bar>?t - s\<bar> \<le> 2 ^ 32" using assms(1,2) s i by auto
  then have "i64 (?t - s) = ?t - s" by (intro i64_id) (auto simp: in_i64_def)
  moreover have ct: "\<bar>c + (?t - s)\<bar> \<le> 2 ^ 32 * int (Suc i)" using Cons.prems(3) ts by (simp add: algebra_simps)
  then have "i64 (c + (?t - s)) = c + (?t - s)" using i by (intro i64_id) (auto simp: in_i64_def)
  ultimately have "cost_loop d b i c (s # ss) = cost_loop d b (Suc i) (c + (?t - s)) ss" by (simp add: t)
  also have "\<dots> = c + (?t - s) + (\<Sum>j < length ss. b + d * int (Suc i + j) - ss ! j)"
    using Cons.prems ct by (intro Cons.IH) auto
  finally show ?case by (simp add: sum.lessThan_Suc_shift ac_simps del: sum.lessThan_Suc)
qed simp

lemma stair_price:
  "(\<Sum>j < length ss. b + d * int j - ss ! j) = price ss (stair_list d b (length ss))"
  by (simp add: price_def stair_list_def sum_list_sum_nth sum_subtractf atLeast0LessThan [symmetric] interv_sum_list_conv_sum_set_nat)

definition stepwise :: "int list \<Rightarrow> bool" where
  "stepwise ts \<longleftrightarrow> stairs 1 ts \<or> stairs (- 1) ts"

text \<open>One direction: the loops find the price of the lowest stairs above the structures.\<close>

lemma cheapest_stairs:
  assumes "d = 1 \<or> d = - 1" "moderate ss"
  defines "b \<equiv> base_loop d 0 (- (2 ^ 60)) ss"
  shows "\<exists>ts. stairs d ts \<and> raised ss ts \<and> cost_loop d b 0 0 ss = price ss ts \<and>
    (\<forall>us. stairs d us \<longrightarrow> raised ss us \<longrightarrow> price ss ts \<le> price ss us)"
proof (cases "ss = []")
  case True
  then show ?thesis
    by (intro exI [of _ "[]"]) (simp add: stairs_def raised_def price_def)
next
  case False
  have m: "length ss \<le> 2 ^ 30" "\<forall>s \<in> set ss. \<bar>s\<bar> \<le> 2 ^ 30" using assms(2) by (auto simp: moderate_def)
  have near: "\<bar>ss ! j - d * int j\<bar> \<le> 2 ^ 31" if "j < length ss" for j
  proof -
    have "\<bar>ss ! j\<bar> \<le> 2 ^ 30" "int j \<le> 2 ^ 30" using that m by auto
    then show ?thesis using assms(1) by auto
  qed
  have B: "\<forall>j < length ss. ss ! j - d * int j \<le> b" "b = - (2 ^ 60) \<or> (\<exists>j < length ss. b = ss ! j - d * int j)"
    using base_loop_max [OF assms(1), of 0 ss "- (2 ^ 60)"] m by (simp_all add: b_def)
  have "b \<noteq> - (2 ^ 60)"
  proof
    assume "b = - (2 ^ 60)"
    then show False using B(1) near [of 0] False by auto
  qed
  with B(2) obtain j where j: "j < length ss" "b = ss ! j - d * int j" by blast
  have "\<bar>b\<bar> \<le> 2 ^ 31" using near [OF j(1)] by (simp only: j(2))
  then have cost: "cost_loop d b 0 0 ss = price ss (stair_list d b (length ss))"
    using cost_loop_sum [OF assms(1), of b 0 ss 0] m by (simp add: stair_price)
  have "raised ss (stair_list d b (length ss))"
    using B(1) by (auto simp: raised_def stair_list_def algebra_simps)
  moreover have "price ss (stair_list d b (length ss)) \<le> price ss us" if us: "stairs d us" "raised ss us" for us
  proof -
    have eq: "us = stair_list d (us ! 0) (length ss)" and up: "ss ! j \<le> us ! j"
      using us j(1) stairs_list [of d us] by (simp_all add: raised_def)
    have "us ! j = us ! 0 + d * int j" using arg_cong [OF eq, of "\<lambda>l. l ! j"] j(1) by (simp add: stair_list_def)
    with up j(2) have "b \<le> us ! 0" by simp
    then have "(\<Sum>i < length ss. b + d * int i - ss ! i) \<le> (\<Sum>i < length ss. us ! 0 + d * int i - ss ! i)"
      by (intro sum_mono) simp
    then have "price ss (stair_list d b (length ss)) \<le> price ss (stair_list d (us ! 0) (length ss))"
      by (simp only: stair_price)
    with eq show ?thesis by simp
  qed
  ultimately show ?thesis using cost stairs_stair_list by blast
qed

lemma MinOperations_cheapest:
  assumes "moderate ss"
  shows "(\<exists>ts. stepwise ts \<and> raised ss ts \<and> MinOperations ss = price ss ts) \<and>
    (\<forall>ts. stepwise ts \<longrightarrow> raised ss ts \<longrightarrow> MinOperations ss \<le> price ss ts)"
proof -
  let ?A = "cost_loop 1 (base_loop 1 0 (- (2 ^ 60)) ss) 0 0 ss"
  let ?D = "cost_loop (- 1) (base_loop (- 1) 0 (- (2 ^ 60)) ss) 0 0 ss"
  have m: "MinOperations ss = min ?A ?D" by (simp add: MinOperations_def Let_def min_def)
  obtain ts where ts: "stairs 1 ts" "raised ss ts" "?A = price ss ts"
    "\<forall>us. stairs 1 us \<longrightarrow> raised ss us \<longrightarrow> price ss ts \<le> price ss us"
    using cheapest_stairs [of 1, OF _ assms] by blast
  obtain us where us: "stairs (- 1) us" "raised ss us" "?D = price ss us"
    "\<forall>vs. stairs (- 1) vs \<longrightarrow> raised ss vs \<longrightarrow> price ss us \<le> price ss vs"
    using cheapest_stairs [of "- 1", OF _ assms] by blast
  have "\<exists>ts. stepwise ts \<and> raised ss ts \<and> MinOperations ss = price ss ts"
    using ts us unfolding m stepwise_def min_def by metis
  moreover have "MinOperations ss \<le> price ss vs" if "stepwise vs" "raised ss vs" for vs
  proof -
    have "?A \<le> price ss vs \<or> ?D \<le> price ss vs" using that ts us by (metis stepwise_def)
    then show ?thesis unfolding m by auto
  qed
  ultimately show ?thesis by blast
qed

section \<open>Fewest deletions to a sorted slice\<close>

text \<open>The binary search for the first tail above \<open>x\<close>.\<close>

function tail_search :: "int list \<Rightarrow> int \<Rightarrow> nat \<Rightarrow> nat \<Rightarrow> nat" where
  "tail_search tails x lo hi =
     (if lo < hi then
        let mid = (lo + hi) div 2 in
        if tails ! mid > x then tail_search tails x lo mid else tail_search tails x (mid + 1) hi
      else lo)"
  by pat_completeness auto
termination by (relation "measure (\<lambda>(tails, x, lo, hi). hi - lo)") auto

declare tail_search.simps [simp del]

fun tails_loop :: "int list \<Rightarrow> int list \<Rightarrow> int list" where
  "tails_loop tails [] = tails"
| "tails_loop tails (x # A) =
     (let lo = tail_search tails x 0 (length tails)
      in tails_loop (if lo = length tails then tails @ [x] else tails[lo := x]) A)"

definition MinDeletionsToSorted :: "int list \<Rightarrow> int" where
  "MinDeletionsToSorted A =
     (if length A = 0 then 0
      else let tails = tails_loop [] A; lnds = length tails in int (length A) - int lnds)"

lemma tail_search_split:
  assumes "sorted tails" "lo \<le> hi" "hi \<le> length tails" "\<forall>i < lo. tails ! i \<le> x"
    "\<forall>i. hi \<le> i \<longrightarrow> i < length tails \<longrightarrow> x < tails ! i"
  shows "let r = tail_search tails x lo hi in
    r \<le> length tails \<and> (\<forall>i < r. tails ! i \<le> x) \<and> (\<forall>i. r \<le> i \<longrightarrow> i < length tails \<longrightarrow> x < tails ! i)"
  using assms
proof (induction tails x lo hi rule: tail_search.induct)
  case (1 tails x lo hi)
  show ?case
  proof (cases "lo < hi")
    case False
    with 1 show ?thesis by (subst tail_search.simps) (simp add: Let_def)
  next
    case True
    let ?mid = "(lo + hi) div 2"
    have mid: "lo \<le> ?mid" "?mid < hi" using True by auto
    show ?thesis
    proof (cases "tails ! ?mid > x")
      case above: True
      have "x < tails ! i" if "?mid \<le> i" "i < length tails" for i
        using above sorted_nth_mono [OF 1(3) that] by simp
      with 1(1) [OF True refl above] 1(3-) mid have
        "let r = tail_search tails x lo ?mid in
          r \<le> length tails \<and> (\<forall>i < r. tails ! i \<le> x) \<and> (\<forall>i. r \<le> i \<longrightarrow> i < length tails \<longrightarrow> x < tails ! i)"
        by auto
      with True above show ?thesis by (subst tail_search.simps) (simp add: Let_def)
    next
      case below: False
      have "tails ! i \<le> x" if "i < ?mid + 1" for i
        using below sorted_nth_mono [OF 1(3), of i ?mid] that mid 1(5) by simp
      with 1(2) [OF True refl below] 1(3-) mid have
        "let r = tail_search tails x (?mid + 1) hi in
          r \<le> length tails \<and> (\<forall>i < r. tails ! i \<le> x) \<and> (\<forall>i. r \<le> i \<longrightarrow> i < length tails \<longrightarrow> x < tails ! i)"
        by auto
      with True below show ?thesis by (subst tail_search.simps) (simp add: Let_def)
    qed
  qed
qed

text \<open>
  The tails: for each length the smallest last entry of a non-decreasing subsequence of that
  length.
\<close>

definition chain_of :: "int list \<Rightarrow> int list \<Rightarrow> bool" where
  "chain_of P ys \<longleftrightarrow> subseq ys P \<and> sorted ys"

definition tails_ok :: "int list \<Rightarrow> int list \<Rightarrow> bool" where
  "tails_ok P tails \<longleftrightarrow> sorted tails \<and>
     (\<forall>i < length tails. \<exists>ys. chain_of P ys \<and> length ys = Suc i \<and> last ys = tails ! i) \<and>
     (\<forall>ys. chain_of P ys \<longrightarrow> ys \<noteq> [] \<longrightarrow> length ys \<le> length tails \<and> tails ! (length ys - 1) \<le> last ys)"

lemma chain_of_snoc:
  "chain_of (P @ [x]) ys \<longleftrightarrow> chain_of P ys \<or> (\<exists>zs. ys = zs @ [x] \<and> chain_of P zs \<and> (zs = [] \<or> last zs \<le> x))"
proof
  assume c: "chain_of (P @ [x]) ys"
  then obtain us vs where uv: "ys = us @ vs" "subseq us P" "subseq vs [x]"
    unfolding chain_of_def by (auto elim: subseq_appendE)
  then have "vs = [] \<or> vs = [x]" by (cases vs) (auto simp: subseq_singleton_left split: if_splits dest: list_emb_length)
  with c uv show "chain_of P ys \<or> (\<exists>zs. ys = zs @ [x] \<and> chain_of P zs \<and> (zs = [] \<or> last zs \<le> x))"
    by (cases "us = []") (auto simp: chain_of_def sorted_append)
next
  assume "chain_of P ys \<or> (\<exists>zs. ys = zs @ [x] \<and> chain_of P zs \<and> (zs = [] \<or> last zs \<le> x))"
  then show "chain_of (P @ [x]) ys"
  proof (elim disjE exE conjE)
    assume "chain_of P ys"
    then show ?thesis using list_emb_append_mono [of _ ys P "[]" "[x]"] by (simp add: chain_of_def)
  next
    fix zs assume zs: "ys = zs @ [x]" "chain_of P zs" "zs = []"
    then show ?thesis by (simp add: chain_of_def list_emb_append2)
  next
    fix zs assume zs: "ys = zs @ [x]" "chain_of P zs" "last zs \<le> x"
    have "z \<le> x" if z: "z \<in> set zs" for z
    proof -
      obtain i where "i < length zs" "z = zs ! i" using z unfolding in_set_conv_nth by blast
      moreover have "zs \<noteq> []" using z by auto
      ultimately have "z \<le> last zs"
        using zs(2) sorted_nth_mono [of zs i "length zs - 1"] by (simp add: chain_of_def last_conv_nth)
      with zs(3) show ?thesis by simp
    qed
    with zs show ?thesis by (auto simp: chain_of_def sorted_append)
  qed
qed

lemma tails_ok_step:
  assumes ok: "tails_ok P tails" and r: "r \<le> length tails" "\<forall>i < r. tails ! i \<le> x"
    "\<forall>i. r \<le> i \<longrightarrow> i < length tails \<longrightarrow> x < tails ! i"
  defines "tails' \<equiv> if r = length tails then tails @ [x] else tails[r := x]"
  shows "tails_ok (P @ [x]) tails'"
proof -
  have s: "sorted tails" and short: "\<And>i. i < length tails \<Longrightarrow> \<exists>ys. chain_of P ys \<and> length ys = Suc i \<and> last ys = tails ! i"
    and best: "\<And>ys. chain_of P ys \<Longrightarrow> ys \<noteq> [] \<Longrightarrow> length ys \<le> length tails \<and> tails ! (length ys - 1) \<le> last ys"
    using ok by (auto simp: tails_ok_def)
  have len: "length tails' = max (length tails) (Suc r)" using r(1) by (auto simp: tails'_def)
  have nth': "i < length tails' \<Longrightarrow> tails' ! i = (if i = r then x else tails ! i)" for i
    using r(1) by (auto simp: tails'_def nth_append)
  have "sorted tails'"
    unfolding sorted_iff_nth_mono
  proof (intro allI impI)
    fix i j assume ij: "i \<le> j" "j < length tails'"
    then show "tails' ! i \<le> tails' ! j"
      using r sorted_nth_mono [OF s ij(1)] less_imp_le [of x "tails ! j"] by (auto simp: nth' len)
  qed
  moreover have "\<exists>ys. chain_of (P @ [x]) ys \<and> length ys = Suc i \<and> last ys = tails' ! i" if i: "i < length tails'" for i
  proof (cases "i = r")
    case False
    then have "i < length tails" using i len r(1) by auto
    with False i short [of i] show ?thesis unfolding chain_of_snoc by (auto simp: nth')
  next
    case True
    show ?thesis
    proof (cases r)
      case 0
      with True i show ?thesis by (intro exI [of _ "[x]"]) (simp add: nth' chain_of_def list_emb_append2)
    next
      case (Suc q)
      then obtain ys where ys: "chain_of P ys" "length ys = Suc q" "last ys = tails ! q" using short [of q] r(1) by auto
      with r(2) Suc have "chain_of (P @ [x]) (ys @ [x])" unfolding chain_of_snoc by auto
      with ys Suc True i show ?thesis by (intro exI [of _ "ys @ [x]"]) (simp add: nth')
    qed
  qed
  moreover have "length ys \<le> length tails' \<and> tails' ! (length ys - 1) \<le> last ys"
    if c: "chain_of (P @ [x]) ys" "ys \<noteq> []" for ys
    using c(1) unfolding chain_of_snoc
  proof (elim disjE exE conjE)
    assume "chain_of P ys"
    from best [OF this c(2)] c(2) have b: "length ys - 1 < length tails" "tails ! (length ys - 1) \<le> last ys"
      by (cases ys; auto)+
    then have "tails' ! (length ys - 1) \<le> last ys"
      using r(3) by (auto simp: nth' len dest: spec [of _ r])
    with b(1) len show ?thesis by linarith
  next
    fix zs assume zs: "ys = zs @ [x]" "chain_of P zs" "zs = []"
    then show ?thesis using r(2) by (cases "r = 0") (auto simp: nth' len)
  next
    fix zs assume zs: "ys = zs @ [x]" "chain_of P zs" "last zs \<le> x"
    show ?thesis
    proof (cases "zs = []")
      case True
      with zs show ?thesis using r(2) by (cases "r = 0") (auto simp: nth' len)
    next
      case False
      then have n: "0 < length zs" by simp
      from best [OF zs(2) False] zs(3) have b: "length zs \<le> length tails" "tails ! (length zs - 1) \<le> x" by auto
      have "length zs \<le> r"
      proof (rule ccontr)
        assume "\<not> length zs \<le> r"
        then have "x < tails ! (length zs - 1)" using r(3) b(1) n by simp
        with b(2) show False by simp
      qed
      then show ?thesis using zs(1) r(1,2) by (auto simp: nth' len)
    qed
  qed
  ultimately show ?thesis unfolding tails_ok_def by blast
qed

lemma tails_loop_ok: "tails_ok P tails \<Longrightarrow> tails_ok (P @ A) (tails_loop tails A)"
proof (induction A arbitrary: P tails)
  case (Cons x A)
  let ?r = "tail_search tails x 0 (length tails)"
  have "?r \<le> length tails \<and> (\<forall>i < ?r. tails ! i \<le> x) \<and> (\<forall>i. ?r \<le> i \<longrightarrow> i < length tails \<longrightarrow> x < tails ! i)"
    using tail_search_split [of tails 0 "length tails" x] Cons.prems by (auto simp: tails_ok_def Let_def)
  then have "tails_ok (P @ [x]) (if ?r = length tails then tails @ [x] else tails[?r := x])"
    using Cons.prems by (intro tails_ok_step) auto
  from Cons.IH [OF this] show ?case by (simp add: Let_def)
qed simp

lemma MinDeletions_longest:
  "(\<exists>ys. chain_of A ys \<and> MinDeletionsToSorted A = int (length A) - int (length ys)) \<and>
   (\<forall>ys. chain_of A ys \<longrightarrow> MinDeletionsToSorted A \<le> int (length A) - int (length ys))"
proof -
  have "tails_ok [] []" by (auto simp: tails_ok_def chain_of_def)
  then have ok: "tails_ok A (tails_loop [] A)" using tails_loop_ok [of "[]" "[]" A] by simp
  let ?n = "length (tails_loop [] A)"
  have md: "MinDeletionsToSorted A = int (length A) - int ?n" by (simp add: MinDeletionsToSorted_def Let_def)
  have "\<exists>ys. chain_of A ys \<and> length ys = ?n"
  proof (cases "?n = 0")
    case True
    then show ?thesis by (intro exI [of _ "[]"]) (simp add: chain_of_def)
  next
    case False
    then have "?n - 1 < ?n" by simp
    with ok obtain ys where "chain_of A ys" "length ys = Suc (?n - 1)" unfolding tails_ok_def by blast
    with False show ?thesis by auto
  qed
  moreover have "length ys \<le> ?n" if "chain_of A ys" for ys
    using ok that by (cases "ys = []") (auto simp: tails_ok_def)
  ultimately show ?thesis unfolding md by auto
qed

section \<open>Monthly fees\<close>

text \<open>One month: the number and the sum of the negative transactions, and the fee.\<close>

fun month_loop :: "int \<times> int \<Rightarrow> int list \<Rightarrow> int \<times> int" where
  "month_loop acc [] = acc"
| "month_loop (negCount, negSum) (v # txs) =
     month_loop (if v < 0 then (i64 (negCount + 1), i64 (negSum + i64 (- v))) else (negCount, negSum)) txs"

fun MonthlyFee_loop :: "nat \<Rightarrow> int \<Rightarrow> int list list \<Rightarrow> string list \<times> int" where
  "MonthlyFee_loop month acc [] = ([], acc)"
| "MonthlyFee_loop month acc (txs # A) =
     (let fee = 5;
          (negCount, negSum) = month_loop (0, 0) txs;
          fee = (if negCount \<ge> 3 \<and> negSum \<ge> 100 then 0 else fee);
          line = ''Month '' @ int_dec (int month + 1) @ '': negPayments='' @ int_dec negCount @ '', negSum='' @
            int_dec negSum @ '', fee='' @ int_dec fee @ [CHR 0x0A];
          (out, r) = MonthlyFee_loop (Suc month) (i64 (acc + fee)) A
      in (line # out, r))"

text \<open>The lines printed and the fee of the year; the slice may be \<open>nil\<close>.\<close>

definition MonthlyFee :: "int list list option \<Rightarrow> string list \<times> int" where
  "MonthlyFee A = (case A of None \<Rightarrow> ([], 0) | Some months \<Rightarrow> MonthlyFee_loop 0 0 months)"

definition waived :: "int list \<Rightarrow> bool" where
  "waived txs \<longleftrightarrow> length (filter (\<lambda>v. v < 0) txs) \<ge> 3 \<and> sum_list (filter (\<lambda>v. v < 0) txs) \<le> - 100"

lemma month_loop_sums:
  assumes "length txs + n \<le> 2 ^ 30" "\<forall>v \<in> set txs. \<bar>v\<bar> \<le> 2 ^ 30" "0 \<le> s" "s \<le> int n * 2 ^ 30"
  shows "month_loop (int n, s) txs =
    (int n + int (length (filter (\<lambda>v. v < 0) txs)), s - sum_list (filter (\<lambda>v. v < 0) txs))"
  using assms
proof (induction txs arbitrary: n s)
  case (Cons v txs)
  show ?case
  proof (cases "v < 0")
    case True
    have n: "int n < 2 ^ 30" and v: "\<bar>v\<bar> \<le> 2 ^ 30" using Cons.prems by auto
    have sv: "s + - v \<le> int (Suc n) * 2 ^ 30" using Cons.prems(4) v by (simp add: algebra_simps)
    have "i64 (int n + 1) = int (Suc n)" using n by (subst i64_id) (auto simp: in_i64_def)
    moreover have "i64 (s + i64 (- v)) = s + - v"
      using n v sv Cons.prems(3) True unfolding i64_add_right by (intro i64_id) (auto simp: in_i64_def)
    ultimately have "month_loop (int n, s) (v # txs) = month_loop (int (Suc n), s + - v) txs" using True by simp
    also have "\<dots> = (int (Suc n) + int (length (filter (\<lambda>v. v < 0) txs)), s + - v - sum_list (filter (\<lambda>v. v < 0) txs))"
      using Cons.prems sv True by (intro Cons.IH) auto
    finally show ?thesis using True by simp
  next
    case False
    with Cons show ?thesis by simp
  qed
qed simp

lemma MonthlyFee_loop_sum:
  assumes "i + length A \<le> 2 ^ 30" "\<forall>txs \<in> set A. moderate txs" "0 \<le> acc" "acc \<le> 5 * int i"
  shows "snd (MonthlyFee_loop i acc A) = acc + 5 * int (length (filter (\<lambda>txs. \<not> waived txs) A))"
  using assms
proof (induction A arbitrary: i acc)
  case (Cons txs A)
  let ?fee = "if waived txs then 0 else 5 :: int"
  have "month_loop (0, 0) txs =
      (int (length (filter (\<lambda>v. v < 0) txs)), - sum_list (filter (\<lambda>v. v < 0) txs))"
    using month_loop_sums [of txs 0 0] Cons.prems(2) by (simp add: moderate_def)
  then have "snd (MonthlyFee_loop i acc (txs # A)) = snd (MonthlyFee_loop (Suc i) (i64 (acc + ?fee)) A)"
    by (simp add: waived_def Let_def minus_le_iff split: prod.split)
  also have "i64 (acc + ?fee) = acc + ?fee"
    using Cons.prems by (intro i64_id) (auto simp: in_i64_def)
  also have "snd (MonthlyFee_loop (Suc i) (acc + ?fee) A) = acc + ?fee + 5 * int (length (filter (\<lambda>txs. \<not> waived txs) A))"
    using Cons.prems by (intro Cons.IH) auto
  finally show ?case by simp
qed simp

lemma MonthlyFee_sum:
  "length A \<le> 2 ^ 30 \<Longrightarrow> \<forall>txs \<in> set A. moderate txs \<Longrightarrow>
   snd (MonthlyFee (Some A)) = 5 * int (length (filter (\<lambda>txs. \<not> waived txs) A))"
  using MonthlyFee_loop_sum [of 0 A 0] by (simp add: MonthlyFee_def)

end
