(* ===== verification/PkgStrings.thy ===== *)
theory PkgStrings
  imports PkgArrays "HOL-Library.List_Lexorder" "HOL-Library.Char_ord"
begin

text \<open>
  The routines of \<open>pkg/\<close> on strings: \<open>LengthOfLongestSubstring\<close>, \<open>CaseDiff\<close>, \<open>ReverseMiddle\<close>,
  \<open>Convert\<close> and \<open>GetPredictionDiff\<close>.  A Go string is the list of its bytes; a \<open>range\<close> over one
  decodes UTF-8, and \<open>string(b)\<close> of a byte encodes the character with that number.
\<close>

section \<open>Longest substring without a repetition\<close>

fun longest_loop :: "(char \<rightharpoonup> int) \<Rightarrow> int \<Rightarrow> int \<Rightarrow> nat \<Rightarrow> string \<Rightarrow> int" where
  "longest_loop charIndex left maxLen right [] = maxLen"
| "longest_loop charIndex left maxLen right (c # cs) =
     (let left = (case charIndex c of
                    Some idx \<Rightarrow> if idx \<ge> left then idx + 1 else left
                  | None \<Rightarrow> left);
          charIndex = charIndex(c \<mapsto> int right);
          currentLen = int right - left + 1
      in longest_loop charIndex left (if currentLen > maxLen then currentLen else maxLen) (Suc right) cs)"

definition LengthOfLongestSubstring :: "string \<Rightarrow> int" where
  "LengthOfLongestSubstring s = longest_loop Map.empty 0 0 0 s"

definition no_repeat :: "'a list \<Rightarrow> nat \<Rightarrow> nat \<Rightarrow> bool" where
  "no_repeat s i j \<longleftrightarrow> (\<forall>a b. i \<le> a \<longrightarrow> a < b \<longrightarrow> b < j \<longrightarrow> s ! a \<noteq> s ! b)"

text \<open>
  What the loop knows before it looks at position \<open>n\<close>: the window from \<open>left\<close> is the longest one
  that ends here, and \<open>maxLen\<close> is the length of the longest one that ended so far.
\<close>

definition longest_inv :: "string \<Rightarrow> nat \<Rightarrow> (char \<rightharpoonup> int) \<Rightarrow> nat \<Rightarrow> nat \<Rightarrow> bool" where
  "longest_inv s n m l mx \<longleftrightarrow>
     last_index s n m \<and> l \<le> n \<and> no_repeat s l n \<and> (\<forall>i. i \<le> n \<longrightarrow> no_repeat s i n \<longrightarrow> l \<le> i) \<and>
     (\<exists>i j. i \<le> j \<and> j \<le> n \<and> no_repeat s i j \<and> mx = j - i) \<and>
     (\<forall>i j. i \<le> j \<longrightarrow> j \<le> n \<longrightarrow> no_repeat s i j \<longrightarrow> j - i \<le> mx)"

lemma no_repeat_Suc: "no_repeat s i (Suc n) \<longleftrightarrow> no_repeat s i n \<and> (\<forall>a. i \<le> a \<longrightarrow> a < n \<longrightarrow> s ! a \<noteq> s ! n)"
  by (auto simp: no_repeat_def less_Suc_eq)

lemma last_index_iff:
  assumes "last_index s n m"
  shows "(case m c of
      None \<Rightarrow> \<forall>a < n. s ! a \<noteq> c
    | Some idx \<Rightarrow> \<exists>i < n. idx = int i \<and> s ! i = c \<and> (\<forall>i'. i < i' \<longrightarrow> i' < n \<longrightarrow> s ! i' \<noteq> c))"
  using assms unfolding last_index_def by blast

lemma longest_inv_step:
  assumes inv: "longest_inv s n m l mx"
  defines "l' \<equiv> case m (s ! n) of Some idx \<Rightarrow> if idx \<ge> int l then nat idx + 1 else l | None \<Rightarrow> l"
  shows "longest_inv s (Suc n) (m(s ! n \<mapsto> int n)) l' (max mx (Suc n - l'))"
proof -
  have li: "last_index s n m" and l: "l \<le> n" "no_repeat s l n" "\<And>i. i \<le> n \<Longrightarrow> no_repeat s i n \<Longrightarrow> l \<le> i"
    and mx: "\<exists>i j. i \<le> j \<and> j \<le> n \<and> no_repeat s i j \<and> mx = j - i"
      "\<And>i j. i \<le> j \<Longrightarrow> j \<le> n \<Longrightarrow> no_repeat s i j \<Longrightarrow> j - i \<le> mx"
    using inv by (auto simp: longest_inv_def)
  note at = last_index_iff [OF li, of "s ! n"]
  have window: "l' \<le> n \<and> no_repeat s l' (Suc n) \<and> (\<forall>i. i \<le> n \<longrightarrow> no_repeat s i (Suc n) \<longrightarrow> l' \<le> i)"
  proof (cases "\<exists>p. p < n \<and> l \<le> p \<and> m (s ! n) = Some (int p)")
    case True
    then obtain p where p: "p < n" "l \<le> p" "m (s ! n) = Some (int p)" by blast
    with at have q: "s ! p = s ! n" "\<And>a. p < a \<Longrightarrow> a < n \<Longrightarrow> s ! a \<noteq> s ! n" by auto
    have l': "l' = Suc p" using p by (simp add: l'_def)
    have "no_repeat s (Suc p) n" using l(2) p(2) by (auto simp: no_repeat_def)
    then have "no_repeat s l' (Suc n)" unfolding no_repeat_Suc l' using q(2) by auto
    moreover have "l' \<le> i" if "i \<le> n" "no_repeat s i (Suc n)" for i
    proof -
      have "\<not> i \<le> p" using that(2) q(1) p(1) unfolding no_repeat_Suc by blast
      then show ?thesis unfolding l' by simp
    qed
    ultimately show ?thesis using p(1) l' by auto
  next
    case False
    then have l': "l' = l" using at by (auto simp: l'_def split: option.splits)
    have "s ! a \<noteq> s ! n" if a: "l \<le> a" "a < n" for a
    proof (cases "m (s ! n)")
      case None
      with at a show ?thesis by simp
    next
      case (Some idx)
      with at obtain i where i: "i < n" "idx = int i" "\<forall>i'. i < i' \<longrightarrow> i' < n \<longrightarrow> s ! i' \<noteq> s ! n" by auto
      with False Some have "i < l" by (meson not_le)
      with i(3) a show ?thesis by simp
    qed
    then have "no_repeat s l' (Suc n)" unfolding l' no_repeat_Suc using l(2) by blast
    moreover have "l' \<le> i" if "i \<le> n" "no_repeat s i (Suc n)" for i
      using that l(3) unfolding l' no_repeat_Suc by blast
    ultimately show ?thesis using l' l(1) by auto
  qed
  have "\<exists>i j. i \<le> j \<and> j \<le> Suc n \<and> no_repeat s i j \<and> max mx (Suc n - l') = j - i"
  proof (cases "mx \<le> Suc n - l'")
    case True
    with window show ?thesis by (intro exI [of _ l'] exI [of _ "Suc n"]) auto
  next
    case False
    with mx(1) show ?thesis by (metis le_SucI max.absorb1 nle_le)
  qed
  moreover have "j - i \<le> max mx (Suc n - l')" if "i \<le> j" "j \<le> Suc n" "no_repeat s i j" for i j
  proof (cases "j = Suc n")
    case True
    show ?thesis
    proof (cases "i \<le> n")
      case inside: True
      with window that True have "l' \<le> i" by blast
      then show ?thesis using True by simp
    next
      case False
      with that True show ?thesis by simp
    qed
  next
    case False
    with that have "j - i \<le> mx" by (intro mx(2)) auto
    then show ?thesis by simp
  qed
  moreover have "\<forall>i. i \<le> Suc n \<longrightarrow> no_repeat s i (Suc n) \<longrightarrow> l' \<le> i"
    using window by (auto simp: le_Suc_eq)
  ultimately show ?thesis
    using window last_index_step [OF li] unfolding longest_inv_def by auto
qed

lemma longest_loop_inv:
  assumes "longest_inv s n m l mx" "n \<le> length s"
  shows "\<exists>m' l' mx'. longest_loop m (int l) (int mx) n (drop n s) = int mx' \<and> longest_inv s (length s) m' l' mx'"
  using assms
proof (induction "length s - n" arbitrary: n m l mx)
  case 0
  then show ?case by auto
next
  case (Suc k)
  then have n: "n < length s" by simp
  then have dr: "drop n s = s ! n # drop (Suc n) s" by (simp add: Cons_nth_drop_Suc)
  define l' where "l' = (case m (s ! n) of Some idx \<Rightarrow> if idx \<ge> int l then nat idx + 1 else l | None \<Rightarrow> l)"
  have inv: "longest_inv s (Suc n) (m(s ! n \<mapsto> int n)) l' (max mx (Suc n - l'))"
    unfolding l'_def by (rule longest_inv_step) (rule Suc.prems(1))
  have L: "(case m (s ! n) of Some idx \<Rightarrow> if idx \<ge> int l then idx + 1 else int l | None \<Rightarrow> int l) = int l'"
    by (auto simp: l'_def split: option.split)
  have M: "(if int n - int l' + 1 > int mx then int n - int l' + 1 else int mx) = int (max mx (Suc n - l'))"
    using inv by (auto simp: longest_inv_def)
  have "longest_loop m (int l) (int mx) n (drop n s) =
      longest_loop (m(s ! n \<mapsto> int n)) (int l') (int (max mx (Suc n - l'))) (Suc n) (drop (Suc n) s)"
    unfolding dr longest_loop.simps Let_def L M by (rule refl)
  moreover have "\<exists>m'' l'' mx''. longest_loop (m(s ! n \<mapsto> int n)) (int l') (int (max mx (Suc n - l'))) (Suc n)
      (drop (Suc n) s) = int mx'' \<and> longest_inv s (length s) m'' l'' mx''"
    using Suc inv n by (intro Suc.hyps(1)) auto
  ultimately show ?case by simp
qed

lemma no_repeat_distinct: "i \<le> j \<Longrightarrow> j \<le> length s \<Longrightarrow> no_repeat s i j \<longleftrightarrow> distinct (drop i (take j s))"
proof
  assume ij: "i \<le> j" "j \<le> length s" and d: "distinct (drop i (take j s))"
  show "no_repeat s i j" unfolding no_repeat_def
  proof (intro allI impI)
    fix a b assume ab: "i \<le> a" "a < b" "b < j"
    then show "s ! a \<noteq> s ! b" using nth_eq_iff_index_eq [OF d, of "a - i" "b - i"] ij by auto
  qed
next
  assume ij: "i \<le> j" "j \<le> length s" and n: "no_repeat s i j"
  show "distinct (drop i (take j s))"
    unfolding distinct_conv_nth
  proof (intro allI impI)
    fix a b assume ab: "a < length (drop i (take j s))" "b < length (drop i (take j s))" "a \<noteq> b"
    then have "i + a < j" "i + b < j" using ij by auto
    with ab have "s ! (i + a) \<noteq> s ! (i + b)"
      using n [unfolded no_repeat_def, rule_format, of "i + a" "i + b"]
        n [unfolded no_repeat_def, rule_format, of "i + b" "i + a"] by (cases "a < b") auto
    then show "drop i (take j s) ! a \<noteq> drop i (take j s) ! b" using ab ij by simp
  qed
qed

lemma longest_distinct:
  "(\<exists>t. sublist t s \<and> distinct t \<and> LengthOfLongestSubstring s = int (length t)) \<and>
   (\<forall>t. sublist t s \<longrightarrow> distinct t \<longrightarrow> int (length t) \<le> LengthOfLongestSubstring s)"
proof -
  have "longest_inv s 0 Map.empty 0 0"
    by (auto simp: longest_inv_def last_index_def no_repeat_def)
  from longest_loop_inv [OF this] obtain m l mx where
    r: "LengthOfLongestSubstring s = int mx" and inv: "longest_inv s (length s) m l mx"
    by (auto simp: LengthOfLongestSubstring_def)
  obtain i j where ij: "i \<le> j" "j \<le> length s" "no_repeat s i j" "mx = j - i"
    using inv by (auto simp: longest_inv_def)
  have "sublist (drop i (take j s)) s"
    by (metis append_take_drop_id sublist_appendI append.assoc)
  then have "\<exists>t. sublist t s \<and> distinct t \<and> LengthOfLongestSubstring s = int (length t)"
    using ij no_repeat_distinct [OF ij(1,2)] r by (intro exI [of _ "drop i (take j s)"]) simp
  moreover have "int (length t) \<le> LengthOfLongestSubstring s" if "sublist t s" "distinct t" for t
  proof -
    obtain ps ss where ps: "s = ps @ t @ ss" using \<open>sublist t s\<close> by (auto simp: sublist_def)
    then have "drop (length ps) (take (length ps + length t) s) = t" by simp
    with that(2) have "no_repeat s (length ps) (length ps + length t)"
      using no_repeat_distinct [of "length ps" "length ps + length t" s] ps by simp
    then have "length ps + length t - length ps \<le> mx"
      using inv ps unfolding longest_inv_def by (metis le_add1 length_append nat_add_left_cancel_le)
    then show ?thesis using r by simp
  qed
  ultimately show ?thesis by blast
qed

section \<open>UTF-8\<close>

text \<open>
  What follows a first byte: how many bytes the encoding has and the range of the second one (the
  later ones are from 128 to 191); \<open>None\<close> for a byte that starts no encoding.
\<close>

definition utf8_first :: "nat \<Rightarrow> (nat \<times> nat \<times> nat) option" where
  "utf8_first b =
     (if 0xC2 \<le> b \<and> b \<le> 0xDF then Some (2, 0x80, 0xBF)
      else if b = 0xE0 then Some (3, 0xA0, 0xBF)
      else if b = 0xED then Some (3, 0x80, 0x9F)
      else if 0xE1 \<le> b \<and> b \<le> 0xEF then Some (3, 0x80, 0xBF)
      else if b = 0xF0 then Some (4, 0x90, 0xBF)
      else if 0xF1 \<le> b \<and> b \<le> 0xF3 then Some (4, 0x80, 0xBF)
      else if b = 0xF4 then Some (4, 0x80, 0x8F)
      else None)"

definition follows :: "nat \<Rightarrow> nat \<Rightarrow> nat list \<Rightarrow> bool" where
  "follows lo hi bs \<longleftrightarrow> bs \<noteq> [] \<and> lo \<le> hd bs \<and> hd bs \<le> hi \<and> (\<forall>b \<in> set (tl bs). 0x80 \<le> b \<and> b \<le> 0xBF)"

text \<open>The first rune and its width; a byte that is no encoding counts as U+FFFD of width one.\<close>

definition decode_rune :: "nat \<Rightarrow> nat list \<Rightarrow> nat \<times> nat" where
  "decode_rune b bs =
     (if b < 0x80 then (b, 1)
      else
        (case utf8_first b of
           None \<Rightarrow> (0xFFFD, 1)
         | Some (n, lo, hi) \<Rightarrow>
             let rest = take (n - 1) bs in
             if length rest = n - 1 \<and> follows lo hi rest
             then (foldl (\<lambda>r c. r * 64 + (c - 0x80)) (b mod 2 ^ (7 - n)) rest, n)
             else (0xFFFD, 1)))"

lemma decode_rune_width: "0 < snd (decode_rune b bs)"
  by (auto simp: decode_rune_def utf8_first_def Let_def)

function runes :: "nat list \<Rightarrow> nat list" where
  "runes [] = []"
| "runes (b # bs) = (let (r, w) = decode_rune b bs in r # runes (drop (w - 1) bs))"
  by pat_completeness auto
termination by (relation "measure length") auto

definition bytes :: "string \<Rightarrow> nat list" where
  "bytes s = map of_char s"

text \<open>\<open>string(b)\<close> for a byte \<open>b\<close>: the encoding of the character with that number.\<close>

definition string_of_byte :: "char \<Rightarrow> string" where
  "string_of_byte c =
     (let n = of_char c :: nat in
      if n < 0x80 then [c] else [char_of (0xC0 + n div 64 :: nat), char_of (0x80 + n mod 64 :: nat)])"

definition ascii :: "string \<Rightarrow> bool" where
  "ascii s \<longleftrightarrow> (\<forall>c \<in> set s. of_char c < (0x80 :: nat))"

lemma runes_ascii: "ascii s \<Longrightarrow> runes (bytes s) = bytes s"
  by (induction s) (simp_all add: ascii_def bytes_def decode_rune_def)

section \<open>Case difference\<close>

text \<open>The counters are bounded by the length of the text.\<close>

fun CaseDiff_loop :: "int \<Rightarrow> int \<Rightarrow> nat list \<Rightarrow> int" where
  "CaseDiff_loop upper lower [] = upper - lower"
| "CaseDiff_loop upper lower (ch # chs) =
     (if ch \<ge> 65 \<and> ch \<le> 90 then CaseDiff_loop (upper + 1) lower chs else CaseDiff_loop upper (lower + 1) chs)"

definition CaseDiff :: "string \<Rightarrow> int" where
  "CaseDiff typedText = CaseDiff_loop 0 0 (runes (bytes typedText))"

lemma CaseDiff_loop_count:
  "CaseDiff_loop u l chs =
     u - l + 2 * int (length (filter (\<lambda>ch. 65 \<le> ch \<and> ch \<le> 90) chs)) - int (length chs)"
  by (induction chs arbitrary: u l) auto

definition isUpper :: "char \<Rightarrow> bool" where
  "isUpper c \<longleftrightarrow> (65 :: nat) \<le> of_char c \<and> of_char c \<le> (90 :: nat)"

text \<open>Every character that is no capital letter counts as lower case, digits and blanks too.\<close>

lemma CaseDiff_counts:
  assumes "ascii s"
  shows "CaseDiff s = int (length (filter isUpper s)) - int (length (filter (\<lambda>c. \<not> isUpper c) s))"
proof -
  have "filter (\<lambda>ch. 65 \<le> ch \<and> ch \<le> 90) (bytes s) = map of_char (filter isUpper s)"
    by (simp add: bytes_def filter_map comp_def isUpper_def [abs_def])
  then have "CaseDiff s = 2 * int (length (filter isUpper s)) - int (length s)"
    unfolding CaseDiff_def CaseDiff_loop_count runes_ascii [OF assms] by (simp add: bytes_def)
  then show ?thesis using sum_length_filter_compl [of isUpper s] by linarith
qed

lemma CaseDiff_blank: "CaseDiff ''1 !'' = - 3"
  by code_simp

section \<open>Reversing the middle of words\<close>

definition isVowel :: "char \<Rightarrow> bool" where
  "isVowel c \<longleftrightarrow> c \<in> set ''aeiouAEIOU''"

text \<open>One word; the empty word panics at \<open>word[0]\<close>.\<close>

definition reverse_word :: "string \<Rightarrow> string option" where
  "reverse_word word =
     (let n = length word in
      if n = 0 then None
      else if isVowel (word ! 0) \<and> isVowel (word ! (n - 1)) then swap_loop word 1 (int n - 2)
      else Some word)"

fun ReverseMiddle :: "string list \<Rightarrow> string list option" where
  "ReverseMiddle [] = Some []"
| "ReverseMiddle (word # text) =
     (case reverse_word word of
        None \<Rightarrow> None
      | Some w \<Rightarrow> map_option ((#) w) (ReverseMiddle text))"

definition middle_reversed :: "string \<Rightarrow> string" where
  "middle_reversed w =
     (if isVowel (hd w) \<and> isVowel (last w) \<and> 2 \<le> length w then hd w # rev (butlast (tl w)) @ [last w] else w)"

lemma reverse_word_middle: "w \<noteq> [] \<Longrightarrow> reverse_word w = Some (middle_reversed w)"
proof -
  assume w: "w \<noteq> []"
  show ?thesis
  proof (cases "2 \<le> length w")
    case False
    with w have "length w = 1" by (cases w; cases "tl w") auto
    then show ?thesis by (auto simp: reverse_word_def middle_reversed_def swap_loop.simps)
  next
    case True
    then obtain a b bs where "w = a # b # bs" by (cases w; cases "tl w") auto
    then obtain as where a: "w = a # as" "as \<noteq> []" by blast
    then have split: "w = [a] @ butlast as @ [last as]" by simp
    have "swap_loop w 1 (int (length w) - 2) = Some ([a] @ rev (butlast as) @ [last as])"
      using swap_loop_mid [of "[a]" "butlast as" "[last as]"] a by (simp add: of_nat_diff)
    moreover have "Suc 0 \<le> length as" using a(2) by (cases as) auto
    ultimately show ?thesis using a
      by (simp add: reverse_word_def middle_reversed_def Let_def last_conv_nth hd_conv_nth)
  qed
qed

lemma ReverseMiddle_words:
  "ReverseMiddle ws = (if [] \<in> set ws then None else Some (map middle_reversed ws))"
proof (induction ws)
  case (Cons w ws)
  then show ?case by (cases "w = []") (auto simp: reverse_word_middle reverse_word_def [of "[]"])
qed simp

section \<open>Zigzag conversion\<close>

text \<open>The row of the byte at position \<open>i\<close>, and the loop that fills the rows.\<close>

definition zigzag_row :: "int \<Rightarrow> int \<Rightarrow> int \<Rightarrow> int" where
  "zigzag_row numRows cycle i = (let md = i smod cycle in if md < numRows then md else cycle - md)"

fun zigzag_loop :: "int \<Rightarrow> int \<Rightarrow> int \<Rightarrow> string list \<Rightarrow> string \<Rightarrow> string list option" where
  "zigzag_loop numRows cycle i rows [] = Some rows"
| "zigzag_loop numRows cycle i rows (c # cs) =
     (let row = zigzag_row numRows cycle i in
      if 0 \<le> row \<and> row < int (length rows) then
        zigzag_loop numRows cycle (i + 1) (rows[nat row := rows ! nat row @ string_of_byte c]) cs
      else None)"

text \<open>A negative length and an index out of range panic; memory is assumed to suffice.\<close>

definition Convert :: "string \<Rightarrow> int \<Rightarrow> string option" where
  "Convert s numRows =
     (if numRows = 1 then Some s
      else
        let cycle = i64 (2 * numRows - 2) in
        if numRows < 0 then None
        else map_option concat (zigzag_loop numRows cycle 0 (replicate (nat numRows) []) s))"

text \<open>The walk the zigzag is named after: down to the last row, up to the first, and again.\<close>

primrec walk :: "int \<Rightarrow> nat \<Rightarrow> int \<times> bool" where
  "walk n 0 = (0, True)"
| "walk n (Suc i) =
     (let (row, down) = walk n i in
      if down then (if row = n - 1 then (row - 1, False) else (row + 1, True))
      else (if row = 0 then (row + 1, True) else (row - 1, False)))"

lemma walk_row:
  assumes n: "2 \<le> n"
  defines "c \<equiv> 2 * n - 2"
  shows "walk n i =
    (zigzag_row n c (int i), i = 0 \<or> (0 < int i mod c \<and> int i mod c < n))"
proof (induction i)
  case 0
  then show ?case using n by (simp add: zigzag_row_def)
next
  case (Suc i)
  let ?m = "int i mod c"
  have c: "0 < c" "c = 2 * n - 2" using n by (simp_all add: c_def)
  have m: "0 \<le> ?m" "?m < c" using c by simp_all
  have row: "zigzag_row n c (int k) = (if int k mod c < n then int k mod c else c - int k mod c)" for k
    using c by (simp add: zigzag_row_def smod_pos Let_def)
  have step: "int (Suc i) mod c = (if ?m + 1 = c then 0 else ?m + 1)"
  proof -
    have "int (Suc i) mod c = (?m + 1) mod c" by (simp add: mod_add_right_eq add.commute)
    then show ?thesis using m by auto
  qed
  have zero: "i = 0 \<Longrightarrow> ?m = 0" by simp
  have "2 * n \<noteq> 3" by presburger
  note zero = zero this
  define m where "m = ?m"
  have "walk n (Suc i) =
      (if i = 0 \<or> (0 < ?m \<and> ?m < n)
       then (if zigzag_row n c (int i) = n - 1 then (zigzag_row n c (int i) - 1, False) else (zigzag_row n c (int i) + 1, True))
       else (if zigzag_row n c (int i) = 0 then (zigzag_row n c (int i) + 1, True) else (zigzag_row n c (int i) - 1, False)))"
    by (simp add: Suc.IH)
  also have "\<dots> = (zigzag_row n c (int (Suc i)), Suc i = 0 \<or> (0 < int (Suc i) mod c \<and> int (Suc i) mod c < n))"
    using m c n zero unfolding row step m_def [symmetric] by auto
  finally show ?case .
qed

definition row_text :: "(nat \<Rightarrow> int) \<Rightarrow> string \<Rightarrow> int \<Rightarrow> string" where
  "row_text row s r = concat (map (\<lambda>i. string_of_byte (s ! i)) (filter (\<lambda>i. row i = r) [0..<length s]))"

lemma zigzag_loop_rows:
  assumes "\<And>i. 0 \<le> zigzag_row n c (int i) \<and> zigzag_row n c (int i) < n" "length rows = nat n"
    "k \<le> length s"
    "\<forall>r < nat n. rows ! r = row_text (\<lambda>i. zigzag_row n c (int i)) (take k s) (int r)"
  shows "zigzag_loop n c (int k) rows (drop k s) =
    Some (map (\<lambda>r. row_text (\<lambda>i. zigzag_row n c (int i)) s (int r)) [0..<nat n])"
  using assms(2-)
proof (induction "length s - k" arbitrary: k rows)
  case 0
  then show ?case by (simp add: list_eq_iff_nth_eq)
next
  case (Suc d)
  then have k: "k < length s" by simp
  then have dr: "drop k s = s ! k # drop (Suc k) s" and tk: "take (Suc k) s = take k s @ [s ! k]"
    by (simp_all add: Cons_nth_drop_Suc take_Suc_conv_app_nth)
  let ?q = "zigzag_row n c (int k)"
  let ?rows = "rows[nat ?q := rows ! nat ?q @ string_of_byte (s ! k)]"
  have q: "0 \<le> ?q" "?q < int (length rows)" using assms(1) [of k] Suc.prems(1) by auto
  have grow: "row_text f (xs @ [x]) r = row_text f xs r @ (if f (length xs) = r then string_of_byte x else [])" for f xs x r
    by (auto simp: row_text_def nth_append intro!: arg_cong [of _ _ concat])
  have "zigzag_loop n c (int (Suc k)) ?rows (drop (Suc k) s) =
      Some (map (\<lambda>r. row_text (\<lambda>i. zigzag_row n c (int i)) s (int r)) [0..<nat n])"
  proof (rule Suc.hyps(1))
    show "\<forall>r < nat n. ?rows ! r = row_text (\<lambda>i. zigzag_row n c (int i)) (take (Suc k) s) (int r)"
      using Suc.prems q k by (auto simp: tk grow nth_list_update)
  qed (use Suc k in auto)
  then show ?case using q by (simp add: dr Let_def add.commute)
qed

lemma zigzag_row_range:
  assumes "2 \<le> n"
  shows "0 \<le> zigzag_row n (2 * n - 2) (int i) \<and> zigzag_row n (2 * n - 2) (int i) < n"
proof -
  have "0 \<le> (if m < n then m else 2 * n - 2 - m) \<and> (if m < n then m else 2 * n - 2 - m) < n"
    if "0 \<le> m" "m < 2 * n - 2" for m using assms that by auto
  from this [of "int i mod (2 * n - 2)"] show ?thesis
    using assms by (simp add: zigzag_row_def smod_pos Let_def)
qed

lemma Convert_walk:
  assumes "2 \<le> n" "n < 2 ^ 62"
  shows "Convert s n = Some (concat (map (\<lambda>r. row_text (\<lambda>i. fst (walk n i)) s (int r)) [0..<nat n]))"
proof -
  have "i64 (2 * n - 2) = 2 * n - 2" using assms by (intro i64_id) (simp add: in_i64_def)
  moreover have "zigzag_loop n (2 * n - 2) (int 0) (replicate (nat n) []) (drop 0 s) =
      Some (map (\<lambda>r. row_text (\<lambda>i. zigzag_row n (2 * n - 2) (int i)) s (int r)) [0..<nat n])"
    using zigzag_row_range [OF assms(1)] by (intro zigzag_loop_rows) (auto simp: row_text_def)
  ultimately show ?thesis using assms by (simp add: Convert_def walk_row)
qed

lemma string_of_byte_ascii: "of_char c < (0x80 :: nat) \<Longrightarrow> string_of_byte c = [c]"
  by (simp add: string_of_byte_def)

lemma row_text_ascii:
  assumes "ascii s"
  shows "row_text row s r = map ((!) s) (filter (\<lambda>i. row i = r) [0..<length s])"
proof -
  have "concat (map (\<lambda>i. string_of_byte (s ! i)) is') = map ((!) s) is'" if "set is' \<subseteq> {..<length s}" for is'
    using that assms by (induction is') (auto simp: ascii_def string_of_byte_ascii)
  then show ?thesis unfolding row_text_def by (rule meta_mp) auto
qed

text \<open>Sorting positions by their row keeps each of them.\<close>

lemma mset_by_rows:
  assumes "\<forall>i \<in> set ps. 0 \<le> row i \<and> row i < int n"
  shows "mset (concat (map (\<lambda>r. map f (filter (\<lambda>i. row i = int r) ps)) [0..<n])) = mset (map f ps)"
  using assms
proof (induction ps)
  case Nil
  have "concat (map (\<lambda>r. []) [0..<n]) = []" by (induction n) auto
  then show ?case by simp
next
  case (Cons i ps)
  have split: "mset (concat (map (\<lambda>r. map f (filter (\<lambda>j. row j = int r) (i # ps))) rs)) =
      mset (concat (map (\<lambda>r. map f (filter (\<lambda>j. row j = int r) ps)) rs)) +
      mset (concat (map (\<lambda>r. if row i = int r then [f i] else []) rs))" for rs
    by (induction rs) auto
  have one: "concat (map (\<lambda>r. if row i = int r then [f i] else []) [0..<m]) = (if row i < int m then [f i] else [])" for m
    using Cons.prems by (induction m) auto
  from Cons show ?case unfolding split one by simp
qed

section \<open>Differences between predictions\<close>

text \<open>
  \<open>json.Unmarshal\<close> is a parameter: the entries of the decoded map in the order in which \<open>range\<close>
  visits them (empty when the text is no such object; the code ignores the error).
\<close>

fun diff_keys :: "(string \<times> string) list \<Rightarrow> (string \<rightharpoonup> string) \<Rightarrow> string list" where
  "diff_keys [] entries2 = []"
| "diff_keys ((key, val1) # es) entries2 =
     (case entries2 key of
        Some val2 \<Rightarrow> if val1 \<noteq> val2 then key # diff_keys es entries2 else diff_keys es entries2
      | None \<Rightarrow> diff_keys es entries2)"

definition GetPredictionDiff :: "(string \<Rightarrow> (string \<times> string) list) \<Rightarrow> string \<Rightarrow> string \<Rightarrow> string list" where
  "GetPredictionDiff unmarshal pred1 pred2 = sort (diff_keys (unmarshal pred1) (map_of (unmarshal pred2)))"

lemma set_diff_keys:
  "distinct (map fst es) \<Longrightarrow>
   set (diff_keys es m) = {k. \<exists>v w. map_of es k = Some v \<and> m k = Some w \<and> v \<noteq> w} \<and> distinct (diff_keys es m)"
proof (induction es)
  case (Cons e es)
  then have "set (diff_keys es m) \<subseteq> fst ` set es" by (force dest: map_of_SomeD)
  with Cons show ?case by (cases e) (auto split: option.splits if_splits dest: map_of_SomeD)
qed simp

lemma PredictionDiff_keys:
  assumes "distinct (map fst (unmarshal p))"
  shows "set (GetPredictionDiff unmarshal p q) =
      {k. \<exists>v w. map_of (unmarshal p) k = Some v \<and> map_of (unmarshal q) k = Some w \<and> v \<noteq> w} \<and>
    sorted (GetPredictionDiff unmarshal p q) \<and> distinct (GetPredictionDiff unmarshal p q)"
  using set_diff_keys [OF assms] by (simp add: GetPredictionDiff_def)

text \<open>Outside ASCII the bytes of a character are encoded anew, and without rows the index panics.\<close>

lemma Convert_non_ascii: "Convert [CHR 0xC3, CHR 0xA9] 2 = Some [CHR 0xC3, CHR 0x83, CHR 0xC2, CHR 0xA9]"
  by code_simp

lemma Convert_no_rows: "s \<noteq> [] \<Longrightarrow> Convert s 0 = None"
  by (cases s) (auto simp: Convert_def Let_def)

end
