(* ===== verification/Newspaper.thy ===== *)
theory Newspaper
  imports GoPrelude
begin

text \<open>
  The page formatter of \<open>newspaper_formatter.go\<close>: word wrap, centering and the border.  \<open>None\<close> is
  the panic of \<open>strings.Repeat\<close> on a negative count.
\<close>

definition go_Repeat :: "string \<Rightarrow> int \<Rightarrow> string option" where
  "go_Repeat s n = (if n < 0 then None else Some (concat (replicate (nat n) s)))"

text \<open>The words of a paragraph, wrapped into lines; \<open>current\<close> is the line under construction.\<close>

fun wrap_words :: "int \<Rightarrow> string \<Rightarrow> string list \<Rightarrow> string list" where
  "wrap_words width current [] = (if current \<noteq> [] then [current] else [])"
| "wrap_words width current (word # para) =
     (if current = [] then wrap_words width word para
      else if int (length current) + 1 + int (length word) \<le> width then
        wrap_words width (current @ '' '' @ word) para
      else current # wrap_words width word para)"

definition center_line :: "int \<Rightarrow> string \<Rightarrow> string option" where
  "center_line width line =
     (let leftover = i64 (width - int (length line));
          leading = leftover sdiv 2;
          trailing = leftover - leading
      in case go_Repeat '' '' leading of
           None \<Rightarrow> None
         | Some a \<Rightarrow>
             (case go_Repeat '' '' trailing of
                None \<Rightarrow> None
              | Some b \<Rightarrow> Some (''*'' @ a @ line @ b @ ''*'')))"

fun center_lines :: "int \<Rightarrow> string list \<Rightarrow> string list option" where
  "center_lines width [] = Some []"
| "center_lines width (line # ls) =
     (case center_line width line of
        None \<Rightarrow> None
      | Some l \<Rightarrow> map_option ((#) l) (center_lines width ls))"

fun paragraph_lines :: "int \<Rightarrow> string list list \<Rightarrow> string list option" where
  "paragraph_lines width [] = Some []"
| "paragraph_lines width (para # paragraphs) =
     (case center_lines width (wrap_words width [] para) of
        None \<Rightarrow> None
      | Some ls \<Rightarrow> map_option ((@) ls) (paragraph_lines width paragraphs))"

definition formatNewspaper :: "string list list \<Rightarrow> int \<Rightarrow> string list option" where
  "formatNewspaper paragraphs width =
     (case go_Repeat ''*'' (i64 (width + 2)) of
        None \<Rightarrow> None
      | Some border \<Rightarrow>
          map_option (\<lambda>ls. [border] @ ls @ [border]) (paragraph_lines width paragraphs))"

section \<open>Wrapping\<close>

fun unwords :: "string list \<Rightarrow> string" where
  "unwords [] = []"
| "unwords [w] = w"
| "unwords (w # ws) = w @ '' '' @ unwords ws"

lemma unwords_Cons: "ws \<noteq> [] \<Longrightarrow> unwords (w # ws) = w @ '' '' @ unwords ws"
  by (cases ws) simp_all

lemma unwords_join: "unwords ((u @ '' '' @ w) # ws) = unwords (u # w # ws)"
  by (cases ws) simp_all

lemma wrap_words_Nil [simp]: "wrap_words width current para = [] \<longleftrightarrow> current = [] \<and> (\<forall>w \<in> set para. w = [])"
  by (induction width current para rule: wrap_words.induct) auto

lemma unwords_wrap:
  "current \<noteq> [] \<Longrightarrow> [] \<notin> set para \<Longrightarrow> unwords (wrap_words width current para) = unwords (current # para)"
proof (induction width current para rule: wrap_words.induct)
  case (2 width current word para)
  show ?case
  proof (cases "int (length current) + 1 + int (length word) \<le> width")
    case True
    with 2 have "unwords (wrap_words width current (word # para)) = unwords ((current @ '' '' @ word) # para)"
      by simp
    then show ?thesis by (simp only: unwords_join)
  next
    case False
    then have "wrap_words width current (word # para) = current # wrap_words width word para"
      using 2(4) by simp
    moreover have "unwords (wrap_words width word para) = unwords (word # para)" using 2 False by auto
    moreover have "wrap_words width word para \<noteq> []" using 2(5) by auto
    ultimately show ?thesis by (simp add: unwords_Cons)
  qed
qed simp

lemma unwords_wrap_all: "[] \<notin> set para \<Longrightarrow> unwords (wrap_words width [] para) = unwords para"
  by (cases para) (auto simp: unwords_wrap)

lemma wrap_words_fit:
  "int (length current) \<le> width \<Longrightarrow> \<forall>w \<in> set para. int (length w) \<le> width \<Longrightarrow>
   \<forall>l \<in> set (wrap_words width current para). int (length l) \<le> width"
  by (induction width current para rule: wrap_words.induct) auto

text \<open>A word that is too long ends up on a line that is too long.\<close>

lemma wrap_words_long:
  "int (length current) > width \<or> (\<exists>w \<in> set para. int (length w) > width) \<Longrightarrow> 0 \<le> width \<Longrightarrow>
   \<exists>l \<in> set (wrap_words width current para). int (length l) > width"
proof (induction width current para rule: wrap_words.induct)
  case (2 width current word para)
  show ?case
  proof (cases "current = []")
    case True
    with 2 show ?thesis by auto
  next
    case False
    show ?thesis
    proof (cases "int (length current) + 1 + int (length word) \<le> width")
      case fits: True
      with 2(2) [OF False fits] 2(4,5) False show ?thesis by auto
    next
      case long: False
      with 2(3) [OF False long] 2(4,5) False show ?thesis by auto
    qed
  qed
qed auto

text \<open>
  A line is broken only where the next word does not fit: each line is followed by one that starts
  with a word too long to be appended.
\<close>

fun greedy :: "int \<Rightarrow> string list \<Rightarrow> bool" where
  "greedy width (l # m # ls) \<longleftrightarrow>
     width < int (length l) + 1 + int (length (takeWhile (\<lambda>c. c \<noteq> CHR '' '') m)) \<and> greedy width (m # ls)"
| "greedy width ls \<longleftrightarrow> True"

definition plain_word :: "string \<Rightarrow> bool" where
  "plain_word w \<longleftrightarrow> w \<noteq> [] \<and> CHR '' '' \<notin> set w"

abbreviation first_word :: "string \<Rightarrow> string" where
  "first_word l \<equiv> takeWhile (\<lambda>c. c \<noteq> CHR '' '') l"

lemma first_word_wrap:
  "current \<noteq> [] \<Longrightarrow> \<forall>w \<in> set para. plain_word w \<Longrightarrow> first_word (hd (wrap_words width current para)) = first_word current"
proof (induction width current para rule: wrap_words.induct)
  case (2 width current word para)
  have "first_word (current @ '' '' @ word) = first_word current" by (induction current) auto
  with 2 show ?case by auto
qed simp

lemma greedy_Cons:
  "ls \<noteq> [] \<Longrightarrow> width < int (length l) + 1 + int (length (first_word (hd ls))) \<Longrightarrow> greedy width ls \<Longrightarrow>
   greedy width (l # ls)"
  by (cases ls) auto

lemma greedy_wrap:
  "\<forall>w \<in> set para. plain_word w \<Longrightarrow> greedy width (wrap_words width current para)"
proof (induction width current para rule: wrap_words.induct)
  case (2 width current word para)
  have w: "word \<noteq> []" "first_word word = word" using 2(4) by (auto simp: plain_word_def takeWhile_eq_all_conv)
  consider "current = []" | "current \<noteq> []" "int (length current) + 1 + int (length word) \<le> width"
    | (break) "current \<noteq> []" "\<not> int (length current) + 1 + int (length word) \<le> width" by blast
  then show ?case
  proof cases
    case 1
    with 2(1) 2(4) show ?thesis by simp
  next
    case fits: 2
    with 2(2) 2(4) show ?thesis by simp
  next
    case break
    then have "greedy width (current # wrap_words width word para)"
    proof (intro greedy_Cons)
      show "wrap_words width word para \<noteq> []" using w by simp
      have "first_word (hd (wrap_words width word para)) = word"
        using first_word_wrap [of word para width] w 2(4) by simp
      with break show "width < int (length current) + 1 + int (length (first_word (hd (wrap_words width word para))))"
        by simp
      show "greedy width (wrap_words width word para)" using 2(3) [OF break] 2(4) by simp
    qed
    with break show ?thesis by simp
  qed
qed simp

section \<open>The page\<close>

text \<open>A line in its frame: the surplus blank goes to the right.\<close>

definition framed :: "int \<Rightarrow> string \<Rightarrow> string" where
  "framed width line =
     (let n = nat width - length line
      in ''*'' @ replicate (n div 2) CHR '' '' @ line @ replicate (n - n div 2) CHR '' '' @ ''*'')"

lemma go_Repeat_char: "0 \<le> n \<Longrightarrow> go_Repeat [c] n = Some (replicate (nat n) c)"
  by (simp add: go_Repeat_def concat_replicate_single)

lemma center_line_framed:
  assumes "int (length line) \<le> width" "width < 2 ^ 62"
  shows "center_line width line = Some (framed width line)"
proof -
  define n where "n = nat width - length line"
  have n: "i64 (width - int (length line)) = int n"
    using assms by (subst i64_id) (auto simp: in_i64_def n_def)
  have half: "int n sdiv 2 = int (n div 2)" by (simp add: sdiv_pos)
  have rest: "int n - int (n div 2) = int (n - n div 2)" by (simp add: of_nat_diff)
  show ?thesis
    unfolding center_line_def n half Let_def rest by (simp add: go_Repeat_char framed_def Let_def n_def)
qed

lemma center_line_panics:
  assumes "width < int (length line)" "0 \<le> width" "int (length line) < 2 ^ 62"
  shows "center_line width line = None"
proof -
  define n where "n = int (length line) - width"
  have n: "i64 (width - int (length line)) = - n" "0 < n"
    using assms by (simp_all add: in_i64_def n_def)
  have half: "(- n) sdiv 2 = - (n div 2)" using n(2) by (simp add: sdiv_smod_neg sdiv_pos)
  have "- n - - (n div 2) < 0" using n(2) by simp
  then show ?thesis unfolding center_line_def n(1) half Let_def by (simp add: go_Repeat_def)
qed

lemma center_lines_framed:
  "\<forall>l \<in> set ls. int (length l) \<le> width \<Longrightarrow> width < 2 ^ 62 \<Longrightarrow>
   center_lines width ls = Some (map (framed width) ls)"
  by (induction ls) (simp_all add: center_line_framed)

lemma center_lines_panics:
  "\<exists>l \<in> set ls. width < int (length l) \<Longrightarrow> 0 \<le> width \<Longrightarrow> \<forall>l \<in> set ls. int (length l) < 2 ^ 62 \<Longrightarrow>
   center_lines width ls = None"
  by (induction ls) (auto simp: center_line_panics split: option.split)

lemma length_framed: "int (length line) \<le> width \<Longrightarrow> int (length (framed width line)) = width + 2"
  by (simp add: framed_def Let_def)

lemma paragraph_lines_framed:
  assumes "width < 2 ^ 62" "0 \<le> width" "\<forall>para \<in> set paras. \<forall>w \<in> set para. int (length w) \<le> width"
  shows "paragraph_lines width paras =
    Some (map (framed width) (concat (map (wrap_words width []) paras)))"
  using assms(3)
proof (induction paras)
  case (Cons para paras)
  then have "\<forall>l \<in> set (wrap_words width [] para). int (length l) \<le> width"
    using assms(2) by (intro wrap_words_fit) auto
  with Cons assms(1) show ?case by (simp add: center_lines_framed)
qed simp

lemma paragraph_lines_panics:
  assumes "0 \<le> width" "para \<in> set paras" "w \<in> set para" "width < int (length w)"
    "\<forall>para \<in> set paras. \<forall>l \<in> set (wrap_words width [] para). int (length l) < 2 ^ 62"
  shows "paragraph_lines width paras = None"
  using assms(2,5)
proof (induction paras)
  case (Cons p paras)
  show ?case
  proof (cases "p = para")
    case True
    have "\<exists>l \<in> set (wrap_words width [] para). width < int (length l)"
      using wrap_words_long [of width "[]" para] assms by auto
    then have "center_lines width (wrap_words width [] p) = None"
      using True Cons.prems assms(1) by (intro center_lines_panics) auto
    then show ?thesis by simp
  next
    case False
    with Cons show ?thesis by (auto split: option.split)
  qed
qed simp

end
