(* ===== verification/PkgProperties.thy ===== *)
theory PkgProperties
  imports LinkedList PkgNumbers PkgStrings Newspaper
begin

text \<open>The properties of the routines of \<open>pkg/\<close> and of the page formatter.\<close>

section \<open>Linked list\<close>

text \<open>C33. Any sequence of \<open>InsertFront\<close>, \<open>InsertBack\<close> and \<open>Delete\<close> on an empty list returns (no walk
  along the nodes runs forever), the nodes then represent what the same sequence does to a plain
  list (cons, append, removal of the first occurrence), and \<open>Print\<close> writes exactly that list.\<close>

theorem list_ops_refine:
  "\<exists>s. list_ops os (h, empty_linked_list) = Some s \<and> represents s (fold spec_op os []) \<and>
    Print int_dec s = Some (shown int_dec (fold spec_op os []))"
  using list_ops_represents [OF represents_empty, of os h] Print_represents by blast

section \<open>Numbers\<close>

text \<open>C39. \<open>AddNumbers\<close> returns the digits of the sum: for lists of decimal digits of any lengths the
  result is again a list of digits, its value is the sum of the values, and it is at most one digit
  longer than the longer summand.\<close>

theorem AddNumbers_adds:
  assumes "digit_list (node_list l1)" "digit_list (node_list l2)"
  shows "value_of (node_list (AddNumbers l1 l2)) = value_of (node_list l1) + value_of (node_list l2) \<and>
    digit_list (node_list (AddNumbers l1 l2)) \<and>
    (let n = max (length (node_list l1)) (length (node_list l2)); r = length (node_list (AddNumbers l1 l2))
     in n \<le> r \<and> r \<le> n + 1)"
  using add_loop_correct [OF assms, of 0] by (simp add: AddNumbers_def)

definition nodes :: "int list \<Rightarrow> list_node option" where
  "nodes ds = foldr (\<lambda>d n. Some (ListNode d n)) ds None"

theorem AddNumbers_adds_witness:
  "value_of (node_list (AddNumbers (nodes [9, 9, 9]) (nodes [1]))) = 1000"
  using AddNumbers_adds [of "nodes [9, 9, 9]" "nodes [1]"] by (simp add: nodes_def digit_list_def)

text \<open>C38. \<open>Reverse\<close> returns the integer with the decimal digits of its argument in the opposite order
  and the same sign when that fits into 32 bits, and zero otherwise; so reversing twice is the
  identity on the 32-bit integers that do not end in zero and whose reversal fits.\<close>

theorem Reverse_exact:
  "Reverse x = (if in_int32 (reversed x) then reversed x else 0) \<and>
   (in_int32 x \<longrightarrow> x mod 10 \<noteq> 0 \<longrightarrow> Reverse x \<noteq> 0 \<longrightarrow> Reverse (Reverse x) = x)"
  using Reverse_reversed [of x] Reverse_reversed [of "Reverse x"] reversed_reversed [of x] by auto

theorem Reverse_exact_witness: "Reverse (Reverse (- 1234567)) = - 1234567"
proof -
  have "Reverse (- 1234567) \<noteq> 0" by code_simp
  moreover have "in_int32 (- 1234567)" "(- 1234567) mod 10 \<noteq> (0 :: int)" by (simp_all add: in_int32_def)
  ultimately show ?thesis using conjunct2 [OF Reverse_exact [of "- 1234567"]] by blast
qed

text \<open>\<open>BinaryGap\<close> of a non-negative integer is the greatest number of zeros between two
  neighbouring ones of its binary representation, and zero when there are no two ones.\<close>

theorem BinaryGap_longest:
  assumes "0 \<le> n"
  shows "(\<forall>p k. gap_at n p k \<longrightarrow> int k \<le> BinaryGap n) \<and>
    (BinaryGap n = 0 \<or> (\<exists>p k. gap_at n p k \<and> BinaryGap n = int k))"
  using BinaryGap_greatest [OF assms] by (auto simp: greatest_of_def gaps_def)

theorem BinaryGap_longest_witness: "2 \<le> BinaryGap 9"
proof -
  have "gap_at 9 0 2" unfolding gap_at_def by (auto simp: bit_iff_odd less_Suc_eq numeral_eq_Suc)
  then show ?thesis using BinaryGap_longest [of 9] by force
qed

section \<open>Slices\<close>

text \<open>C34. \<open>SubarraySum\<close> counts the non-empty contiguous subarrays whose sum is \<open>k\<close>, each pair of end
  points once; sums and count are the 64-bit ones.\<close>

theorem SubarraySum_counts:
  assumes "in_i64 k"
  shows "SubarraySum nums k =
    i64 (int (card {(i, j). i < j \<and> j \<le> length nums \<and> i64 (sum_list (drop i (take j nums))) = k}))"
  using SubarraySum_counts_hits [OF assms] by (simp add: hits_def)

theorem SubarraySum_counts_witness:
  "i64 (int (card {(i, j). i < j \<and> j \<le> length [1, - 1, 0] \<and> i64 (sum_list (drop i (take j [1, - 1, 0]))) = 0})) = 3"
proof -
  have "SubarraySum [1, - 1, 0] 0 = 3" by code_simp
  then show ?thesis using SubarraySum_counts [of 0 "[1, - 1, 0]"] by (simp only: in_i64_def) simp
qed

text \<open>C36. \<open>MinDeletionsToSorted\<close> is the least number of deletions that leave a non-decreasing slice:
  some subsequence of that many entries fewer is sorted, and every sorted subsequence lacks at
  least as many.  The binary search in the loop always finds the first tail above the entry.\<close>

theorem MinDeletions_least:
  "(\<exists>ys. subseq ys A \<and> sorted ys \<and> MinDeletionsToSorted A = int (length A) - int (length ys)) \<and>
   (\<forall>ys. subseq ys A \<longrightarrow> sorted ys \<longrightarrow> MinDeletionsToSorted A \<le> int (length A) - int (length ys))"
  using MinDeletions_longest [of A] by (simp add: chain_of_def)

theorem MinDeletions_least_witness: "MinDeletionsToSorted [5, 1, 3, 2, 6] \<le> 2"
proof -
  have "subseq [1, 3, 6] [5, 1, 3, 2, 6 :: int]" "sorted [1, 3, 6 :: int]" by simp_all
  then show ?thesis using conjunct2 [OF MinDeletions_least [of "[5, 1, 3, 2, 6]"]] by fastforce
qed

text \<open>C37. \<open>MinOperations\<close> is the least total raise that turns the structures into a staircase, ascending or
  descending by one: some staircase above them costs that much and none costs less, for sizes and numbers
  of structures up to \<open>2 ^ 30\<close>, where the 64-bit sums are exact.\<close>

theorem MinOperations_least:
  assumes "moderate ss"
  shows "(\<exists>ts. stepwise ts \<and> raised ss ts \<and> MinOperations ss = price ss ts) \<and>
    (\<forall>ts. stepwise ts \<longrightarrow> raised ss ts \<longrightarrow> MinOperations ss \<le> price ss ts)"
  using MinOperations_cheapest [OF assms] by blast

theorem MinOperations_least_witness: "MinOperations [5, 7, 9, 4, 11] \<le> 9"
proof -
  have "moderate [5, 7, 9, 4, 11]" by (simp add: moderate_def)
  moreover have "stepwise [7, 8, 9, 10, 11]" "raised [5, 7, 9, 4, 11] [7, 8, 9, 10, 11]"
    by (simp_all add: stepwise_def stairs_def raised_def less_Suc_eq all_conj_distrib numeral_eq_Suc)
  ultimately have "MinOperations [5, 7, 9, 4, 11] \<le> price [5, 7, 9, 4, 11] [7, 8, 9, 10, 11]"
    using MinOperations_least by blast
  then show ?thesis by (simp add: price_def)
qed

text \<open>\<open>TwoSum\<close> returns the pair with the least second index whose numbers add up to the target, with
  the nearest first index, and the empty slice exactly when there is no pair.\<close>

theorem TwoSum_first_pair:
  assumes "\<forall>x \<in> set nums. in_i64 x" "in_i64 target"
  shows "(TwoSum nums target = [] \<and> (\<forall>i j. \<not> pair_at nums target i j)) \<or>
    (\<exists>i j. TwoSum nums target = [int i, int j] \<and> pair_at nums target i j \<and>
      (\<forall>i' j'. j' < j \<longrightarrow> \<not> pair_at nums target i' j') \<and> (\<forall>i'. i < i' \<longrightarrow> \<not> pair_at nums target i' j))"
  using TwoSum_first [OF assms] unfolding first_pair_def .

theorem TwoSum_first_pair_witness: "TwoSum [2, 7, 11, 15] 9 \<noteq> []"
proof -
  have "pair_at [2, 7, 11, 15] 9 0 1" by (simp add: pair_at_def in_i64_def)
  moreover have "\<forall>x \<in> set [2, 7, 11, 15]. in_i64 x" "in_i64 9" by (simp_all add: in_i64_def)
  ultimately show ?thesis using TwoSum_first_pair [of "[2, 7, 11, 15]" 9] by auto
qed

section \<open>Strings\<close>

text \<open>C35. \<open>LengthOfLongestSubstring\<close> is the length of the longest contiguous part of the string without
  a repeated byte.\<close>

theorem LongestSubstring_longest:
  "(\<exists>t. sublist t s \<and> distinct t \<and> LengthOfLongestSubstring s = int (length t)) \<and>
   (\<forall>t. sublist t s \<longrightarrow> distinct t \<longrightarrow> int (length t) \<le> LengthOfLongestSubstring s)"
  by (rule longest_distinct)

theorem LongestSubstring_longest_witness: "3 \<le> LengthOfLongestSubstring ''pwwkew''"
proof -
  have "sublist ''wke'' ''pwwkew''" using sublist_appendI [of "''wke''" "''pw''" "''w''"] by simp
  then have "int (length ''wke'') \<le> LengthOfLongestSubstring ''pwwkew''"
    using conjunct2 [OF LongestSubstring_longest [of "''pwwkew''"], rule_format, of "''wke''"] by simp
  then show ?thesis by simp
qed

text \<open>\<open>Convert\<close> with at least two rows distributes the bytes of an ASCII string by the row the zigzag
  walk visits, keeps the order within a row, puts the rows one after the other and so loses and
  invents no byte; one row changes nothing.\<close>

theorem Convert_zigzag:
  assumes "2 \<le> n" "n < 2 ^ 62" "ascii s"
  shows "(\<exists>r. Convert s n = Some r \<and>
      r = concat (map (\<lambda>k. map ((!) s) (filter (\<lambda>i. fst (walk n i) = int k) [0..<length s])) [0..<nat n]) \<and>
      mset r = mset s) \<and>
    Convert s 1 = Some s"
proof -
  have rng: "\<forall>i \<in> set [0..<length s]. 0 \<le> fst (walk n i) \<and> fst (walk n i) < int (nat n)"
    using zigzag_row_range [OF assms(1)] assms(1) by (simp add: walk_row)
  have "mset (map ((!) s) [0..<length s]) = mset s" by (simp only: map_nth)
  with mset_by_rows [OF rng, of "(!) s"] show ?thesis
    using Convert_walk [OF assms(1,2), of s] by (simp add: row_text_ascii [OF assms(3)] Convert_def)
qed

theorem Convert_zigzag_witness: "mset (the (Convert ''PAYPALISHIRING'' 3)) = mset ''PAYPALISHIRING''"
proof -
  have "ascii ''PAYPALISHIRING''" by (simp add: ascii_def)
  from Convert_zigzag [OF _ _ this, of 3] show ?thesis by (auto simp del: mset.simps)
qed

section \<open>The newspaper page\<close>

text \<open>C40. When every word fits the width, \<open>formatNewspaper\<close> returns a page with the border above and
  below in which every line is exactly two wider than the text; paragraph by paragraph the lines
  hold the words in their order, and a line is broken only where the next word does not fit.\<close>

theorem formatNewspaper_page:
  assumes "0 \<le> width" "width < 2 ^ 62"
    "\<forall>para \<in> set paras. \<forall>w \<in> set para. plain_word w \<and> int (length w) \<le> width"
  shows "\<exists>lss border. border = replicate (nat width + 2) CHR ''*'' \<and> length lss = length paras \<and>
    formatNewspaper paras width = Some ([border] @ map (framed width) (concat lss) @ [border]) \<and>
    (\<forall>i < length paras. unwords (lss ! i) = unwords (paras ! i) \<and> greedy width (lss ! i)) \<and>
    (\<forall>l \<in> set (concat lss). int (length l) \<le> width \<and> int (length (framed width l)) = width + 2)"
proof -
  let ?lss = "map (wrap_words width []) paras"
  let ?b = "replicate (nat width + 2) CHR ''*''"
  have w2: "i64 (width + 2) = width + 2" using assms by (intro i64_id) (simp add: in_i64_def)
  have "go_Repeat ''*'' (i64 (width + 2)) = Some ?b"
    unfolding w2 using assms(1) by (subst go_Repeat_char) (simp_all add: nat_add_distrib)
  then have page: "formatNewspaper paras width = Some ([?b] @ map (framed width) (concat ?lss) @ [?b])"
    using paragraph_lines_framed [of width paras] assms by (simp add: formatNewspaper_def)
  have words: "unwords (?lss ! i) = unwords (paras ! i) \<and> greedy width (?lss ! i)" if "i < length paras" for i
  proof -
    have "\<forall>w \<in> set (paras ! i). plain_word w" using assms(3) nth_mem [OF that] by blast
    then show ?thesis using that by (auto simp: unwords_wrap_all greedy_wrap plain_word_def)
  qed
  have fit: "int (length l) \<le> width" if l: "l \<in> set (concat ?lss)" for l
  proof -
    obtain para where "para \<in> set paras" "l \<in> set (wrap_words width [] para)" using l by auto
    then show ?thesis using wrap_words_fit [of "[]" width para] assms by simp
  qed
  have shape: "\<forall>l \<in> set (concat ?lss). int (length l) \<le> width \<and> int (length (framed width l)) = width + 2"
    using fit length_framed by blast
  have "length ?lss = length paras" by simp
  with page words shape show ?thesis by blast
qed

theorem formatNewspaper_page_witness: "formatNewspaper [[''hello'', ''world''], [''How'', ''areYou'', ''doing'']] 16 \<noteq> None"
  using formatNewspaper_page [of 16 "[[''hello'', ''world''], [''How'', ''areYou'', ''doing'']]"]
  by (simp add: plain_word_def) auto

text \<open>A word wider than the page makes the centering panic.\<close>

lemma formatNewspaper_panics:
  assumes "0 \<le> width" "para \<in> set paras" "w \<in> set para" "width < int (length w)"
    "\<forall>para \<in> set paras. \<forall>l \<in> set (wrap_words width [] para). int (length l) < 2 ^ 62"
  shows "formatNewspaper paras width = None"
  using paragraph_lines_panics [OF assms] by (simp add: formatNewspaper_def split: option.split)

lemma formatNewspaper_panics_at: "formatNewspaper [[''newspaper'']] 8 = None"
  by code_simp

end
