(* ===== verification/Demos.thy ===== *)
theory Demos
  imports PkgProperties LimiterProperties
begin

text \<open>
  The demonstrations \<open>Run...\<close> of \<open>pkg/\<close> as the text they print, with their tables of cases, and the
  dispatch of \<open>cmd/main.go\<close>.  A panic is \<open>None\<close>.  \<open>RunRateLimiter\<close> takes the readings of its clock;
  \<open>RunWorkerPool\<close>, which depends on the scheduler, is an opaque action of the dispatch (its runs are
  those of \<open>WorkerPoolProperties\<close>).
\<close>

section \<open>Tables and reports\<close>

text \<open>The check mark and the cross in UTF-8.\<close>

definition tick :: "bool \<Rightarrow> string" where
  "tick ok = [CHR 0xE2, CHR 0x9C, if ok then CHR 0x93 else CHR 0x97]"

definition heading :: "string \<Rightarrow> string" where
  "heading title = println ([CHR 0x0A] @ ''=== '' @ title @ '' ==='')"

definition report :: "('a \<Rightarrow> string) \<Rightarrow> 'a list \<Rightarrow> string" where
  "report line cases = concat (map (\<lambda>tc. println (line tc)) cases)"

definition add_cases :: "(string \<times> int list \<times> int list) list" where
  "add_cases = [(''342 + 465 = '', [2, 4, 3], [5, 6, 4]), (''0 + 0 = '', [0], [0]), (''999 + 1 = '', [9, 9, 9], [1])]"

definition RunAddTwoNumbers :: string where
  "RunAddTwoNumbers =
     heading ''Add Two Numbers'' @
     concat (map (\<lambda>(label, l1, l2). label @ PrintList (AddNumbers (nodes l1) (nodes l2))) add_cases)"

definition gap_cases :: "(int \<times> int) list" where
  "gap_cases = [(5, 1), (8, 0), (6, 0), (9, 2), (22, 1), (1, 0), (1024, 0), (529, 4), (1041, 5)]"

definition RunBinaryGap :: string where
  "RunBinaryGap =
     heading ''Binary Gap'' @
     report (\<lambda>(input, expected). let result = BinaryGap input in
       tick (result = expected) @ '' Input: '' @ int_dec input @ '' (binary: '' @ int_bin input @ ''), Expected: '' @
       int_dec expected @ '', Got: '' @ int_dec result) gap_cases"

definition case_cases :: "(string \<times> int) list" where
  "case_cases = [(''CodeSignal'', - 6), (''a'', - 1), (''AbCdEf'', 0)]"

definition RunCaseDiff :: string where
  "RunCaseDiff =
     heading ''Case Diff'' @
     report (\<lambda>(input, expected). let result = CaseDiff input in
       tick (result = expected) @ '' Input: '' @ go_quote input @ '', Expected: '' @ int_dec expected @
       '', Got: '' @ int_dec result) case_cases"

definition fee_months :: "int list list" where
  "fee_months = [[120, - 40, - 35, - 30, 15], [- 20, - 20, - 20, 10], [- 50, - 25, - 30, - 10, 100], [200, - 10, - 5]]"

definition RunFeeWaiver :: string where
  "RunFeeWaiver =
     (let (out, result) = MonthlyFee (Some fee_months)
      in heading ''Fee Waiver'' @ concat out @ println (''Total yearly fee: '' @ int_dec result))"

definition longest_cases :: "(string \<times> int) list" where
  "longest_cases = [(''abcabcbb'', 3), (''bbbbb'', 1), (''pwwkew'', 3), (''au'', 2)]"

definition RunLengthOfLongestSubstring :: string where
  "RunLengthOfLongestSubstring =
     heading ''Length of Longest Substring'' @
     report (\<lambda>(input, expected). let result = LengthOfLongestSubstring input in
       tick (result = expected) @ '' Input: '' @ go_quote input @ '', Expected: '' @ int_dec expected @
       '', Got: '' @ int_dec result) longest_cases"

definition deletion_cases :: "(int list \<times> int) list" where
  "deletion_cases = [([5, 1, 3, 2, 6], 2), ([1, 2, 3, 4, 5], 0), ([5, 4, 3, 2, 1], 4), ([2, 2, 2, 2], 0), ([], 0)]"

definition RunMinDeletionsSorted :: string where
  "RunMinDeletionsSorted =
     heading ''Min Deletions Sorted'' @
     report (\<lambda>(input, expected). let res = MinDeletionsToSorted input in
       tick (res = expected) @ '' input='' @ show_ints input @ '' expected='' @ int_dec expected @
       '' got='' @ int_dec res) deletion_cases"

text \<open>A JSON object of strings that need no escapes, as the raw literals of \<open>RunPredictionDiff\<close> have it.\<close>

definition json_text :: "(string \<times> string) list \<Rightarrow> string" where
  "json_text es =
     (let q = [CHR 0x22]; entry = (\<lambda>(k, v). q @ k @ q @ '':'' @ q @ v @ q)
      in case es of [] \<Rightarrow> ''{}'' | e # es \<Rightarrow> ''{'' @ entry e @ concat (map (\<lambda>e. '', '' @ entry e) es) @ ''}'')"

definition prediction1 :: string where
  "prediction1 = json_text [(''hello'', ''world''), (''hi'', ''world''), (''konnichiwa'', ''sayonara'')]"

definition prediction2 :: string where
  "prediction2 = json_text [(''hello'', ''world''), (''hi'', ''fanny''), (''konnichiwa'', ''sayonar'')]"

definition RunPredictionDiff :: "(string \<Rightarrow> (string \<times> string) list) \<Rightarrow> string" where
  "RunPredictionDiff unmarshal =
     heading ''Prediction Diff'' @
     println (''Prediction 1: '' @ prediction1) @ println (''Prediction 2: '' @ prediction2) @
     println (''Differences: '' @ show_strings (GetPredictionDiff unmarshal prediction1 prediction2))"

definition array_cases :: "(int list \<times> int list) list" where
  "array_cases = [([1, 2, 3, 4, 5], [5, 4, 3, 2, 1]), ([1, 2, 3, 4], [4, 3, 2, 1]), ([42], [42]), ([], [])]"

text \<open>The expected column is in the table, but the loop does not look at it.\<close>

fun reverse_array_lines :: "(int list \<times> int list) list \<Rightarrow> string option" where
  "reverse_array_lines [] = Some []"
| "reverse_array_lines ((input, expected) # cases) =
     (case ReverseArray input of
        None \<Rightarrow> None
      | Some nums \<Rightarrow>
          map_option ((@) (println (''Input: '' @ show_ints input @ '' '' @ [CHR 0xE2, CHR 0x86, CHR 0x92] @
            '' Reversed: '' @ show_ints nums))) (reverse_array_lines cases))"

definition RunReverseArray :: "string option" where
  "RunReverseArray = map_option ((@) (heading ''Reverse Array'')) (reverse_array_lines array_cases)"

definition reverse_cases :: "(int \<times> int) list" where
  "reverse_cases = [(123, 321), (- 123, - 321), (120, 21), (0, 0), (1534236469, 0)]"

definition RunReverseInt :: string where
  "RunReverseInt =
     heading ''Reverse Int'' @
     report (\<lambda>(input, expected). let result = Reverse input in
       tick (result = expected) @ '' Input: '' @ int_dec input @ '', Expected: '' @ int_dec expected @
       '', Got: '' @ int_dec result) reverse_cases"

definition RunReverseMid :: "string option" where
  "RunReverseMid =
     Option.bind (ReverseMiddle [''apple'', ''banana'', ''OranGe'']) (\<lambda>result1.
     Option.bind (ReverseMiddle [''AE'', ''CodeSignal'']) (\<lambda>result2.
       Some (heading ''Reverse Mid'' @ println (''Result 1: '' @ show_strings result1) @
         println (''Result 2: '' @ show_strings result2))))"

definition stepwise_cases :: "(int list \<times> int) list" where
  "stepwise_cases = [([1, 4, 3, 2], 4), ([5, 7, 9, 4, 11], 9)]"

definition RunStepwiseStructure :: string where
  "RunStepwiseStructure =
     heading ''Stepwise Structure'' @
     report (\<lambda>(input, expected). let result = MinOperations input in
       tick (result = expected) @ '' Input: '' @ show_ints input @ '', Expected: '' @ int_dec expected @
       '', Got: '' @ int_dec result) stepwise_cases"

definition subarray_cases :: "(int list \<times> int \<times> int) list" where
  "subarray_cases = [([1, 1, 1], 2, 2), ([1, 2, 3], 3, 2), ([1], 0, 0), ([- 1, - 1, 1], 0, 1), ([1, - 1, 0], 0, 3)]"

definition RunSubarraySumK :: string where
  "RunSubarraySumK =
     heading ''Subarray Sum K'' @ println ''Subarray Sum Equals K:'' @ println (replicate 22 CHR ''-'') @
     report (\<lambda>(i, nums, k, expected). let result = SubarraySum nums k in
       ''Test '' @ int_dec (int i + 1) @ '': '' @ tick (result = expected) @ '' nums='' @ show_ints nums @
       '' k='' @ int_dec k @ '' expected='' @ int_dec expected @ '' got='' @ int_dec result)
       (enumerate 0 subarray_cases)"

definition RunTwoSum :: "string option" where
  "RunTwoSum =
     (let n = [2, 7, 11, 15]; target = 9; result = TwoSum n target in
      if length result < 2 then None
      else Some (heading ''Two Sum'' @ println (''Array: '' @ show_ints n @ '', Target: '' @ int_dec target) @
        println (''Result: ['' @ int_dec (result ! 0) @ '', '' @ int_dec (result ! 1) @ '']'')))"

definition zigzag_cases :: "(string \<times> int \<times> string) list" where
  "zigzag_cases = [(''PAYPALISHIRING'', 3, ''PAHNAPLSIIGYIR''), (''PAYPALISHIRING'', 4, ''PINALSIGYAHRPI''),
     (''A'', 1, ''A''), (''AB'', 1, ''AB'')]"

fun zigzag_lines :: "(string \<times> int \<times> string) list \<Rightarrow> string option" where
  "zigzag_lines [] = Some []"
| "zigzag_lines ((s, numRows, expected) # tests) =
     (case Convert s numRows of
        None \<Rightarrow> None
      | Some result \<Rightarrow>
          map_option ((@) (println (tick (result = expected) @ '' Input: '' @ go_quote s @ '', numRows: '' @
            int_dec numRows @ '', Expected: '' @ go_quote expected @ '', Got: '' @ go_quote result))) (zigzag_lines tests))"

definition RunZigzag :: "string option" where
  "RunZigzag = map_option ((@) (heading ''Zigzag Conversion'')) (zigzag_lines zigzag_cases)"

text \<open>Every table agrees with the code: no demonstration prints a cross.\<close>

lemma gap_table: "list_all (\<lambda>(n, e). BinaryGap n = e) gap_cases"
  by code_simp

lemma case_table: "list_all (\<lambda>(s, e). CaseDiff s = e) case_cases"
  by code_simp

lemma longest_table: "list_all (\<lambda>(s, e). LengthOfLongestSubstring s = e) longest_cases"
  by code_simp

lemma deletion_table: "list_all (\<lambda>(A, e). MinDeletionsToSorted A = e) deletion_cases"
  by code_simp

lemma array_table: "list_all (\<lambda>(A, e). ReverseArray A = Some e) array_cases"
  by code_simp

lemma reverse_table: "list_all (\<lambda>(n, e). Reverse n = e) reverse_cases"
  by code_simp

lemma stepwise_table: "list_all (\<lambda>(A, e). MinOperations A = e) stepwise_cases"
  by code_simp

lemma subarray_table: "list_all (\<lambda>(A, k, e). SubarraySum A k = e) subarray_cases"
  by code_simp

lemma zigzag_table: "list_all (\<lambda>(s, n, e). Convert s n = Some e) zigzag_cases"
  by code_simp

lemma fee_total: "snd (MonthlyFee (Some fee_months)) = 10"
  by code_simp

section \<open>The limiters\<close>

text \<open>
  The lines \<open>simulateLimiter\<close> prints, the verb \<open>%-2d\<close> padding on the right, with the counts of
  \<open>simulate_loop\<close>; no delay is passed, so it does not sleep.
\<close>

definition pad2 :: "string \<Rightarrow> string" where
  "pad2 s = s @ replicate (2 - length s) CHR '' ''"

fun simulate_lines :: "(time \<Rightarrow> 's \<Rightarrow> (bool \<times> 's) option) \<Rightarrow> int \<Rightarrow> time list \<Rightarrow> 's \<Rightarrow> string option" where
  "simulate_lines Allow i [] s = Some []"
| "simulate_lines Allow i (t # ts) s =
     (case Allow t s of
        None \<Rightarrow> None
      | Some (ok, s') \<Rightarrow>
          map_option ((@) (println (''  req '' @ pad2 (int_dec i) @ '' '' @ [CHR 0xE2, CHR 0x86, CHR 0x92] @ '' '' @ tick ok @
            (if ok then '' allowed'' else '' rejected'')))) (simulate_lines Allow (i + 1) ts s'))"

definition simulate_text ::
  "string \<Rightarrow> (time \<Rightarrow> 's \<Rightarrow> (bool \<times> 's) option) \<Rightarrow> time list \<Rightarrow> 's \<Rightarrow> (string \<times> 's) option" where
  "simulate_text name Allow readings s =
     Option.bind (simulate_lines Allow 1 readings s) (\<lambda>out.
     Option.bind (simulateLimiter Allow readings s) (\<lambda>((allowed, rejected), s').
       Some (println ([CHR 0x0A] @ ''--- '' @ name @ '' ---'') @ out @
         println (''  Result: '' @ int_dec allowed @ '' allowed, '' @ int_dec rejected @ '' rejected''), s')))"

text \<open>
  One limiter of \<open>RunRateLimiter\<close>: six requests, a pause of a second, four requests.  The dash of the
  remark is UTF-8.
\<close>

definition two_rounds ::
  "string \<Rightarrow> string \<Rightarrow> string \<Rightarrow> (time \<Rightarrow> 's \<Rightarrow> (bool \<times> 's) option) \<Rightarrow> time list \<Rightarrow> time list \<Rightarrow> 's \<Rightarrow> string option" where
  "two_rounds name remark name' Allow burst later s =
     Option.bind (simulate_text name Allow burst s) (\<lambda>(out, s).
     Option.bind (simulate_text name' Allow later s) (\<lambda>(out', s).
       Some (out @ println (''  [1s pause '' @ [CHR 0xE2, CHR 0x80, CHR 0x94] @ '' '' @ remark @ '']'') @ out')))"

text \<open>The readings of the clock are numbered in the order in which they are taken.\<close>

definition RunRateLimiter :: "(nat \<Rightarrow> time) \<Rightarrow> string option" where
  "RunRateLimiter now =
     Option.bind (two_rounds ''Token Bucket (burst=3, refill=3/s)'' ''bucket refills'' ''Token Bucket (after refill)''
       tb_Allow (map now [1..<7]) (map now [7..<11]) (NewTokenBucket (now 0) 3 3 second)) (\<lambda>tb.
     Option.bind (two_rounds ''Fixed Window (3 req/s)'' ''window resets'' ''Fixed Window (after reset)''
       fw_Allow (map now [12..<18]) (map now [18..<22]) (NewFixedWindow (now 11) 3 second)) (\<lambda>fw.
     Option.bind (two_rounds ''Sliding Window (3 req/s)'' ''old timestamps expire'' ''Sliding Window (after expiry)''
       sw_Allow (map now [22..<28]) (map now [28..<32]) (NewSlidingWindow 3 second)) (\<lambda>sw.
       Some (heading ''Rate Limiter'' @
         println ''Settings: limit=3 requests per second, 10 rapid requests then a pause'' @ tb @ fw @ sw))))"

text \<open>A limiter that never panics in the states it can reach prints its two rounds.\<close>

definition never_panics :: "('s \<Rightarrow> bool) \<Rightarrow> (time \<Rightarrow> 's \<Rightarrow> (bool \<times> 's) option) \<Rightarrow> bool" where
  "never_panics P Allow \<longleftrightarrow> (\<forall>t s. P s \<longrightarrow> (\<exists>ok s'. Allow t s = Some (ok, s') \<and> P s'))"

lemma simulate_lines_total: "never_panics P Allow \<Longrightarrow> P s \<Longrightarrow> \<exists>out. simulate_lines Allow i ts s = Some out"
proof (induction ts arbitrary: s i)
  case (Cons t ts)
  then obtain ok s' where "Allow t s = Some (ok, s')" "P s'" unfolding never_panics_def by blast
  with Cons show ?case by fastforce
qed simp

lemma simulate_loop_total:
  "never_panics P Allow \<Longrightarrow> P s \<Longrightarrow> \<exists>a r s'. simulate_loop Allow ts s c = Some ((a, r), s') \<and> P s'"
proof (induction ts arbitrary: s c)
  case (Cons t ts)
  then obtain ok s' where "Allow t s = Some (ok, s')" "P s'" unfolding never_panics_def by blast
  with Cons show ?case by (cases c; cases ok) auto
qed (cases c, simp)

lemma two_rounds_print:
  assumes "never_panics P Allow" "P s"
  shows "two_rounds n1 remark n2 Allow burst later s \<noteq> None"
proof -
  have round: "\<exists>out s'. simulate_text n Allow ts s = Some (out, s') \<and> P s'" if Ps: "P s" for n ts s
  proof -
    obtain out where "simulate_lines Allow 1 ts s = Some out"
      using simulate_lines_total [OF assms(1) Ps] by blast
    moreover obtain a r s' where "simulate_loop Allow ts s (0, 0) = Some ((a, r), s')" "P s'"
      using simulate_loop_total [OF assms(1) Ps] by blast
    ultimately show ?thesis by (simp add: simulate_text_def simulateLimiter_def)
  qed
  obtain out s' where "simulate_text n1 Allow burst s = Some (out, s')" "P s'" using round [OF assms(2)] by blast
  with round [of s' n2 later] show ?thesis by (auto simp: two_rounds_def)
qed

lemma tb_never_panics: "never_panics (\<lambda>s. tb_refillInterval s \<noteq> 0) tb_Allow"
  by (auto simp: never_panics_def tb_Allow_def refill_def Let_def)

lemma fw_never_panics: "never_panics (\<lambda>s. True) fw_Allow"
  by (auto simp: never_panics_def fw_Allow_def Let_def)

lemma sw_never_panics: "never_panics (\<lambda>s. True) sw_Allow"
  by (auto simp: never_panics_def sw_Allow_def Let_def)

lemma RunRateLimiter_prints: "RunRateLimiter now \<noteq> None"
proof -
  have "tb_refillInterval (NewTokenBucket (now 0) 3 3 second) \<noteq> 0" by (simp add: NewTokenBucket_def second_def)
  note rounds = two_rounds_print [OF tb_never_panics this] two_rounds_print [OF fw_never_panics TrueI]
    two_rounds_print [OF sw_never_panics TrueI]
  have bind_prints: "Option.bind m f \<noteq> None" if "m \<noteq> None" "\<And>x. f x \<noteq> None" for m and f :: "string \<Rightarrow> string option"
    using that by (cases m) auto
  show ?thesis unfolding RunRateLimiter_def by (intro bind_prints rounds) simp
qed

text \<open>
  With the readings of a fast machine (a microsecond per request, a pause of a little more than a
  second) each limiter grants three of the six requests of the burst and three of the four after
  the pause.
\<close>

definition fast_clock :: "nat \<Rightarrow> time" where
  "fast_clock n = 1000 * int n + (if 7 \<le> n then second else 0) + (if 18 \<le> n then second else 0) + (if 28 \<le> n then second else 0)"

definition counts :: "(time \<Rightarrow> 's \<Rightarrow> (bool \<times> 's) option) \<Rightarrow> time list \<Rightarrow> time list \<Rightarrow> 's \<Rightarrow> ((int \<times> int) \<times> int \<times> int) option" where
  "counts Allow burst later s =
     Option.bind (simulateLimiter Allow burst s) (\<lambda>(c, s). map_option (\<lambda>(c', _). (c, c')) (simulateLimiter Allow later s))"

lemma rate_limiter_counts:
  "counts tb_Allow (map fast_clock [1..<7]) (map fast_clock [7..<11]) (NewTokenBucket (fast_clock 0) 3 3 second) =
     Some ((3, 3), 3, 1)"
  by code_simp

lemma fixed_window_counts:
  "counts fw_Allow (map fast_clock [12..<18]) (map fast_clock [18..<22]) (NewFixedWindow (fast_clock 11) 3 second) =
     Some ((3, 3), 3, 1)"
  by code_simp

lemma sliding_window_counts:
  "counts sw_Allow (map fast_clock [22..<28]) (map fast_clock [28..<32]) (NewSlidingWindow 3 second) =
     Some ((3, 3), 3, 1)"
  by code_simp

section \<open>The command line\<close>

definition help_lines :: "string list" where
  "help_lines =
    [''LeetSheet - Go LeetCode Problems Collection'',
     ''=========================================='',
     [CHR 0x0A] @ ''Usage: go run ./cmd -problem=<problem_name>'',
     [CHR 0x0A] @ ''Available problems:'',
     ''  add-two-numbers            - Add two numbers represented as linked lists'',
     ''  binary-gap                 - Find maximum gap between 1'' @ [CHR 0x27] @ ''s in binary representation'',
     ''  case-diff                  - Compute difference between uppercase and lowercase letters'',
     ''  fee-waiver                 - Calculate monthly fees based on transactions'',
     ''  length-of-longest-substring - Find longest substring without repeating characters'',
     ''  linked-list                - Linked list operations (insert, delete, print)'',
     ''  min-deletions-sorted       - Minimum deletions to make array non-decreasing'',
     ''  prediction-diff            - Compare two JSON objects for differences'',
     ''  reverse-int                - Reverse a 32-bit signed integer'',
     ''  reverse-mid                - Reverse middle of words bounded by vowels'',
     ''  stepwise-structure         - Minimum operations for stepwise pattern'',
     ''  subarray-sum-k             - Find subarrays with sum equal to k'',
     ''  two-sum                    - Find two numbers in array that add to target'',
     ''  worker-pool                - Concurrent worker pool example'',
     ''  rate-limiter               - Rate limiter: Token Bucket, Fixed Window, Sliding Window'',
     ''  zigzag                     - Zigzag conversion of string'',
     [CHR 0x0A] @ ''Examples:'',
     ''  go run ./cmd -problem=two-sum'',
     ''  go run ./cmd -problem=worker-pool'']"

definition printHelp :: string where
  "printHelp = concat (map println help_lines)"

text \<open>
  What the command does for the value of \<open>-problem\<close>: print a text (or panic), run the
  concurrent demonstration, or end with a fatal error.
\<close>

datatype command = Prints "string option" | Runs_WorkerPool | Fatal string

definition main :: "(string \<Rightarrow> (string \<times> string) list) \<Rightarrow> (nat \<Rightarrow> time) \<Rightarrow> string \<Rightarrow> command" where
  "main unmarshal now problem =
     (if problem = ''add-two-numbers'' then Prints (Some RunAddTwoNumbers)
      else if problem = ''binary-gap'' then Prints (Some RunBinaryGap)
      else if problem = ''case-diff'' then Prints (Some RunCaseDiff)
      else if problem = ''fee-waiver'' then Prints (Some RunFeeWaiver)
      else if problem = ''length-of-longest-substring'' then Prints (Some RunLengthOfLongestSubstring)
      else if problem = ''linked-list'' then Prints (RunLinkedList empty_heap)
      else if problem = ''min-deletions-sorted'' then Prints (Some RunMinDeletionsSorted)
      else if problem = ''prediction-diff'' then Prints (Some (RunPredictionDiff unmarshal))
      else if problem = ''reverse-int'' then Prints (Some RunReverseInt)
      else if problem = ''reverse-mid'' then Prints RunReverseMid
      else if problem = ''stepwise-structure'' then Prints (Some RunStepwiseStructure)
      else if problem = ''subarray-sum-k'' then Prints (Some RunSubarraySumK)
      else if problem = ''two-sum'' then Prints RunTwoSum
      else if problem = ''rate-limiter'' then Prints (RunRateLimiter now)
      else if problem = ''worker-pool'' then Runs_WorkerPool
      else if problem = ''zigzag'' then Prints RunZigzag
      else if problem = ''help'' \<or> problem = [] then Prints (Some printHelp)
      else Fatal (println (''Unknown problem: '' @ problem)))"

definition listed :: "string list" where
  "listed = map (takeWhile (\<lambda>c. c \<noteq> CHR '' '') \<circ> drop 2) (take 16 (drop 4 help_lines))"

text \<open>The names the help lists are exactly the ones the dispatch knows, and none of them panics.\<close>

lemma main_listed: "name \<in> set listed \<union> {''help'', []} \<longleftrightarrow> (\<forall>e. main unmarshal now name \<noteq> Fatal e)"
proof -
  have l: "listed = [''add-two-numbers'', ''binary-gap'', ''case-diff'', ''fee-waiver'', ''length-of-longest-substring'',
      ''linked-list'', ''min-deletions-sorted'', ''prediction-diff'', ''reverse-int'', ''reverse-mid'',
      ''stepwise-structure'', ''subarray-sum-k'', ''two-sum'', ''worker-pool'', ''rate-limiter'', ''zigzag'']"
    by code_simp
  have b: "(if P then False else Q) = (\<not> P \<and> Q)" for P Q by simp
  define fatal where "fatal c \<longleftrightarrow> (\<exists>e. c = Fatal e)" for c
  have f: "fatal (Prints t) \<longleftrightarrow> False" "fatal Runs_WorkerPool \<longleftrightarrow> False"
    "fatal (Fatal e) \<longleftrightarrow> True" for t e by (simp_all add: fatal_def)
  have "fatal (main unmarshal now name) \<longleftrightarrow> name \<notin> set listed \<union> {''help'', []}"
    unfolding main_def if_distrib [of fatal] f l 
    by (simp only: b list.set insert_iff Un_iff empty_iff de_Morgan_disj simp_thms conj_ac)
  then show ?thesis by (auto simp: fatal_def)
qed

lemma reverse_mid_prints: "RunReverseMid \<noteq> None"
  by code_simp

lemma two_sum_prints: "RunTwoSum \<noteq> None"
  by code_simp

lemma zigzag_prints: "RunZigzag \<noteq> None"
  by code_simp

lemma main_never_panics: "main unmarshal now name \<noteq> Prints None"
proof -
  define stops where "stops c \<longleftrightarrow> c = Prints None" for c
  have f: "stops (Prints t) \<longleftrightarrow> t = None" "stops Runs_WorkerPool \<longleftrightarrow> False"
    "stops (Fatal e) \<longleftrightarrow> False" for t e by (simp_all add: stops_def)
  have "\<not> stops (main unmarshal now name)"
    unfolding main_def if_distrib [of stops] f RunLinkedList_output
    by (simp only: reverse_mid_prints two_sum_prints zigzag_prints RunRateLimiter_prints option.distinct not_True_eq_False if_cancel simp_thms)
  then show ?thesis by (simp add: stops_def)
qed

end
