(* ===== verification/Spec2Isabelle.thy ===== *)
theory Spec2Isabelle
  imports JobProperties JobShutdown JobDrain JobFair CircuitProperties CircuitLoad LimiterProperties GatewayProperties GatewayTokens
    LimiterConcurrent MetricsConcurrent PubSubProperties PubSubDelivery
    WorkerPoolProperties Demos
begin

text \<open>
  A verification library of the Go repository \<open>leetsheet\<close>.

  \<^bold>\<open>The program\<close>

  The repository holds five systems and a collection of routines.

  \<^item> \<open>system-design/job-queue\<close>: a priority queue of jobs with delayed jobs, retries and dead
    letters.  \<open>queue.go\<close> is the broker and the scheduler goroutine, \<open>scheduler.go\<close> two helpers,
    \<open>dispatcher.go\<close> the worker pool and the backoff.  Workers and scheduler share the broker's mutex
    and two signal channels with one slot each.
  \<^item> \<open>system-design/circuit-breaker\<close>: \<open>breaker.go\<close> guards a call with three states, \<open>window.go\<close> is the
    ring buffer of outcomes it consults.
  \<^item> \<open>system-design/api-gateway\<close>: a chain of middleware (observability, authentication, tenant check,
    per-tenant limiter, authorization) in front of an upstream handler.
  \<^item> \<open>system-design/pub-sub\<close>: a topic broker over buffered channels.
  \<^item> \<open>pkg\<close>: three rate limiters, a worker pool, a linked list and the algorithms of the collection;
    \<open>newspaper_formatter.go\<close> formats a page; \<open>cmd/main.go\<close> runs the demonstrations by name.

  \<^bold>\<open>How the code is modelled\<close>

  \<^item> \<open>int\<close>, \<open>int64\<close> and \<open>time.Duration\<close> are HOL integers; every operation that can leave 64 bits is
    wrapped by \<open>i64\<close> (\<open>GoPrelude\<close>).  Go's truncating \<open>/\<close> and \<open>%\<close> are \<open>sdiv\<close> and \<open>smod\<close>.  Counters
    that are bounded by the length of their input carry no wrap.
  \<^item> Structs are records with a prefix per type, enumerations are datatypes, maps are HOL maps, a Go
    string is the list of its bytes.  What the code shares by pointer lives in an explicit store: the
    jobs of the queue, the channels of the broker, the nodes of the linked list.
  \<^item> Readings of the clock are arguments, one per call of \<open>time.Now\<close>.  A panic is \<open>None\<close> (or \<open>Panics\<close>), an
    error return is a constructor or \<open>Inl\<close>.
  \<^item> A mutex-protected method is one step.  Goroutines are cut where they block: \<open>fire\<close> (\<open>JobDispatch\<close>)
    and \<open>pool_step\<close> (\<open>WorkerPool\<close>) are one step of one goroutine, \<open>call_run\<close> (\<open>CircuitBreaker\<close>) interleaves
    the two halves of \<open>Execute\<close>, \<open>PubSub\<close> interleaves the sends of \<open>Publish\<close> with the other methods, and
    \<open>lim_fire\<close> (\<open>LimiterConcurrent\<close>) and \<open>met_fire\<close> (\<open>MetricsConcurrent\<close>) cut concurrent gateway requests at
    every lock and atomic access of the limiter and of the metrics registry.
  \<^item> Code outside the repository is a parameter: the upstream handler, HMAC-SHA256, SHA-256 and the
    JSON decoders.  A job handler and a guarded function are arbitrary.

  \<^bold>\<open>Which theory models what\<close>

  \<^item> \<open>GoPrelude\<close>: machine integers, times, formatting, lists, and the locales \<open>refined_steps\<close>,
    \<open>invariant_steps\<close> and \<open>progress_steps\<close> (measures along infinite runs).  \<open>GoSearch\<close>:
    \<open>sort.Search\<close>.  \<open>GoFloat\<close>: the correctly rounded \<open>float64\<close> quotient.
  \<^item> \<open>JobHeap\<close> (container/heap over an arbitrary less, locale \<open>heap_interface\<close>), \<open>JobQueue\<close> (\<open>queue.go\<close> and
    \<open>scheduler.go\<close>, which interprets it), \<open>JobDispatch\<close> (\<open>dispatcher.go\<close> and all interleavings with
    their invariant), \<open>JobProperties\<close>, \<open>JobShutdown\<close> (\<open>Close\<close>, cancellation and \<open>Wait\<close>),
    \<open>JobDrain\<close> (from every open state the pool can finish every job), \<open>JobFair\<close> (every fair run does).
  \<^item> \<open>CircuitWindow\<close> (\<open>window.go\<close>, locale \<open>outcome_log\<close>), \<open>CircuitBreaker\<close> (\<open>breaker.go\<close>),
    \<open>CircuitProperties\<close>, \<open>CircuitLoad\<close> (what reaches a failing service, and a panicking probe).
  \<^item> \<open>RateLimiters\<close> (\<open>pkg/rate_limiter.go\<close>: the locale \<open>rate_limiter\<close> with its three interpretations),
    \<open>LimiterProperties\<close>.
  \<^item> \<open>GatewayBase\<close> (requests, responses, strings), \<open>GatewayStores\<close> (\<open>tenant.go\<close> and the policy store,
    locales \<open>tenant_store\<close> and \<open>policy_store\<close>), \<open>GatewayAuth\<close> (\<open>authn.go\<close>, \<open>authz.go\<close>, base64),
    \<open>GatewayMetrics\<close> (\<open>observability.go\<close>), \<open>Gateway\<close> (\<open>rate_limiter.go\<close>, \<open>gateway.go\<close>; its ring is one
    more \<open>rate_limiter\<close>), \<open>GatewayChain\<close> (one request through the chain), \<open>GatewayProperties\<close>,
    \<open>GatewayTokens\<close> (issued and accepted tokens), \<open>LimiterConcurrent\<close> and
    \<open>MetricsConcurrent\<close> (the limiter and the registry under concurrent requests, with the rings and
    the metrics as objects on a heap; they interpret \<open>invariant_steps\<close>).
  \<^item> \<open>PubSub\<close>, \<open>PubSubProperties\<close>, \<open>PubSubDelivery\<close> (\<open>pubsub.go\<close>, with the history of a run); \<open>WorkerPool\<close>, \<open>WorkerPoolProperties\<close>
    (\<open>pkg/worker_pool.go\<close>, \<open>pkg/worker.go\<close>).
  \<^item> \<open>LinkedList\<close> (\<open>pkg/linked_list.go\<close> on a heap, interpreting \<open>refined_steps\<close>), \<open>PkgNumbers\<close>
    (\<open>add_two_numbers\<close>, \<open>reverse_int\<close>, \<open>binary_gap\<close>), \<open>PkgArrays\<close> (\<open>reverse_array\<close>, \<open>two_sum\<close>,
    \<open>subarray_sum_k\<close>, \<open>stepwise_structure\<close>, \<open>min_deletions_sorted\<close>, \<open>fee_waiver\<close>), \<open>PkgStrings\<close>
    (\<open>length_of_longest_substring\<close>, \<open>case_diff\<close>, \<open>reverse_mid\<close>, \<open>zigzag\<close>, \<open>prediction_diff\<close>), \<open>Newspaper\<close>,
    \<open>PkgProperties\<close>, and \<open>Demos\<close> (the texts the demonstrations print, their tables, \<open>cmd/main.go\<close>).

  \<^bold>\<open>What is proved\<close>

  \<^item> Job queue: in all interleavings each job is in one place; a dequeue takes the best due job;
    attempts are bounded; no wake-up is lost for good, no state is stuck, and every fair run without
    further calls ends every job; the scheduler is late by no more than it takes to start its timer;
    every branch of \<open>Enqueue\<close>; the retry delay of every attempt; after \<open>Close\<close> the workers make boundedly many
    steps and \<open>Wait\<close> returns.  It also shows flaws: the product
    overflows from attempt 35 and most of the delays up to 63 are negative or zero, \<open>Schedule\<close> and
    \<open>ScheduleAt\<close> on a waiting job can unsort the list and hide due jobs, an idle worker can sit
    beside a ready job, a retry is stranded by \<open>Close\<close>, and a worker whose context is cancelled goes
    on taking jobs.
  \<^item> Circuit breaker: the ring buffer refines the list of the last outcomes, the circuit opens exactly
    at the documented rate, transitions and counters are legal in all interleavings, rejections
    change nothing, the probe decides, and from the moment the circuit is open until a call succeeds
    at most one caller per \<open>OpenTimeout\<close> gets through, in every interleaving.  Two flaws: stale
    completions count as the probe, and a probe that panics with no other call in flight wedges the
    breaker.  The worked ring of the README is not the one the code computes.
  \<^item> Limiters: how much each can grant, when the sliding window grants, even when the arithmetic wraps.
  \<^item> Gateway: only admitted requests reach the upstream, tenants are isolated, issued tokens are
    accepted with their claims and only sealed ones are (the header, and with it the algorithm and the
    key it names, is never read, and nothing is revoked), roles are scoped, the percentile is exact, \<open>itoa\<close> is decimal.  Under
    concurrent requests and tenant updates there is one ring per tenant, the quota holds in every
    minute, and no metrics update is lost.  Flaws: metrics are never recorded, unlisted methods need no permission, the header with
    the remaining quota can be negative.
  \<^item> Publish-subscribe: delivery, what a channel can carry in any interleaving, and that only a send
    to a receiver that left panics.
  \<^item> Worker pool: every job is accounted for in every interleaving, and all runs end.
  \<^item> Linked list: every sequence of operations returns and refines plain lists.
  \<^item> Algorithms: each equals its mathematical specification (counts, minima, maxima, digits, zigzag
    walk, page layout); the tables of the demonstrations agree with the code.

  \<^bold>\<open>Bounds and termination\<close>

  Nothing uses fuel.  Loops with a measure are total functions.  The walks along a linked list are
  partial functions, and on a list without a cycle they are proved to return.  Concurrent systems
  are relations over all schedules; \<open>pool_work\<close> is the measure that bounds a run of the worker pool,
  \<open>shutdown_measure\<close> the steps of the job workers after \<open>Close\<close>, and \<open>steps_to_go\<close> those of the metrics
  calls; liveness of the job queue is stated as the existence of an enabled step, as the existence
  of a run that drains the queue (\<open>drain_measure\<close>), and for all runs under weak fairness of every
  worker and of the scheduler (\<open>work\<close>, and \<open>sched_rank\<close> while the scheduler waits).
  \<open>moderate\<close> (\<open>PkgArrays\<close>) bounds entries and lengths by \<open>2 ^ 30\<close>, which keeps the sums of
  \<open>MinOperations\<close> and \<open>MonthlyFee\<close> exact.

  \<^bold>\<open>Not modelled\<close>

  Log output, HTTP serving itself and the flag parser; the lines the workers of the pool print,
  whose order is the scheduler's.  \<open>Handler\<close> is the chain for one request at a time: of the state
  requests share, the rings, the tenant store and the metrics are modelled under concurrency, the
  key and policy stores only as readings that may differ from moment to moment.  Memory is
  unbounded.
\<close>

end
